(* ===== verification/Hal_Prelude.thy ===== *)
theory Hal_Prelude
  imports Main "HOL-Library.Word" "HOL-Library.Sublist"
begin

text \<open>
  Shared vocabulary of the development: the C++ integer types at their widths, the integer
  division of C++, the collections of rewrite rules the component theories add to, and the
  generic facts about lists and machine words that several components use.

  \<^item> \<open>int32\<close> is \<open>int32_t\<close>, read with \<open>sint\<close>; \<open>uint32\<close> is \<open>uint32_t\<close>, read with \<open>unat\<close>.
  \<^item> \<open>size_t\<close> is the 64-bit \<open>size_t\<close> of an LP64 build.
  \<^item> \<open>int64_t\<close> values of the source (times in nanoseconds) are \<open>int\<close>: no operation on them can
    leave the 64-bit range during 292 years of uptime.
\<close>

unbundle bit_operations_syntax

type_synonym int32 = "32 word"
type_synonym uint32 = "32 word"
type_synonym size_t = "64 word"

named_theorems ext_defs \<open>definitions of the primitives that record one external call\<close>

text \<open>C++ integer division truncates towards zero.\<close>

definition cdiv :: "int \<Rightarrow> int \<Rightarrow> int" where
  "cdiv a b = sgn a * sgn b * (\<bar>a\<bar> div \<bar>b\<bar>)"

lemma cdiv_nonneg: "0 \<le> a \<Longrightarrow> 0 < b \<Longrightarrow> cdiv a b = a div b"
  by (cases "a = 0") (simp_all add: cdiv_def)

text \<open>\<open>std::min\<close> and \<open>std::max\<close> on \<open>size_t\<close> are \<open>min\<close> and \<open>max\<close> of the word order.\<close>

lemma unat_min: "unat (min a b) = min (unat a) (unat (b :: 'a::len word))"
  by (simp add: min_def word_le_nat_alt)

lemma unat_sub_min: "unat (a - min a b) = unat a - unat (b :: 'a::len word)"
proof -
  have "min a b \<le> a" by simp
  then have "unat (a - min a b) = unat a - unat (min a b)"
    by (rule unat_sub)
  then show ?thesis by (simp add: unat_min)
qed

lemma unat_diff_le: "unat b \<le> unat a \<Longrightarrow> unat (a - b :: 'a::len word) = unat a - unat b"
  by (rule unat_sub) (simp add: word_le_nat_alt)

lemma eq_min_iff: "a = min a b \<longleftrightarrow> a \<le> (b :: 'a::linorder)"
  by (auto simp: min_def)

lemma unat_of_nat_small:
  "n < 2 ^ LENGTH('a) \<Longrightarrow> unat (of_nat n :: 'a::len word) = n"
  by (simp add: unat_of_nat take_bit_nat_eq_self)

lemma unat_of_nat_size_t: "n < 2 ^ 64 \<Longrightarrow> unat (of_nat n :: size_t) = n"
  by (rule unat_of_nat_small) simp

lemma unat_add_small:
  "unat a + unat b < 2 ^ LENGTH('a) \<Longrightarrow> unat (a + b :: 'a::len word) = unat a + unat b"
  by (simp add: unat_word_ariths)

lemma word_add_pos:
  "a \<noteq> 0 \<or> b \<noteq> 0 \<Longrightarrow> unat a + unat b < 2 ^ LENGTH('a) \<Longrightarrow> a + b \<noteq> (0 :: 'a::len word)"
  by (metis add_is_0 unat_add_small unat_eq_0)

lemma sint_inject: "sint a = sint b \<Longrightarrow> a = (b :: 'a::len word)"
  by (metis signed_word_eqI)

text \<open>Splitting a list where two loops meet.\<close>

lemma upt_split: "i \<le> k \<Longrightarrow> k \<le> n \<Longrightarrow> [i..<n] = [i..<k] @ [k..<n]"
  by (metis le_Suc_ex upt_add_eq_append)

lemma subseq_concat_filter:
  "subseq (concat (filter P xss)) (concat xss)"
  by (induction xss) (auto intro: list_emb_append2 list_emb_append_mono)

end
