(* ===== verification/Std_Map.thy ===== *)
theory Std_Map
  imports Hal_Prelude
begin

text \<open>
  The associative container of the sensor tables: \<open>std::map<int32_t, T>\<close>, an ordered map.
  It is an association list kept strictly increasing in its keys. The key type orders the
  32-bit words as \<open>int32_t\<close> does (signed), unlike the library's order on words.

  The locale \<open>handle_table\<close> is what the clients rely on (lookup after assignment, after
  erasure, the default insertion of \<open>operator[]\<close>); it is interpreted on the ordered list.
\<close>

subsection \<open>Keys in the order of \<open>int32_t\<close>\<close>

datatype handle_key = Key (key_word: int32)

instantiation handle_key :: linorder
begin

definition less_eq_handle_key :: "handle_key \<Rightarrow> handle_key \<Rightarrow> bool" where
  "less_eq_handle_key a b \<longleftrightarrow> sint (key_word a) \<le> sint (key_word b)"

definition less_handle_key :: "handle_key \<Rightarrow> handle_key \<Rightarrow> bool" where
  "less_handle_key a b \<longleftrightarrow> sint (key_word a) < sint (key_word b)"

instance
proof
  fix a b c :: handle_key
  show "a < b \<longleftrightarrow> a \<le> b \<and> \<not> b \<le> a"
    by (auto simp: less_eq_handle_key_def less_handle_key_def)
  show "a \<le> a" by (simp add: less_eq_handle_key_def)
  show "a \<le> b \<Longrightarrow> b \<le> c \<Longrightarrow> a \<le> c" by (simp add: less_eq_handle_key_def)
  show "a \<le> b \<Longrightarrow> b \<le> a \<Longrightarrow> a = b"
    by (cases a, cases b) (auto simp: less_eq_handle_key_def dest: sint_inject)
  show "a \<le> b \<or> b \<le> a" by (auto simp: less_eq_handle_key_def)
qed

end

lemma handle_key_less [simp]: "Key a < Key b \<longleftrightarrow> sint a < sint b"
  by (simp add: less_handle_key_def)

subsection \<open>The container\<close>

type_synonym 'v std_map = "(handle_key \<times> 'v) list"

definition map_empty :: "'v std_map" where
  "map_empty = []"

definition map_find :: "'v std_map \<Rightarrow> int32 \<Rightarrow> 'v option" where
  "map_find m k = map_of m (Key k)"

fun put_key :: "handle_key \<Rightarrow> 'v \<Rightarrow> 'v std_map \<Rightarrow> 'v std_map" where
  "put_key k v [] = [(k, v)]"
| "put_key k v ((k', v') # m) =
     (if k < k' then (k, v) # (k', v') # m
      else if k = k' then (k, v) # m
      else (k', v') # put_key k v m)"

text \<open>\<open>m[k] = v\<close>\<close>

definition map_put :: "int32 \<Rightarrow> 'v \<Rightarrow> 'v std_map \<Rightarrow> 'v std_map" where
  "map_put k v m = put_key (Key k) v m"

text \<open>\<open>m.erase(k)\<close>\<close>

definition map_erase :: "int32 \<Rightarrow> 'v std_map \<Rightarrow> 'v std_map" where
  "map_erase k m = filter (\<lambda>e. fst e \<noteq> Key k) m"

text \<open>\<open>m[k]\<close> as an expression: a missing key is first inserted with the default value.\<close>

definition map_index :: "'v \<Rightarrow> int32 \<Rightarrow> 'v std_map \<Rightarrow> 'v \<times> 'v std_map" where
  "map_index dflt k m =
     (case map_find m k of Some v \<Rightarrow> (v, m) | None \<Rightarrow> (dflt, map_put k dflt m))"

text \<open>The keys and the values in iteration order.\<close>

definition map_keys :: "'v std_map \<Rightarrow> int32 list" where
  "map_keys m = map (key_word \<circ> fst) m"

definition map_values :: "'v std_map \<Rightarrow> 'v list" where
  "map_values m = map snd m"

definition map_ok :: "'v std_map \<Rightarrow> bool" where
  "map_ok m \<longleftrightarrow> sorted_wrt (<) (map fst m)"

subsection \<open>Facts about the ordered list\<close>

lemma put_key_set: "set (map fst (put_key k v m)) = insert k (set (map fst m))"
  by (induction k v m rule: put_key.induct) auto

lemma put_key_sorted:
  "sorted_wrt (<) (map fst m) \<Longrightarrow> sorted_wrt (<) (map fst (put_key k v m))"
proof (induction k v m rule: put_key.induct)
  case (2 k v k' v' m)
  then show ?case using put_key_set [of k v m] by (auto dest: less_trans)
qed simp

lemma put_key_map_of:
  "sorted_wrt (<) (map fst m) \<Longrightarrow> map_of (put_key k v m) = (map_of m)(k \<mapsto> v)"
  by (induction k v m rule: put_key.induct) (auto simp: fun_eq_iff)

lemma map_ok_distinct: "map_ok m \<Longrightarrow> distinct (map fst m)"
  by (auto simp: map_ok_def strict_sorted_iff)

lemma map_of_filter_key: "map_of (filter (\<lambda>e. fst e \<noteq> k) m) = (map_of m)(k := None)"
  by (induction m) (auto simp: fun_eq_iff)

lemma map_ok_empty [simp]: "map_ok map_empty"
  by (simp add: map_ok_def map_empty_def)

lemma map_ok_put [simp]: "map_ok m \<Longrightarrow> map_ok (map_put k v m)"
  by (simp add: map_ok_def map_put_def put_key_sorted)

lemma map_ok_erase [simp]: "map_ok m \<Longrightarrow> map_ok (map_erase k m)"
  by (auto simp: map_ok_def map_erase_def sorted_wrt_map intro: sorted_wrt_filter)

lemma map_find_empty [simp]: "map_find map_empty k = None"
  by (simp add: map_find_def map_empty_def)

lemma map_find_put [simp]:
  "map_ok m \<Longrightarrow> map_find (map_put k v m) k' = (if k' = k then Some v else map_find m k')"
  by (simp add: map_find_def map_put_def map_ok_def put_key_map_of)

lemma map_find_erase [simp]:
  "map_find (map_erase k m) k' = (if k' = k then None else map_find m k')"
  by (simp add: map_find_def map_erase_def map_of_filter_key)

lemma map_find_in_keys: "map_find m k = Some v \<Longrightarrow> k \<in> set (map_keys m)"
  by (force simp: map_find_def map_keys_def dest: map_of_SomeD)

lemma map_keys_find: "k \<in> set (map_keys m) \<longleftrightarrow> map_find m k \<noteq> None"
proof -
  have "k \<in> set (map_keys m) \<longleftrightarrow> Key k \<in> fst ` set m"
    by (force simp: map_keys_def image_iff)
  then show ?thesis by (simp add: map_find_def map_of_eq_None_iff)
qed

lemma map_entry_find:
  "map_ok m \<Longrightarrow> (Key k, v) \<in> set m \<longleftrightarrow> map_find m k = Some v"
  by (auto simp: map_find_def dest: map_of_SomeD map_ok_distinct
           intro: map_of_is_SomeI [OF map_ok_distinct])

lemma map_values_find:
  "map_ok m \<Longrightarrow> v \<in> set (map_values m) \<longleftrightarrow> (\<exists>k. map_find m k = Some v)"
proof -
  assume ok: "map_ok m"
  have "v \<in> set (map_values m) \<longleftrightarrow> (\<exists>k. (Key k, v) \<in> set m)"
    by (simp add: map_values_def image_iff) (metis handle_key.collapse prod.collapse snd_conv)
  with ok show ?thesis by (simp add: map_entry_find)
qed

lemma map_index_value: "fst (map_index d k m) = (case map_find m k of Some v \<Rightarrow> v | None \<Rightarrow> d)"
  by (simp add: map_index_def split: option.split)

lemma map_index_find:
  "map_ok m \<Longrightarrow> map_find (snd (map_index d k m)) k' =
     (if k' = k \<and> map_find m k = None then Some d else map_find m k')"
  by (auto simp: map_index_def split: option.split)

lemma map_index_ok [simp]: "map_ok m \<Longrightarrow> map_ok (snd (map_index d k m))"
  by (simp add: map_index_def split: option.split)

lemma map_keys_sorted: "map_ok m \<Longrightarrow> sorted_wrt (\<lambda>a b. sint a < sint b) (map_keys m)"
  by (simp add: map_ok_def map_keys_def sorted_wrt_map less_handle_key_def comp_def)

subsection \<open>The interface the clients use\<close>

locale handle_table =
  fixes empty :: "'m"
    and find :: "'m \<Rightarrow> 'k \<Rightarrow> 'v option"
    and put :: "'k \<Rightarrow> 'v \<Rightarrow> 'm \<Rightarrow> 'm"
    and erase :: "'k \<Rightarrow> 'm \<Rightarrow> 'm"
    and ok :: "'m \<Rightarrow> bool"
  assumes find_empty: "find empty k = None"
    and find_put: "ok m \<Longrightarrow> find (put k v m) k' = (if k' = k then Some v else find m k')"
    and find_erase: "ok m \<Longrightarrow> find (erase k m) k' = (if k' = k then None else find m k')"
    and ok_empty: "ok empty"
    and ok_put: "ok m \<Longrightarrow> ok (put k v m)"
    and ok_erase: "ok m \<Longrightarrow> ok (erase k m)"
begin

lemma ok_fold_put: "ok m \<Longrightarrow> ok (fold (\<lambda>x. put (key x) (val x)) xs m)"
  by (induction xs arbitrary: m) (simp_all add: ok_put)

lemma find_fold_put:
  "ok m \<Longrightarrow> find (fold (\<lambda>x. put (key x) (val x)) xs m) k =
     (case map_of (rev (map (\<lambda>x. (key x, val x)) xs)) k of
        None \<Rightarrow> find m k | Some v \<Rightarrow> Some v)"
  by (induction xs arbitrary: m)
     (auto simp: find_put ok_put map_add_def split: option.splits)

lemma fold_put_Some:
  assumes "ok m" and "find (fold (\<lambda>x. put (key x) (val x)) xs m) k = Some v"
  shows "find m k = Some v \<or> (\<exists>x \<in> set xs. key x = k \<and> val x = v)"
proof (cases "map_of (rev (map (\<lambda>x. (key x, val x)) xs)) k")
  case None
  with assms show ?thesis by (simp add: find_fold_put)
next
  case (Some w)
  with assms have "w = v" by (simp add: find_fold_put)
  with map_of_SomeD [OF Some] show ?thesis by auto
qed

lemma ok_fold_erase: "ok m \<Longrightarrow> ok (fold erase ks m)"
  by (induction ks arbitrary: m) (simp_all add: ok_erase)

lemma find_fold_erase:
  "ok m \<Longrightarrow> find (fold erase ks m) k = (if k \<in> set ks then None else find m k)"
  by (induction ks arbitrary: m) (auto simp: find_erase ok_erase)

lemma erase_after_put: "ok m \<Longrightarrow> find (erase k (put k v m)) = (find m)(k := None)"
  by (simp add: fun_eq_iff find_erase find_put ok_put)

end

interpretation table: handle_table map_empty map_find map_put map_erase map_ok
  by unfold_locales simp_all

end
