(* ===== verification/Hal_Types.thy ===== *)
theory Hal_Types
  imports Std_Map
begin

text \<open>
  The data of the sensors multi-HAL (\<open>sensors/HalProxy.cpp\<close>, \<open>sensors/HalProxyCallback.cpp\<close>):
  sensor descriptions, events, result codes, the members of class \<open>HalProxy\<close>, and the
  boundary to everything that is not under \<open>src/\<close>.

  Every call that leaves the class (a sub-HAL, the message queues and their event flags, the
  kernel wake lock, the clock, the framework callback, the dynamic linker) is one \<open>ext_call\<close>.
  Performing it appends the call and its answer to the member \<open>hist\<close> of the state, a ghost
  history. The answers come from the fields \<open>ans\<dots>\<close> of the parameter \<open>hal_env\<close>, each a function
  of the history so far, so that the environment may answer the same call differently every time.
  The other fields of \<open>hal_env\<close> are the constants and the conversions declared in \<open>HalProxy.h\<close> and
  in the HIDL interfaces, which the sources include but the repository does not hold.
\<close>

subsection \<open>Enumerations and structures of the sensors interface\<close>

text \<open>Only the enumerators the sources name are told apart; the others keep their number.\<close>

datatype Result = OK | BAD_VALUE | INVALID_OPERATION | OtherResult int

datatype OperationMode = NORMAL | DATA_INJECTION

datatype SensorType =
  LIGHT | ADDITIONAL_INFO | DYNAMIC_SENSOR_META | HINGE_ANGLE | OtherSensorType int

datatype RateLevel = STOP | OtherRate int

datatype flag_bit = EVENTS_READ | READ_AND_PROCESS | DATA_WRITTEN

record SensorInfo =
  si_sensorHandle :: int32
  si_name :: string
  si_type :: SensorType
  si_typeAsString :: string
  si_flags :: uint32
  si_rest :: "int list"

record Event =
  ev_sensorHandle :: int32
  ev_sensorType :: SensorType
  ev_dynamicHandle :: int32
  ev_rest :: "int list"

type_synonym sensor_map = "SensorInfo std_map"

subsection \<open>Calls that leave the class, and their answers\<close>

datatype ext_call =
    SubSetOperationMode nat OperationMode
  | SubActivate nat int32 bool
  | SubBatch nat int32 int int
  | SubFlush nat int32
  | SubInjectSensorData nat Event
  | SubRegisterDirectChannel nat int
  | SubUnregisterDirectChannel nat int32
  | SubConfigDirectReport nat int32 int32 RateLevel
  | SubInitialize nat int32
  | SubGetSensorsList nat
  | SubGetName nat
  | SubDebug nat
  | EventQueueAvailableToRead
  | EventQueueAvailableToWrite
  | EventQueueGetQuantumCount
  | EventQueueRead size_t
  | EventQueueWrite "Event list"
  | EventQueueWriteBlocking "Event list" int
  | EventQueueFlagWake flag_bit
  | WakeLockQueueWrite uint32
  | WakeLockQueueReadBlocking int
  | WakelockQueueFlagWake flag_bit
  | DeleteEventQueueFlag
  | DeleteWakelockQueueFlag
  | CreateEventQueueFlag
  | CreateWakelockQueueFlag
  | NotifyWakelockCV
  | NotifyEventQueueWriteCV
  | StartThreads
  | JoinPendingWritesThread
  | JoinWakelockThread
  | AcquireWakeLock
  | ReleaseWakeLock
  | GetTimeNow
  | CbDynamicSensorsConnected "SensorInfo list"
  | CbDynamicSensorsDisconnected "int32 list"
  | WriteStringToFd int string
  | DlOpen string
  | DlSym nat string
  | GetSubHal nat string

datatype answer =
    ANone
  | AResult Result
  | ABool bool
  | ASize size_t
  | ATime int
  | ACount "uint32 option"
  | ASensors "SensorInfo list" bool
  | AChannel Result int
  | AString string
  | AHandle "nat option"
  | ASubHal nat uint32

type_synonym history = "(ext_call \<times> answer) list"

record hal_env =
  \<comment> \<open>constants of \<open>HalProxy.h\<close> and of the HIDL types\<close>
  kSensorHandleSubHalIndexMask :: int32
  kMaxSizePendingWriteEventsQueue :: size_t
  kPendingWriteTimeoutNs :: int
  kWakelockTimeoutNs :: int
  SUB_HAL_2_0_VERSION :: uint32
  SUB_HAL_2_1_VERSION :: uint32
  WAKE_UP :: uint32
  MASK_DIRECT_REPORT :: uint32
  MASK_DIRECT_CHANNEL :: uint32
  \<comment> \<open>value-initialised \<open>SensorInfo()\<close> and the version conversions\<close>
  defaultSensorInfo :: SensorInfo
  convertToOldSensorInfo :: "SensorInfo \<Rightarrow> SensorInfo"
  convertToOldEvent :: "Event \<Rightarrow> Event"
  convertToNewEvent :: "Event \<Rightarrow> Event"
  \<comment> \<open>answers of the environment\<close>
  ansResult :: "history \<Rightarrow> ext_call \<Rightarrow> Result"
  ansBool :: "history \<Rightarrow> ext_call \<Rightarrow> bool"
  ansSize :: "history \<Rightarrow> ext_call \<Rightarrow> size_t"
  ansTime :: "history \<Rightarrow> int"
  ansCount :: "history \<Rightarrow> ext_call \<Rightarrow> uint32 option"
  ansSensors :: "history \<Rightarrow> ext_call \<Rightarrow> SensorInfo list \<times> bool"
  ansChannel :: "history \<Rightarrow> ext_call \<Rightarrow> Result \<times> int"
  ansString :: "history \<Rightarrow> ext_call \<Rightarrow> string"
  ansHandle :: "history \<Rightarrow> ext_call \<Rightarrow> nat option"
  ansSubHal :: "history \<Rightarrow> ext_call \<Rightarrow> nat \<times> uint32"

subsection \<open>The members of \<open>HalProxy\<close>\<close>

text \<open>
  A sub-HAL wrapper is the interface version it wraps and the pointer; \<open>shared_ptr\<close>s to wrappers
  are positions in \<open>mSubHalList\<close>, which only the constructors extend. Pointer members are
  \<open>option\<close>s (\<open>None\<close> is \<open>nullptr\<close>). The two thread members also say where the thread stands: see
  theory \<open>Hal_Threads\<close>.
\<close>

datatype subhal = SubHalWrapperV2_0 nat | SubHalWrapperV2_1 nat

text \<open>Where the pending-writes thread stands: no thread, at the head of its loop, between
  \<open>lock.unlock()\<close> and \<open>writeBlocking\<close> (with \<open>numToWrite\<close>, \<open>eventQueueSize\<close> and \<open>numWakeupEvents\<close>),
  between \<open>writeBlocking\<close> and \<open>lock.lock()\<close>, or returned and not yet joined.\<close>

datatype pw_thread =
  PwNone | PwLoop | PwWriting size_t size_t size_t | PwWritten size_t size_t | PwExited

text \<open>Where the wakelock thread stands; \<open>WlReading\<close> carries \<open>timeLeft\<close>, \<open>WlRead\<close> what was read.\<close>

datatype wl_thread =
  WlNone | WlLoop | WlReading int | WlRead "uint32 option" | WlExited

record hal_proxy =
  mSubHalList :: "subhal list"
  mSensors :: sensor_map
  mDynamicSensors :: sensor_map
  mDynamicSensorsCallback :: "nat option"
  mDirectChannelSubHal :: "nat option"
  mCurrentOperationMode :: OperationMode
  mEventQueue :: "nat option"
  mWakeLockQueue :: "nat option"
  mEventQueueFlag :: bool
  mWakelockQueueFlag :: bool
  mPendingWriteEventsQueue :: "(Event list \<times> size_t) list"
  mSizePendingWriteEventsQueue :: size_t
  mMostEventsObservedPendingWriteEventsQueue :: size_t
  mThreadsRun :: bool
  mPendingWritesThread :: pw_thread
  mWakelockThread :: wl_thread
  mWakelockRefCount :: size_t
  mWakelockTimeoutStartTime :: int
  mWakelockTimeoutResetTime :: int
  hist :: history

subsection \<open>Performing an external call\<close>

definition do_call :: "ext_call \<Rightarrow> hal_proxy \<Rightarrow> hal_proxy" where
  [ext_defs]: "do_call c s = s\<lparr>hist := hist s @ [(c, ANone)]\<rparr>"

definition call_result :: "hal_env \<Rightarrow> ext_call \<Rightarrow> hal_proxy \<Rightarrow> Result \<times> hal_proxy" where
  [ext_defs]: "call_result E c s =
     (let r = ansResult E (hist s) c in (r, s\<lparr>hist := hist s @ [(c, AResult r)]\<rparr>))"

definition call_bool :: "hal_env \<Rightarrow> ext_call \<Rightarrow> hal_proxy \<Rightarrow> bool \<times> hal_proxy" where
  [ext_defs]: "call_bool E c s =
     (let r = ansBool E (hist s) c in (r, s\<lparr>hist := hist s @ [(c, ABool r)]\<rparr>))"

definition call_size :: "hal_env \<Rightarrow> ext_call \<Rightarrow> hal_proxy \<Rightarrow> size_t \<times> hal_proxy" where
  [ext_defs]: "call_size E c s =
     (let r = ansSize E (hist s) c in (r, s\<lparr>hist := hist s @ [(c, ASize r)]\<rparr>))"

definition call_count :: "hal_env \<Rightarrow> ext_call \<Rightarrow> hal_proxy \<Rightarrow> uint32 option \<times> hal_proxy" where
  [ext_defs]: "call_count E c s =
     (let r = ansCount E (hist s) c in (r, s\<lparr>hist := hist s @ [(c, ACount r)]\<rparr>))"

definition call_sensors ::
  "hal_env \<Rightarrow> ext_call \<Rightarrow> hal_proxy \<Rightarrow> (SensorInfo list \<times> bool) \<times> hal_proxy" where
  [ext_defs]: "call_sensors E c s =
     (let r = ansSensors E (hist s) c
      in (r, s\<lparr>hist := hist s @ [(c, ASensors (fst r) (snd r))]\<rparr>))"

definition call_channel :: "hal_env \<Rightarrow> ext_call \<Rightarrow> hal_proxy \<Rightarrow> (Result \<times> int) \<times> hal_proxy" where
  [ext_defs]: "call_channel E c s =
     (let r = ansChannel E (hist s) c
      in (r, s\<lparr>hist := hist s @ [(c, AChannel (fst r) (snd r))]\<rparr>))"

definition call_string :: "hal_env \<Rightarrow> ext_call \<Rightarrow> hal_proxy \<Rightarrow> string \<times> hal_proxy" where
  [ext_defs]: "call_string E c s =
     (let r = ansString E (hist s) c in (r, s\<lparr>hist := hist s @ [(c, AString r)]\<rparr>))"

definition call_handle :: "hal_env \<Rightarrow> ext_call \<Rightarrow> hal_proxy \<Rightarrow> nat option \<times> hal_proxy" where
  [ext_defs]: "call_handle E c s =
     (let r = ansHandle E (hist s) c in (r, s\<lparr>hist := hist s @ [(c, AHandle r)]\<rparr>))"

definition call_subhal :: "hal_env \<Rightarrow> ext_call \<Rightarrow> hal_proxy \<Rightarrow> (nat \<times> uint32) \<times> hal_proxy" where
  [ext_defs]: "call_subhal E c s =
     (let r = ansSubHal E (hist s) c
      in (r, s\<lparr>hist := hist s @ [(c, ASubHal (fst r) (snd r))]\<rparr>))"

definition getTimeNow :: "hal_env \<Rightarrow> hal_proxy \<Rightarrow> int \<times> hal_proxy" where
  [ext_defs]: "getTimeNow E s =
     (let t = ansTime E (hist s) in (t, s\<lparr>hist := hist s @ [(GetTimeNow, ATime t)]\<rparr>))"

text \<open>\<open>std::vector::size()\<close>\<close>

definition vsize :: "'a list \<Rightarrow> size_t" where
  "vsize xs = of_nat (length xs)"

text \<open>The standard bounds \<open>vector::size()\<close> by \<open>PTRDIFF_MAX\<close>.\<close>

definition vector_ok :: "'a list \<Rightarrow> bool" where
  "vector_ok xs \<longleftrightarrow> length xs < 2 ^ 63"

lemma unat_vsize: "vector_ok xs \<Longrightarrow> unat (vsize xs) = length xs"
  by (simp add: vector_ok_def vsize_def unat_of_nat_size_t)

lemma vsize_0_iff: "vector_ok xs \<Longrightarrow> vsize xs = 0 \<longleftrightarrow> xs = []"
  by (metis unat_vsize length_0_conv unat_eq_0)

subsection \<open>Documented values of the parameters\<close>

text \<open>
  \<open>HalProxy.cpp\<close> calls the part of a handle it replaces its "first byte", so the mask that
  selects it is \<open>0xFF000000\<close>.
\<close>

definition first_byte_mask :: int32 where
  "first_byte_mask = 0xFF000000"

definition mask_documented :: "hal_env \<Rightarrow> bool" where
  "mask_documented E \<longleftrightarrow> kSensorHandleSubHalIndexMask E = first_byte_mask"

subsection \<open>A concrete environment and state for the witnesses\<close>

text \<open>
  \<open>quiet_env\<close> has the constants of the Android sources and answers every call with success, an
  empty queue of four free slots and a clock that shows the number of calls made so far.
  \<open>empty_proxy\<close> is a proxy with no sub-HALs, before \<open>initialize\<close>.
\<close>

definition no_sensor :: SensorInfo where
  "no_sensor = \<lparr>si_sensorHandle = 0, si_name = '''', si_type = OtherSensorType 0,
     si_typeAsString = '''', si_flags = 0, si_rest = []\<rparr>"

definition quiet_env :: hal_env where
  "quiet_env =
     \<lparr>kSensorHandleSubHalIndexMask = first_byte_mask,
      kMaxSizePendingWriteEventsQueue = 100000,
      kPendingWriteTimeoutNs = 5000000000,
      kWakelockTimeoutNs = 1000000000,
      SUB_HAL_2_0_VERSION = 0x02000000,
      SUB_HAL_2_1_VERSION = 0x02010000,
      WAKE_UP = 1, MASK_DIRECT_REPORT = 0x380, MASK_DIRECT_CHANNEL = 0xC00,
      defaultSensorInfo = no_sensor,
      convertToOldSensorInfo = (\<lambda>i. i), convertToOldEvent = (\<lambda>e. e), convertToNewEvent = (\<lambda>e. e),
      ansResult = (\<lambda>_ _. OK), ansBool = (\<lambda>_ _. True), ansSize = (\<lambda>_ _. 4),
      ansTime = (\<lambda>h. int (length h)), ansCount = (\<lambda>_ _. Some 1),
      ansSensors = (\<lambda>_ _. ([], True)), ansChannel = (\<lambda>_ _. (OK, 1)),
      ansString = (\<lambda>_ _. ''subhal''), ansHandle = (\<lambda>_ _. Some 0),
      ansSubHal = (\<lambda>_ _. (0, 0x02000000))\<rparr>"

definition empty_proxy :: hal_proxy where
  "empty_proxy =
     \<lparr>mSubHalList = [], mSensors = map_empty, mDynamicSensors = map_empty,
      mDynamicSensorsCallback = None, mDirectChannelSubHal = None,
      mCurrentOperationMode = NORMAL, mEventQueue = None, mWakeLockQueue = None,
      mEventQueueFlag = False, mWakelockQueueFlag = False,
      mPendingWriteEventsQueue = [], mSizePendingWriteEventsQueue = 0,
      mMostEventsObservedPendingWriteEventsQueue = 0, mThreadsRun = True,
      mPendingWritesThread = PwNone, mWakelockThread = WlNone,
      mWakelockRefCount = 0, mWakelockTimeoutStartTime = 0, mWakelockTimeoutResetTime = 0,
      hist = []\<rparr>"

end
