(* ===== verification/Wakelock.thy ===== *)
theory Wakelock
  imports Hal_Types
begin

text \<open>
  The shared wake lock of \<open>sensors/HalProxy.cpp\<close>: one kernel wake lock for all sub-HALs, taken when
  \<open>mWakelockRefCount\<close> leaves zero and given back when it returns to zero, with a timeout that
  resets the count. The kernel's state is read off the history: it is held after
  \<open>AcquireWakeLock\<close> and not after \<open>ReleaseWakeLock\<close>.

  The locale \<open>wakelock_counter\<close> is the interface \<open>IScopedWakelockRefCounter\<close> that the proxy offers
  to the scoped wakelocks of its sub-HALs.
\<close>

subsection \<open>Operations\<close>

text \<open>\<open>None\<close> is \<open>return false\<close>; \<open>Some t\<close> is \<open>return true\<close> with \<open>t\<close> stored in \<open>*timeoutStart\<close>.\<close>

definition incrementRefCountAndMaybeAcquireWakelock ::
  "hal_env \<Rightarrow> size_t \<Rightarrow> hal_proxy \<Rightarrow> int option \<times> hal_proxy" where
  "incrementRefCountAndMaybeAcquireWakelock E delta s =
     (if \<not> mThreadsRun s then (None, s)
      else
        let s1 = (if mWakelockRefCount s = 0
                  then do_call NotifyWakelockCV (do_call AcquireWakeLock s) else s);
            (now, s2) = getTimeNow E s1;
            s3 = s2\<lparr>mWakelockTimeoutStartTime := now,
                    mWakelockRefCount := mWakelockRefCount s2 + delta\<rparr>
        in (Some now, s3))"

definition decrementRefCountAndMaybeReleaseWakelock ::
  "size_t \<Rightarrow> int \<Rightarrow> hal_proxy \<Rightarrow> hal_proxy" where
  "decrementRefCountAndMaybeReleaseWakelock delta timeoutStart s =
     (if \<not> mThreadsRun s then s
      else
        let start = (if timeoutStart = -1 then mWakelockTimeoutResetTime s else timeoutStart)
        in if mWakelockRefCount s = 0 \<or> start < mWakelockTimeoutResetTime s then s
           else
             let s1 = s\<lparr>mWakelockRefCount :=
                          mWakelockRefCount s - min (mWakelockRefCount s) delta\<rparr>
             in if mWakelockRefCount s1 = 0 then do_call ReleaseWakeLock s1 else s1)"

definition resetSharedWakelock :: "hal_env \<Rightarrow> hal_proxy \<Rightarrow> hal_proxy" where
  "resetSharedWakelock E s =
     (let s1 = decrementRefCountAndMaybeReleaseWakelock (mWakelockRefCount s) (-1) s;
          (now, s2) = getTimeNow E s1
      in s2\<lparr>mWakelockTimeoutResetTime := now\<rparr>)"

text \<open>\<open>(true, _)\<close> leaves \<open>*timeLeft\<close> unwritten.\<close>

definition sharedWakelockDidTimeout ::
  "hal_env \<Rightarrow> hal_proxy \<Rightarrow> (bool \<times> int option) \<times> hal_proxy" where
  "sharedWakelockDidTimeout E s =
     (let (now, s1) = getTimeNow E s;
          duration = now - mWakelockTimeoutStartTime s1
      in if duration > kWakelockTimeoutNs E then ((True, None), s1)
         else ((False, Some (kWakelockTimeoutNs E - duration)), s1))"

subsection \<open>The kernel's side\<close>

fun held_after :: "bool \<Rightarrow> history \<Rightarrow> bool" where
  "held_after b [] = b"
| "held_after b ((AcquireWakeLock, _) # h) = held_after True h"
| "held_after b ((ReleaseWakeLock, _) # h) = held_after False h"
| "held_after b (_ # h) = held_after b h"

definition wakelock_held :: "history \<Rightarrow> bool" where
  "wakelock_held h = held_after False h"

lemma held_after_append: "held_after b (h @ h') = held_after (held_after b h) h'"
  by (induction b h rule: held_after.induct) simp_all

text \<open>The part of a call history that the wake lock does not see.\<close>

definition no_wakelock_call :: "history \<Rightarrow> bool" where
  "no_wakelock_call h \<longleftrightarrow>
     list_all (\<lambda>e. fst e \<noteq> AcquireWakeLock \<and> fst e \<noteq> ReleaseWakeLock) h"

lemma held_after_no_call: "no_wakelock_call h \<Longrightarrow> held_after b h = b"
  by (induction b h rule: held_after.induct) (simp_all add: no_wakelock_call_def)

lemma wakelock_held_append:
  "no_wakelock_call h' \<Longrightarrow> wakelock_held (h @ h') = wakelock_held h"
  by (simp add: wakelock_held_def held_after_append held_after_no_call)

lemma wakelock_held_snoc [simp]:
  "wakelock_held (h @ [(AcquireWakeLock, a)])"
  "\<not> wakelock_held (h @ [(ReleaseWakeLock, a)])"
  "c \<noteq> AcquireWakeLock \<Longrightarrow> c \<noteq> ReleaseWakeLock \<Longrightarrow>
     wakelock_held (h @ [(c, a)]) = wakelock_held h"
  by (simp_all add: wakelock_held_def held_after_append)
     (cases c; simp)

lemma wakelock_held_snoc2 [simp]:
  "c \<noteq> AcquireWakeLock \<Longrightarrow> c \<noteq> ReleaseWakeLock \<Longrightarrow>
     wakelock_held (h @ [e, (c, a)]) = wakelock_held (h @ [e])"
  using wakelock_held_snoc(3) [of c "h @ [e]" a] by simp

lemma wakelock_held_snoc3 [simp]:
  "c \<noteq> AcquireWakeLock \<Longrightarrow> c \<noteq> ReleaseWakeLock \<Longrightarrow>
     wakelock_held (h @ [e, e', (c, a)]) = wakelock_held (h @ [e, e'])"
  using wakelock_held_snoc(3) [of c "h @ [e, e']" a] by simp

lemma wakelock_held_Nil [simp]: "\<not> wakelock_held []"
  by (simp add: wakelock_held_def)

text \<open>The proxy's count and the kernel's state agree.\<close>

definition wakelock_inv :: "hal_proxy \<Rightarrow> bool" where
  "wakelock_inv s \<longleftrightarrow> (wakelock_held (hist s) \<longleftrightarrow> mWakelockRefCount s \<noteq> 0)"

text \<open>An increment from zero must be by at least one, and no increment may wrap the counter.\<close>

definition increment_ok :: "size_t \<Rightarrow> hal_proxy \<Rightarrow> bool" where
  "increment_ok delta s \<longleftrightarrow> (delta \<noteq> 0 \<or> mWakelockRefCount s \<noteq> 0)
     \<and> unat (mWakelockRefCount s) + unat delta < 2 ^ 64"

subsection \<open>What each operation does\<close>

lemmas wakelock_defs = incrementRefCountAndMaybeAcquireWakelock_def
  decrementRefCountAndMaybeReleaseWakelock_def resetSharedWakelock_def
  sharedWakelockDidTimeout_def

lemma increment_inv:
  "wakelock_inv s \<Longrightarrow> increment_ok d s \<Longrightarrow>
     wakelock_inv (snd (incrementRefCountAndMaybeAcquireWakelock E d s))"
  by (auto simp: wakelock_inv_def wakelock_defs increment_ok_def ext_defs Let_def word_add_pos)

lemma increment_count:
  "mThreadsRun s \<Longrightarrow> increment_ok d s \<Longrightarrow>
     unat (mWakelockRefCount (snd (incrementRefCountAndMaybeAcquireWakelock E d s)))
       = unat (mWakelockRefCount s) + unat d"
  by (auto simp: wakelock_defs increment_ok_def ext_defs Let_def unat_add_small)

lemma decrement_inv:
  "wakelock_inv s \<Longrightarrow> wakelock_inv (decrementRefCountAndMaybeReleaseWakelock d t s)"
  by (auto simp: wakelock_inv_def wakelock_defs ext_defs Let_def)

lemma decrement_count:
  "mThreadsRun s \<Longrightarrow>
     unat (mWakelockRefCount (decrementRefCountAndMaybeReleaseWakelock d t s)) =
       (if t \<noteq> -1 \<and> t < mWakelockTimeoutResetTime s then unat (mWakelockRefCount s)
        else unat (mWakelockRefCount s) - unat d)"
  by (auto simp: wakelock_defs ext_defs Let_def unat_sub_min eq_min_iff word_le_nat_alt unat_diff_le)

lemma reset_inv: "wakelock_inv s \<Longrightarrow> wakelock_inv (resetSharedWakelock E s)"
  using decrement_inv [of s "mWakelockRefCount s" "-1"]
  by (simp add: resetSharedWakelock_def ext_defs Let_def wakelock_inv_def)

lemma reset_count: "mThreadsRun s \<Longrightarrow> mWakelockRefCount (resetSharedWakelock E s) = 0"
  by (simp add: wakelock_defs ext_defs Let_def)

lemma increment_stamp:
  "incrementRefCountAndMaybeAcquireWakelock E d s = (r, s') \<Longrightarrow>
     (r = None \<longleftrightarrow> \<not> mThreadsRun s)
     \<and> mWakelockTimeoutResetTime s' = mWakelockTimeoutResetTime s \<and> mThreadsRun s' = mThreadsRun s"
  by (auto simp: wakelock_defs ext_defs Let_def split: if_splits)

lemma decrement_frame [simp]:
  "mThreadsRun (decrementRefCountAndMaybeReleaseWakelock d t s) = mThreadsRun s"
  "mWakelockTimeoutResetTime (decrementRefCountAndMaybeReleaseWakelock d t s)
     = mWakelockTimeoutResetTime s"
  by (simp_all add: wakelock_defs ext_defs Let_def)

subsection \<open>The interface \<open>IScopedWakelockRefCounter\<close>\<close>

text \<open>
  A scoped wakelock increments by one when it is created, keeps the time stamp it was given, and
  decrements by one with that stamp when it is destroyed.
\<close>

locale wakelock_counter =
  fixes inc :: "'d \<Rightarrow> 's \<Rightarrow> int option \<times> 's"
    and dec :: "'d \<Rightarrow> int \<Rightarrow> 's \<Rightarrow> 's"
    and amount :: "'d \<Rightarrow> nat"
    and fits :: "'d \<Rightarrow> 's \<Rightarrow> bool"
    and inv :: "'s \<Rightarrow> bool"
    and running :: "'s \<Rightarrow> bool"
    and count :: "'s \<Rightarrow> nat"
    and held :: "'s \<Rightarrow> bool"
    and epoch :: "'s \<Rightarrow> int"
  assumes held_count: "inv s \<Longrightarrow> held s \<longleftrightarrow> 0 < count s"
    and inc_inv: "inv s \<Longrightarrow> fits d s \<Longrightarrow> inv (snd (inc d s))"
    and inc_amount: "fits d s \<Longrightarrow> 0 < count s + amount d"
    and inc_count: "running s \<Longrightarrow> fits d s \<Longrightarrow> count (snd (inc d s)) = count s + amount d"
    and inc_frame: "running (snd (inc d s)) = running s" "epoch (snd (inc d s)) = epoch s"
    and dec_inv: "inv s \<Longrightarrow> inv (dec d t s)"
    and dec_count: "running s \<Longrightarrow> count (dec d t s) =
      (if t \<noteq> -1 \<and> t < epoch s then count s else count s - amount d)"
    and dec_frame: "running (dec d t s) = running s" "epoch (dec d t s) = epoch s"
begin

lemma held_after_inc:
  "inv s \<Longrightarrow> running s \<Longrightarrow> fits d s \<Longrightarrow> held (snd (inc d s))"
  using held_count [OF inc_inv] inc_count inc_amount by fastforce

lemma scope_restores_count:
  assumes "running s" "fits d s" "epoch s \<le> t"
  shows "count (dec d t (snd (inc d s))) = count s"
  using assms by (auto simp: dec_count inc_frame inc_count)

lemma stale_dec: "running s \<Longrightarrow> t \<noteq> -1 \<Longrightarrow> t < epoch s \<Longrightarrow> count (dec d t s) = count s"
  by (simp add: dec_count)

lemma decs_frame:
  "running (fold (dec d) ts s) = running s" "epoch (fold (dec d) ts s) = epoch s"
  "inv s \<Longrightarrow> inv (fold (dec d) ts s)"
  by (induction ts arbitrary: s) (simp_all add: dec_frame dec_inv)

lemma decs_count:
  assumes "running s"
  shows "count (fold (dec d) ts s) =
    count s - amount d * length (filter (\<lambda>t. t = -1 \<or> epoch s \<le> t) ts)"
  using assms by (induction ts arbitrary: s) (auto simp: dec_count dec_frame)

lemma held_while_scope_alive:
  assumes "inv s" "running s" and alive: "amount d * length ts < count s"
  shows "held (fold (dec d) ts s)"
proof -
  have "amount d * length (filter (\<lambda>t. t = -1 \<or> epoch s \<le> t) ts) \<le> amount d * length ts"
    by (simp add: mult_le_mono)
  from this alive have "amount d * length (filter (\<lambda>t. t = -1 \<or> epoch s \<le> t) ts) < count s"
    by (rule order.strict_trans1)
  with assms show ?thesis
    by (simp add: held_count decs_frame decs_count)
qed

end

interpretation scoped: wakelock_counter
  "incrementRefCountAndMaybeAcquireWakelock E" decrementRefCountAndMaybeReleaseWakelock
  unat increment_ok wakelock_inv mThreadsRun "\<lambda>s. unat (mWakelockRefCount s)"
  "\<lambda>s. wakelock_held (hist s)" mWakelockTimeoutResetTime
  for E
proof unfold_locales
  fix s d t
  show "wakelock_inv s \<Longrightarrow> wakelock_held (hist s) \<longleftrightarrow> 0 < unat (mWakelockRefCount s)"
    by (simp add: wakelock_inv_def unat_gt_0)
  show "increment_ok d s \<Longrightarrow> 0 < unat (mWakelockRefCount s) + unat d"
    by (auto simp: increment_ok_def unat_gt_0)
  show "mThreadsRun (snd (incrementRefCountAndMaybeAcquireWakelock E d s)) = mThreadsRun s"
    "mWakelockTimeoutResetTime (snd (incrementRefCountAndMaybeAcquireWakelock E d s))
       = mWakelockTimeoutResetTime s"
    using increment_stamp [of E d s] by (metis prod.collapse)+
qed (simp_all add: increment_inv increment_count decrement_inv decrement_count)

subsection \<open>Properties\<close>

datatype wakelock_op = Increment size_t | Decrement size_t int | ResetShared

fun wakelock_run :: "hal_env \<Rightarrow> wakelock_op list \<Rightarrow> hal_proxy \<Rightarrow> hal_proxy" where
  "wakelock_run E [] s = s"
| "wakelock_run E (Increment d # ops) s =
     wakelock_run E ops (snd (incrementRefCountAndMaybeAcquireWakelock E d s))"
| "wakelock_run E (Decrement d t # ops) s =
     wakelock_run E ops (decrementRefCountAndMaybeReleaseWakelock d t s)"
| "wakelock_run E (ResetShared # ops) s = wakelock_run E ops (resetSharedWakelock E s)"

fun increments_ok :: "hal_env \<Rightarrow> wakelock_op list \<Rightarrow> hal_proxy \<Rightarrow> bool" where
  "increments_ok E [] s = True"
| "increments_ok E (op # ops) s =
     ((case op of Increment d \<Rightarrow> increment_ok d s | _ \<Rightarrow> True)
      \<and> increments_ok E ops (wakelock_run E [op] s))"

lemma wakelock_run_inv:
  "wakelock_inv s \<Longrightarrow> increments_ok E ops s \<Longrightarrow> wakelock_inv (wakelock_run E ops s)"
  by (induction E ops s rule: wakelock_run.induct)
     (simp_all add: scoped.inc_inv scoped.dec_inv reset_inv)

text \<open>What the count should be: raised by increments, lowered to no less than zero by decrements that are
  not older than the last reset, zero after a reset.\<close>

fun counted :: "int \<Rightarrow> wakelock_op \<Rightarrow> nat \<Rightarrow> nat" where
  "counted epoch (Increment d) n = n + unat d"
| "counted epoch (Decrement d t) n = (if t \<noteq> -1 \<and> t < epoch then n else n - unat d)"
| "counted epoch ResetShared n = 0"

lemma wakelock_run_counted:
  "mThreadsRun s \<Longrightarrow> increments_ok E ops s \<Longrightarrow> ResetShared \<notin> set ops \<Longrightarrow>
     unat (mWakelockRefCount (wakelock_run E ops s))
       = fold (counted (mWakelockTimeoutResetTime s)) ops (unat (mWakelockRefCount s))"
  by (induction E ops s rule: wakelock_run.induct)
     (simp_all add: scoped.inc_count scoped.dec_count scoped.inc_frame scoped.dec_frame)

text \<open>
  Whatever the order of increments, decrements, time-outs and stale releases, the kernel wake
  lock is held exactly while \<open>mWakelockRefCount\<close> is not zero, provided no increment from zero is by zero and
  the 64-bit counter does not wrap. While the threads run and no time-out comes, the count is what
  increments and decrements add up to, so the wake lock is held exactly while that is positive.
\<close>

lemma wakelock_held_iff_counted:
  assumes "wakelock_inv s" and "increments_ok E ops s"
  shows "(wakelock_held (hist (wakelock_run E ops s))
      \<longleftrightarrow> mWakelockRefCount (wakelock_run E ops s) \<noteq> 0)
    \<and> (mThreadsRun s \<and> ResetShared \<notin> set ops \<longrightarrow>
        unat (mWakelockRefCount (wakelock_run E ops s))
          = fold (counted (mWakelockTimeoutResetTime s)) ops (unat (mWakelockRefCount s)))"
  using wakelock_run_inv [OF assms] wakelock_run_counted [OF _ assms(2)] by (simp add: wakelock_inv_def)

lemma wakelock_held_iff_counted_example:
  "wakelock_held (hist (wakelock_run quiet_env
      [Increment 2, Decrement 1 (-1), Increment 1, Decrement 1 (-1)] empty_proxy))
   \<and> \<not> wakelock_held (hist (wakelock_run quiet_env
      [Increment 2, Decrement 1 (-1), Increment 1, ResetShared] empty_proxy))"
proof -
  have inv: "wakelock_inv empty_proxy" by (simp add: wakelock_inv_def empty_proxy_def)
  note eval = empty_proxy_def quiet_env_def wakelock_defs ext_defs increment_ok_def Let_def
  show ?thesis
    using wakelock_held_iff_counted [OF inv, of quiet_env
        "[Increment 2, Decrement 1 (-1), Increment 1, Decrement 1 (-1)]"]
      wakelock_held_iff_counted [OF inv, of quiet_env
        "[Increment 2, Decrement 1 (-1), Increment 1, ResetShared]"]
    by (simp add: eval)
qed

text \<open>
  C26: a scoped wakelock: creating it holds the kernel wake lock, destroying it with the time stamp
  it was given restores the count, and releases the wake lock exactly when the count was zero.
\<close>

theorem scoped_wakelock_lifetime:
  assumes "wakelock_inv s" and "mThreadsRun s" and "increment_ok 1 s"
    and "incrementRefCountAndMaybeAcquireWakelock E 1 s = (Some t, s1)"
    and "mWakelockTimeoutResetTime s \<le> t"
  shows "wakelock_held (hist s1)
    \<and> mWakelockRefCount (decrementRefCountAndMaybeReleaseWakelock 1 t s1) = mWakelockRefCount s
    \<and> (wakelock_held (hist (decrementRefCountAndMaybeReleaseWakelock 1 t s1))
        \<longleftrightarrow> mWakelockRefCount s \<noteq> 0)"
proof -
  have s1: "s1 = snd (incrementRefCountAndMaybeAcquireWakelock E 1 s)" using assms(4) by simp
  have count: "mWakelockRefCount (decrementRefCountAndMaybeReleaseWakelock 1 t s1)
      = mWakelockRefCount s"
    using scoped.scope_restores_count [OF assms(2,3,5)] by (auto simp: s1 word_unat_eq_iff)
  have "wakelock_inv (decrementRefCountAndMaybeReleaseWakelock 1 t s1)"
    unfolding s1 by (intro scoped.dec_inv scoped.inc_inv assms)
  with count show ?thesis
    using scoped.held_after_inc [OF assms(1-3), of E] by (simp add: s1 wakelock_inv_def)
qed

theorem scoped_wakelock_lifetime_witness:
  "\<exists>t s1. incrementRefCountAndMaybeAcquireWakelock quiet_env 1 empty_proxy = (Some t, s1)
     \<and> wakelock_held (hist s1)
     \<and> \<not> wakelock_held (hist (decrementRefCountAndMaybeReleaseWakelock 1 t s1))"
proof -
  note eval = empty_proxy_def quiet_env_def wakelock_defs ext_defs Let_def
  obtain t s1 where
    step: "incrementRefCountAndMaybeAcquireWakelock quiet_env 1 empty_proxy = (Some t, s1)"
    and t: "t = 2" by (simp add: eval)
  have "wakelock_inv empty_proxy" "mThreadsRun empty_proxy" "increment_ok 1 empty_proxy"
    "mWakelockTimeoutResetTime empty_proxy \<le> t"
    by (simp_all add: wakelock_inv_def increment_ok_def empty_proxy_def t)
  from scoped_wakelock_lifetime [OF this(1-3) step this(4)] step show ?thesis
    by (auto simp: empty_proxy_def)
qed



text \<open>
  Once \<open>mThreadsRun\<close> is false, \<open>resetSharedWakelock\<close> neither changes the count nor releases the
  wake lock, because the decrement it makes returns early. The reset that \<open>initializeCommon\<close> and
  \<open>handleWakelocks\<close> make after the threads were told to stop therefore has no effect on them.
\<close>

lemma reset_after_stop_keeps_wakelock:
  assumes "\<not> mThreadsRun s"
  shows "mWakelockRefCount (resetSharedWakelock E s) = mWakelockRefCount s
    \<and> wakelock_held (hist (resetSharedWakelock E s)) = wakelock_held (hist s)"
  using assms by (simp add: wakelock_defs ext_defs Let_def)

text \<open>
  The proviso is needed: an increment by zero from a zero count takes the kernel wake lock while the
  count stays zero; then no decrement and no time-out gives it back.
\<close>

lemma zero_increment_leaks_wakelock:
  assumes "mThreadsRun s" and "mWakelockRefCount s = 0"
  shows "let s1 = snd (incrementRefCountAndMaybeAcquireWakelock E 0 s)
    in wakelock_held (hist s1) \<and> mWakelockRefCount s1 = 0
       \<and> (\<forall>d t. wakelock_held (hist (decrementRefCountAndMaybeReleaseWakelock d t s1)))
       \<and> wakelock_held (hist (resetSharedWakelock E s1))"
  using assms by (simp add: wakelock_defs ext_defs Let_def)

end
