(* ===== verification/Sensor_Handle.thy ===== *)
theory Sensor_Handle
  imports Hal_Types
begin

text \<open>
  Sensor handles of \<open>sensors/HalProxy.cpp\<close> and \<open>sensors/HalProxyCallback.cpp\<close>: the first byte of
  a handle that leaves the proxy is the index of its sub-HAL. The model keeps the C++ conversions:
  \<open>static_cast<int32_t>(size_t)\<close> truncates (\<open>ucast\<close>), \<open>>>\<close> on \<open>int32_t\<close> is arithmetic
  (\<open>signed_drop_bit\<close>) and \<open>static_cast<size_t>(int32_t)\<close> extends the sign (\<open>scast\<close>).

  The locale \<open>subhal_codec\<close> states what the rest of the proxy needs of the encoding.
\<close>

definition kBitsAfterSubHalIndex :: nat where
  "kBitsAfterSubHalIndex = 24"

definition setSubHalIndex :: "int32 \<Rightarrow> size_t \<Rightarrow> int32" where
  "setSubHalIndex sensorHandle subHalIndex =
     sensorHandle OR push_bit kBitsAfterSubHalIndex (ucast subHalIndex)"

definition extractSubHalIndex :: "int32 \<Rightarrow> size_t" where
  "extractSubHalIndex sensorHandle = scast (signed_drop_bit kBitsAfterSubHalIndex sensorHandle)"

definition clearSubHalIndex :: "int32 \<Rightarrow> int32 \<Rightarrow> int32" where
  "clearSubHalIndex byteMask sensorHandle = sensorHandle AND NOT byteMask"

definition subHalIndexIsClear :: "int32 \<Rightarrow> int32 \<Rightarrow> bool" where
  "subHalIndexIsClear byteMask sensorHandle \<longleftrightarrow> sensorHandle AND byteMask = 0"

definition isSubHalIndexValid :: "int32 \<Rightarrow> hal_proxy \<Rightarrow> bool" where
  "isSubHalIndexValid sensorHandle s \<longleftrightarrow>
     extractSubHalIndex sensorHandle < vsize (mSubHalList s)"

text \<open>\<open>mSubHalList[extractSubHalIndex(sensorHandle)]\<close>: the position of the wrapper.\<close>

definition getSubHalForSensorHandle :: "int32 \<Rightarrow> nat" where
  "getSubHalForSensorHandle sensorHandle = unat (extractSubHalIndex sensorHandle)"

text \<open>The second copy of \<open>setSubHalIndex\<close>, in \<open>HalProxyCallback.cpp\<close>; its caller passes
  the \<open>int32_t\<close> member \<open>mSubHalIndex\<close>, which is converted to \<open>size_t\<close>.\<close>

definition callback_setSubHalIndex :: "int32 \<Rightarrow> int32 \<Rightarrow> int32" where
  "callback_setSubHalIndex sensorHandle mSubHalIndex =
     sensorHandle OR push_bit kBitsAfterSubHalIndex (ucast (scast mSubHalIndex :: size_t))"

subsection \<open>Bit-level facts\<close>

lemma len_int32_minus_1: "LENGTH(32) - Suc 0 = 31"
  by simp

lemma bit_first_byte_mask: "bit first_byte_mask n \<longleftrightarrow> 24 \<le> n \<and> n < 32"
proof -
  have "first_byte_mask = push_bit 24 (mask 8)"
    by (simp add: first_byte_mask_def mask_eq_exp_minus_1)
  then have "bit first_byte_mask n = bit (push_bit 24 (mask 8) :: int32) n" by simp
  then show ?thesis by (auto simp: bit_push_bit_iff bit_mask_iff)
qed

lemma bit_extend: "bit (scast w :: size_t) n \<longleftrightarrow> n < 64 \<and> bit w (if n < 31 then n else 31)" for w :: int32
proof -
  have "bit (scast w :: size_t) n \<longleftrightarrow> n < 64 \<and> bit w (min (LENGTH(32) - Suc 0) n)"
    by (simp only: bit_signed_iff possible_bit_word) simp
  then show ?thesis by (simp only: len_int32_minus_1) (simp add: min_def)
qed

lemma bit_int32_small: "bit (h :: int32) n \<Longrightarrow> n < 32"
  by (auto dest: bit_imp_le_length)

lemma clear_bits:
  "bit (clearSubHalIndex first_byte_mask h) n \<longleftrightarrow> bit h n \<and> n < 24"
  by (auto simp: clearSubHalIndex_def bit_and_iff bit_not_iff bit_first_byte_mask
           dest: bit_int32_small)

lemma isclear_bits:
  "subHalIndexIsClear first_byte_mask h \<longleftrightarrow> (\<forall>n. bit h n \<longrightarrow> n < 24)"
proof -
  have "subHalIndexIsClear first_byte_mask h \<longleftrightarrow> (\<forall>n. \<not> bit (h AND first_byte_mask) n)"
    by (metis subHalIndexIsClear_def bit_0_eq bit_eqI bot_apply bot_bool_def)
  also have "\<dots> \<longleftrightarrow> (\<forall>n. \<not> (bit h n \<and> 24 \<le> n \<and> n < 32))"
    by (simp add: bit_and_iff bit_first_byte_mask)
  finally show ?thesis
    by (metis bit_int32_small not_less)
qed

lemma set_bits:
  "bit (setSubHalIndex h i) n \<longleftrightarrow> bit h n \<or> 24 \<le> n \<and> n < 32 \<and> bit i (n - 24)"
  by (auto simp: setSubHalIndex_def kBitsAfterSubHalIndex_def bit_or_iff bit_push_bit_iff
                 bit_ucast_iff)

lemma extract_bits:
  "bit (extractSubHalIndex h) n \<longleftrightarrow> n < 64 \<and> bit h (if n < 8 then n + 24 else 31)"
proof -
  have *: "bit (signed_drop_bit 24 h) k \<longleftrightarrow> bit h (if 8 \<le> k \<and> k < 32 then 31 else 24 + k)" for k
    by (simp add: bit_signed_drop_bit_iff)
  show ?thesis
    by (auto simp only: extractSubHalIndex_def kBitsAfterSubHalIndex_def bit_extend *) (auto simp: add.commute split: if_splits)
qed

subsection \<open>Decoding what was encoded\<close>

lemma bit_lt_exp: "unat (i :: 'a::len word) < 2 ^ k \<Longrightarrow> bit i n \<Longrightarrow> n < k"
proof (rule ccontr)
  assume a: "unat i < 2 ^ k" "bit i n" "\<not> n < k"
  then have "take_bit k (unat i) = unat i" by (simp add: take_bit_nat_eq_self)
  moreover from a(2) have "bit (unat i) n" by (simp add: bit_unsigned_iff bit_imp_le_length)
  ultimately show False using a(3) by (metis bit_take_bit_iff)
qed

lemma sub_index_bits: "unat (i :: size_t) < 128 \<Longrightarrow> bit i n \<Longrightarrow> n < 7"
  using bit_lt_exp [of i 7] by simp

lemma extract_set:
  assumes "subHalIndexIsClear first_byte_mask h" and "unat i < 128"
  shows "extractSubHalIndex (setSubHalIndex h i) = i"
proof (rule bit_eqI)
  fix n
  from assms(1) have h: "\<not> bit h (n + 24)" "\<not> bit h 31" by (auto simp: isclear_bits)
  from sub_index_bits [OF assms(2)] have i: "bit i n \<Longrightarrow> n < 7" "\<not> bit i 7" by blast+
  show "bit (extractSubHalIndex (setSubHalIndex h i)) n \<longleftrightarrow> bit i n"
    using h i by (cases "n < 8") (auto simp: extract_bits set_bits)
qed

lemma clear_set:
  assumes "subHalIndexIsClear first_byte_mask h"
  shows "clearSubHalIndex first_byte_mask (setSubHalIndex h i) = h"
  using assms by (auto intro!: bit_eqI simp: clear_bits set_bits isclear_bits)

lemma isclear_clear: "subHalIndexIsClear first_byte_mask (clearSubHalIndex first_byte_mask h)"
  by (simp add: isclear_bits clear_bits)

lemma set_clear_extract:
  "setSubHalIndex (clearSubHalIndex first_byte_mask h) (extractSubHalIndex h) = h"
proof (rule bit_eqI)
  fix n
  show "bit (setSubHalIndex (clearSubHalIndex first_byte_mask h) (extractSubHalIndex h)) n \<longleftrightarrow> bit h n"
    by (auto simp: set_bits clear_bits extract_bits dest: bit_int32_small split: if_splits)
qed

subsection \<open>The index as a number\<close>

lemma sint_extract: "sint (extractSubHalIndex h) = sint h div 2 ^ 24"
proof -
  have "sint (scast w :: size_t) = sint w" for w :: int32
    by (rule sint_up_scast) (simp add: is_up)
  then show ?thesis
    by (simp add: extractSubHalIndex_def kBitsAfterSubHalIndex_def sint_signed_drop_bit_eq drop_bit_eq_div)
qed

lemma uint_as_sint: "uint w = (if 0 \<le> sint w then sint w else sint w + 2 ^ 64)" for w :: size_t
proof -
  have r: "- (2 ^ 63) \<le> sint w" "sint w < 2 ^ 63"
    using sint_range_size [of w] by (simp_all add: word_size)
  have "uint w = sint w mod 2 ^ 64" by (simp add: uint_sint take_bit_eq_mod)
  moreover have "sint w mod 2 ^ 64 = (sint w + 2 ^ 64) mod 2 ^ 64" by simp
  ultimately show ?thesis using r by (auto simp del: mod_add_self2 intro: mod_pos_pos_trivial)
qed

lemma unat_extract_nonneg:
  "0 \<le> sint h \<Longrightarrow> unat (extractSubHalIndex h) = nat (sint h div 2 ^ 24)"
  using uint_as_sint [of "extractSubHalIndex h"] by (simp add: sint_extract unat_eq_nat_uint pos_imp_zdiv_nonneg_iff)

lemma unat_extract_neg:
  assumes "sint h < 0" shows "2 ^ 63 \<le> unat (extractSubHalIndex h)"
proof -
  have "- (2 ^ 31) \<le> sint h" using sint_range_size [of h] by (simp add: word_size)
  then have "- 128 \<le> sint h div 2 ^ 24" by simp
  moreover have "sint h div 2 ^ 24 < 0" using assms by (simp add: div_neg_pos_less0)
  ultimately have "2 ^ 63 \<le> uint (extractSubHalIndex h)"
    using uint_as_sint [of "extractSubHalIndex h"] by (simp add: sint_extract)
  then have "nat (2 ^ 63) \<le> nat (uint (extractSubHalIndex h))" by (rule nat_mono)
  then show ?thesis by (simp add: nat_power_eq)
qed

lemma isSubHalIndexValid_iff:
  assumes "vector_ok (mSubHalList s)"
  shows "isSubHalIndexValid h s \<longleftrightarrow>
    0 \<le> sint h \<and> nat (sint h div 2 ^ 24) < length (mSubHalList s)"
proof -
  have "isSubHalIndexValid h s \<longleftrightarrow> unat (extractSubHalIndex h) < length (mSubHalList s)"
    by (simp add: isSubHalIndexValid_def word_less_nat_alt unat_vsize assms)
  then show ?thesis
    using assms unat_extract_nonneg [of h] unat_extract_neg [of h]
    by (cases "0 \<le> sint h") (auto simp: vector_ok_def)
qed

lemma valid_sub_index:
  "vector_ok (mSubHalList s) \<Longrightarrow> isSubHalIndexValid h s \<Longrightarrow>
     getSubHalForSensorHandle h < length (mSubHalList s)"
  by (simp add: isSubHalIndexValid_def getSubHalForSensorHandle_def word_less_nat_alt unat_vsize)

lemma callback_setSubHalIndex_eq: "callback_setSubHalIndex h (ucast i) = setSubHalIndex h i"
proof -
  have "(ucast (scast (ucast i :: int32) :: size_t) :: int32) = ucast i" for i :: size_t
  proof (rule bit_eqI)
    fix n
    show "bit (ucast (scast (ucast i :: int32) :: size_t) :: int32) n \<longleftrightarrow> bit (ucast i :: int32) n"
      by (cases "n = 31") (auto simp: bit_ucast_iff bit_extend)
  qed
  then show ?thesis by (simp add: callback_setSubHalIndex_def setSubHalIndex_def)
qed

subsection \<open>The interface\<close>

locale subhal_codec =
  fixes put_index :: "'h \<Rightarrow> 'i \<Rightarrow> 'h"
    and get_index :: "'h \<Rightarrow> 'i"
    and strip :: "'h \<Rightarrow> 'h"
    and bare :: "'h \<Rightarrow> bool"
    and usable :: "'i \<Rightarrow> bool"
  assumes get_put: "bare h \<Longrightarrow> usable i \<Longrightarrow> get_index (put_index h i) = i"
    and strip_put: "bare h \<Longrightarrow> strip (put_index h i) = h"
    and bare_strip: "bare (strip h)"
    and put_strip: "put_index (strip h) (get_index h) = h"
begin

lemma put_inject:
  assumes "bare h" "bare h'" "usable i" "usable i'" "put_index h i = put_index h' i'"
  shows "h = h' \<and> i = i'"
  using assms by (metis get_put strip_put)

lemma put_inj_on_bare: "inj_on (\<lambda>h. put_index h i) {h. bare h}"
  by (rule inj_onI) (metis mem_Collect_eq strip_put)

lemma decode_unique:
  "bare b \<Longrightarrow> usable i \<Longrightarrow> put_index b i = h \<longleftrightarrow> b = strip h \<and> i = get_index h"
  if "usable (get_index h)"
  using that by (metis bare_strip put_inject put_strip)

lemma distinct_put:
  "distinct hs \<Longrightarrow> (\<And>h. h \<in> set hs \<Longrightarrow> bare h) \<Longrightarrow> distinct (map (\<lambda>h. put_index h i) hs)"
  by (auto simp: distinct_map intro: inj_on_subset [OF put_inj_on_bare])

end

text \<open>Only indices below 128 survive: \<open>128\<close> and above set the sign bit of the handle.\<close>

interpretation codec: subhal_codec setSubHalIndex extractSubHalIndex
  "clearSubHalIndex first_byte_mask" "subHalIndexIsClear first_byte_mask" "\<lambda>i. unat i < 128"
  by unfold_locales
     (simp_all add: extract_set clear_set isclear_clear set_clear_extract)

subsection \<open>Properties\<close>

text \<open>
  C18: the handle a sub-HAL gave (first byte zero) and the sub-HAL's index, below 128, are both
  recovered from the handle the proxy hands to the framework; two sensors never share a handle.
\<close>

theorem handle_roundtrip:
  assumes "subHalIndexIsClear first_byte_mask h" and "unat i < 128"
  shows "extractSubHalIndex (setSubHalIndex h i) = i
    \<and> clearSubHalIndex first_byte_mask (setSubHalIndex h i) = h
    \<and> (\<forall>h' i'. subHalIndexIsClear first_byte_mask h' \<and> unat i' < 128
         \<and> setSubHalIndex h' i' = setSubHalIndex h i \<longrightarrow> h' = h \<and> i' = i)"
  using assms codec.get_put codec.strip_put codec.put_inject by blast

theorem handle_roundtrip_witness:
  "extractSubHalIndex (setSubHalIndex 7 3) = 3
    \<and> clearSubHalIndex first_byte_mask (setSubHalIndex 7 3) = 7"
proof -
  have "subHalIndexIsClear first_byte_mask 7"
    by (simp add: subHalIndexIsClear_def first_byte_mask_def)
  moreover have "unat (3 :: size_t) < 128" by simp
  ultimately show ?thesis using handle_roundtrip [of 7 3] by blast
qed

text \<open>
  Every 32-bit handle, negative ones included, is the join of its own first byte and its
  own remaining bits: clearing and extracting lose nothing.
\<close>

lemma handle_split_join:
  "setSubHalIndex (clearSubHalIndex first_byte_mask h) (extractSubHalIndex h) = h
    \<and> subHalIndexIsClear first_byte_mask (clearSubHalIndex first_byte_mask h)
    \<and> clearSubHalIndex first_byte_mask (clearSubHalIndex first_byte_mask h)
        = clearSubHalIndex first_byte_mask h"
  by (simp add: codec.put_strip codec.bare_strip)
     (rule bit_eqI, simp add: clear_bits)

text \<open>
  \<open>isSubHalIndexValid\<close> accepts exactly the non-negative handles whose first byte is below the
  number of sub-HALs; the sign extension in \<open>extractSubHalIndex\<close> makes every negative handle (the
  framework's \<open>-1\<close> included) invalid, so the vector access that follows is in bounds.
\<close>

lemma valid_handle_in_bounds:
  assumes "vector_ok (mSubHalList s)"
  shows "(isSubHalIndexValid h s \<longleftrightarrow>
            0 \<le> sint h \<and> sint h div 2 ^ 24 < int (length (mSubHalList s)))
    \<and> (isSubHalIndexValid h s \<longrightarrow> getSubHalForSensorHandle h < length (mSubHalList s))
    \<and> \<not> isSubHalIndexValid (-1) s"
  using assms valid_sub_index [of s h]
  by (auto simp: isSubHalIndexValid_iff nat_less_iff)

text \<open>
  The limit of the encoding: a sub-HAL at position 128 to 255 gives its sensors handles with
  the sign bit set, which every later request on the sensor rejects as invalid.
\<close>

lemma subhal_128_unreachable:
  assumes "128 \<le> unat i" and "unat i < 256" and "vector_ok (mSubHalList s)"
  shows "\<not> isSubHalIndexValid (setSubHalIndex h i) s"
proof -
  have "bit i 7"
  proof (rule ccontr)
    assume "\<not> bit i 7"
    then have "bit i n \<Longrightarrow> n < 7" for n
      using bit_lt_exp [of i 8 n] assms(2) by (cases "n = 7") auto
    then have "take_bit 7 i = i" by (auto intro!: bit_eqI simp: bit_take_bit_iff)
    then have "unat i < 2 ^ 7" by (metis take_bit_nat_less_exp unsigned_take_bit_eq)
    with assms(1) show False by simp
  qed
  then have "sint (setSubHalIndex h i) < 0"
    using set_bits [of h i 31] bit_last_iff [of "setSubHalIndex h i"]
    by (simp only: len_int32_minus_1) simp
  with assms(3) show ?thesis by (simp add: isSubHalIndexValid_iff)
qed

end
