(* ===== verification/Sub_Hal_Ops.thy ===== *)
theory Sub_Hal_Ops
  imports Sensor_Handle
begin

text \<open>
  The requests of the framework that \<open>HalProxy\<close> hands to one sub-HAL or to all of them:
  \<open>setOperationMode\<close>, \<open>activate\<close>, \<open>batch\<close>, \<open>flush\<close>, \<open>injectSensorData\<close> and the direct channel
  requests of \<open>sensors/HalProxy.cpp\<close>. The results of the sub-HALs come from the environment; what
  is proved is which sub-HAL is asked what, in which order, and what the proxy makes of the answer.
\<close>

subsection \<open>Operation mode\<close>

text \<open>The first loop of \<open>setOperationMode\<close>: it stops at the first sub-HAL that does not answer
  \<open>OK\<close> and leaves its index in \<open>subHalIndex\<close>.\<close>

function setOperationMode_forward ::
  "hal_env \<Rightarrow> OperationMode \<Rightarrow> nat \<Rightarrow> nat \<Rightarrow> hal_proxy \<Rightarrow> Result \<times> nat \<times> hal_proxy" where
  "setOperationMode_forward E mode subHalIndex n s =
     (if subHalIndex < n then
        let (result, s1) = call_result E (SubSetOperationMode subHalIndex mode) s
        in if result \<noteq> OK then (result, subHalIndex, s1)
           else setOperationMode_forward E mode (Suc subHalIndex) n s1
      else (OK, subHalIndex, s))"
  by pat_completeness auto
termination
  by (relation "measure (\<lambda>(E, mode, i, n, s). n - i)") auto

text \<open>The second loop: the sub-HALs already flipped are set back.\<close>

function setOperationMode_rollback ::
  "hal_env \<Rightarrow> nat \<Rightarrow> nat \<Rightarrow> hal_proxy \<Rightarrow> hal_proxy" where
  "setOperationMode_rollback E i subHalIndex s =
     (if i < subHalIndex then
        setOperationMode_rollback E (Suc i) subHalIndex
          (snd (call_result E (SubSetOperationMode i (mCurrentOperationMode s)) s))
      else s)"
  by pat_completeness auto
termination
  by (relation "measure (\<lambda>(E, i, k, s). k - i)") auto

declare setOperationMode_forward.simps [simp del] setOperationMode_rollback.simps [simp del]

definition setOperationMode ::
  "hal_env \<Rightarrow> OperationMode \<Rightarrow> hal_proxy \<Rightarrow> Result \<times> hal_proxy" where
  "setOperationMode E mode s =
     (let (result, subHalIndex, s1) =
            setOperationMode_forward E mode 0 (length (mSubHalList s)) s
      in if result \<noteq> OK then (result, setOperationMode_rollback E 0 subHalIndex s1)
         else (result, s1\<lparr>mCurrentOperationMode := mode\<rparr>))"

subsection \<open>Requests on one sensor\<close>

definition activate :: "hal_env \<Rightarrow> int32 \<Rightarrow> bool \<Rightarrow> hal_proxy \<Rightarrow> Result \<times> hal_proxy" where
  "activate E sensorHandle enabled s =
     (if \<not> isSubHalIndexValid sensorHandle s then (BAD_VALUE, s)
      else call_result E
        (SubActivate (getSubHalForSensorHandle sensorHandle)
           (clearSubHalIndex (kSensorHandleSubHalIndexMask E) sensorHandle) enabled) s)"

definition batch :: "hal_env \<Rightarrow> int32 \<Rightarrow> int \<Rightarrow> int \<Rightarrow> hal_proxy \<Rightarrow> Result \<times> hal_proxy" where
  "batch E sensorHandle samplingPeriodNs maxReportLatencyNs s =
     (if \<not> isSubHalIndexValid sensorHandle s then (BAD_VALUE, s)
      else call_result E
        (SubBatch (getSubHalForSensorHandle sensorHandle)
           (clearSubHalIndex (kSensorHandleSubHalIndexMask E) sensorHandle)
           samplingPeriodNs maxReportLatencyNs) s)"

definition flush :: "hal_env \<Rightarrow> int32 \<Rightarrow> hal_proxy \<Rightarrow> Result \<times> hal_proxy" where
  "flush E sensorHandle s =
     (if \<not> isSubHalIndexValid sensorHandle s then (BAD_VALUE, s)
      else call_result E
        (SubFlush (getSubHalForSensorHandle sensorHandle)
           (clearSubHalIndex (kSensorHandleSubHalIndexMask E) sensorHandle)) s)"

definition injectSensorData :: "hal_env \<Rightarrow> Event \<Rightarrow> hal_proxy \<Rightarrow> Result \<times> hal_proxy" where
  "injectSensorData E event s =
     (let result = (if mCurrentOperationMode s = NORMAL \<and> ev_sensorType event \<noteq> ADDITIONAL_INFO
                    then BAD_VALUE else OK)
      in if result = OK then
           if \<not> isSubHalIndexValid (ev_sensorHandle event) s then (BAD_VALUE, s)
           else
             let subHalEvent = event\<lparr>ev_sensorHandle :=
                   clearSubHalIndex (kSensorHandleSubHalIndexMask E) (ev_sensorHandle event)\<rparr>
             in call_result E
                  (SubInjectSensorData (getSubHalForSensorHandle (ev_sensorHandle event))
                     (convertToNewEvent E subHalEvent)) s
         else (result, s))"

definition injectSensorData_2_1 :: "hal_env \<Rightarrow> Event \<Rightarrow> hal_proxy \<Rightarrow> Result \<times> hal_proxy" where
  "injectSensorData_2_1 E event s = injectSensorData E (convertToOldEvent E event) s"

subsection \<open>Direct channels\<close>

text \<open>The pair is what \<open>_hidl_cb\<close> is called with, by the proxy or by the sub-HAL.\<close>

definition registerDirectChannel ::
  "hal_env \<Rightarrow> int \<Rightarrow> hal_proxy \<Rightarrow> (Result \<times> int) \<times> hal_proxy" where
  "registerDirectChannel E mem s =
     (case mDirectChannelSubHal s of
        None \<Rightarrow> ((INVALID_OPERATION, -1), s)
      | Some subHal \<Rightarrow> call_channel E (SubRegisterDirectChannel subHal mem) s)"

definition unregisterDirectChannel ::
  "hal_env \<Rightarrow> int32 \<Rightarrow> hal_proxy \<Rightarrow> Result \<times> hal_proxy" where
  "unregisterDirectChannel E channelHandle s =
     (case mDirectChannelSubHal s of
        None \<Rightarrow> (INVALID_OPERATION, s)
      | Some subHal \<Rightarrow> call_result E (SubUnregisterDirectChannel subHal channelHandle) s)"

definition configDirectReport ::
  "hal_env \<Rightarrow> int32 \<Rightarrow> int32 \<Rightarrow> RateLevel \<Rightarrow> hal_proxy \<Rightarrow> (Result \<times> int) \<times> hal_proxy" where
  "configDirectReport E sensorHandle channelHandle rate s =
     (case mDirectChannelSubHal s of
        None \<Rightarrow> ((INVALID_OPERATION, -1), s)
      | Some subHal \<Rightarrow>
          if sensorHandle = -1 \<and> rate \<noteq> STOP then ((BAD_VALUE, -1), s)
          else
            let sensorHandle' =
                  (if sensorHandle \<noteq> -1
                   then clearSubHalIndex (kSensorHandleSubHalIndexMask E) sensorHandle
                   else sensorHandle)
            in call_channel E (SubConfigDirectReport subHal sensorHandle' channelHandle rate) s)"

subsection \<open>The loops of \<open>setOperationMode\<close>\<close>

definition mode_calls :: "OperationMode \<Rightarrow> nat list \<Rightarrow> history" where
  "mode_calls mode is = map (\<lambda>i. (SubSetOperationMode i mode, AResult OK)) is"

lemma forward_trace:
  assumes "setOperationMode_forward E mode i n s = (r, k, s1)" and "i \<le> n"
  shows "i \<le> k \<and> k \<le> n \<and> (r = OK \<longleftrightarrow> k = n) \<and>
    s1 = s\<lparr>hist := hist s @ mode_calls mode [i..<k]
            @ (if r = OK then [] else [(SubSetOperationMode k mode, AResult r)])\<rparr>"
  using assms
proof (induction E mode i n s arbitrary: r k s1 rule: setOperationMode_forward.induct)
  case (1 E mode i n s)
  let ?r = "ansResult E (hist s) (SubSetOperationMode i mode)"
  let ?s = "s\<lparr>hist := hist s @ [(SubSetOperationMode i mode, AResult ?r)]\<rparr>"
  have call: "call_result E (SubSetOperationMode i mode) s = (?r, ?s)"
    by (simp add: ext_defs Let_def)
  show ?case
  proof (cases "i < n \<and> ?r = OK")
    case True
    with "1.prems" have "setOperationMode_forward E mode (Suc i) n ?s = (r, k, s1)"
      by (subst (asm) setOperationMode_forward.simps) (simp add: call)
    with "1.IH" [of "(?r, ?s)" ?r ?s] True
    have IH: "Suc i \<le> k \<and> k \<le> n \<and> (r = OK \<longleftrightarrow> k = n) \<and>
      s1 = ?s\<lparr>hist := hist ?s @ mode_calls mode [Suc i..<k]
            @ (if r = OK then [] else [(SubSetOperationMode k mode, AResult r)])\<rparr>"
      by (simp add: call)
    then have "[i..<k] = i # [Suc i..<k]" by (simp add: upt_conv_Cons)
    with IH True show ?thesis by (simp add: mode_calls_def)
  next
    case False
    with "1.prems" show ?thesis
      by (subst (asm) setOperationMode_forward.simps)
         (auto simp: call mode_calls_def split: if_splits)
  qed
qed

lemma rollback_trace:
  "\<exists>rs. length rs = k - i \<and> setOperationMode_rollback E i k s = s\<lparr>hist := hist s @
     map2 (\<lambda>j r. (SubSetOperationMode j (mCurrentOperationMode s), AResult r)) [i..<k] rs\<rparr>"
proof (induction E i k s rule: setOperationMode_rollback.induct)
  case (1 E i k s)
  let ?r = "ansResult E (hist s) (SubSetOperationMode i (mCurrentOperationMode s))"
  let ?s = "s\<lparr>hist := hist s @ [(SubSetOperationMode i (mCurrentOperationMode s), AResult ?r)]\<rparr>"
  have call: "snd (call_result E (SubSetOperationMode i (mCurrentOperationMode s)) s) = ?s"
    by (simp add: ext_defs Let_def)
  show ?case
  proof (cases "i < k")
    case True
    from "1.IH" [OF True] obtain rs where rs: "length rs = k - Suc i"
      "setOperationMode_rollback E (Suc i) k ?s = ?s\<lparr>hist := hist ?s @
         map2 (\<lambda>j r. (SubSetOperationMode j (mCurrentOperationMode s), AResult r)) [Suc i..<k] rs\<rparr>"
      by (auto simp: call)
    have "[i..<k] = i # [Suc i..<k]" using True by (simp add: upt_conv_Cons)
    with rs True show ?thesis
      by (subst setOperationMode_rollback.simps) (simp add: call exI [of _ "?r # rs"])
  next
    case False
    then show ?thesis by (subst setOperationMode_rollback.simps) simp
  qed
qed

text \<open>The mode a sub-HAL is in after a history: the last one it acknowledged.\<close>

fun mode_after :: "nat \<Rightarrow> OperationMode \<Rightarrow> history \<Rightarrow> OperationMode" where
  "mode_after i m [] = m"
| "mode_after i m ((SubSetOperationMode j m', AResult OK) # h) =
     mode_after i (if j = i then m' else m) h"
| "mode_after i m (_ # h) = mode_after i m h"

lemma mode_after_append: "mode_after i m (h @ h') = mode_after i (mode_after i m h) h'"
  by (induction i m h rule: mode_after.induct) simp_all

lemma mode_after_calls:
  "mode_after i m (mode_calls m' js) = (if i \<in> set js then m' else m)"
  by (induction js arbitrary: m) (auto simp: mode_calls_def)

lemma mode_after_refused:
  "r \<noteq> OK \<Longrightarrow> mode_after i m ((SubSetOperationMode j m', AResult r) # h) = mode_after i m h"
  by (cases r) simp_all

text \<open>Every sub-HAL is in the mode the proxy believes to be current.\<close>

definition modes_agree :: "OperationMode \<Rightarrow> hal_proxy \<Rightarrow> bool" where
  "modes_agree m0 s \<longleftrightarrow>
     (\<forall>i < length (mSubHalList s). mode_after i m0 (hist s) = mCurrentOperationMode s)"

lemma rollback_all_ok:
  assumes "\<And>h j. ansResult E h (SubSetOperationMode j (mCurrentOperationMode s)) = OK"
  shows "setOperationMode_rollback E i k s =
    s\<lparr>hist := hist s @ mode_calls (mCurrentOperationMode s) [i..<k]\<rparr>"
  using assms
proof (induction E i k s rule: setOperationMode_rollback.induct)
  case (1 E i k s)
  let ?c = "SubSetOperationMode i (mCurrentOperationMode s)"
  have call: "snd (call_result E ?c s) = s\<lparr>hist := hist s @ [(?c, AResult OK)]\<rparr>"
    using "1.prems" by (simp add: ext_defs Let_def)
  show ?case
  proof (cases "i < k")
    case True
    then have "[i..<k] = i # [Suc i..<k]" by (simp add: upt_conv_Cons)
    with True "1.IH" "1.prems" show ?thesis
      by (subst setOperationMode_rollback.simps) (simp add: call mode_calls_def)
  next
    case False
    then show ?thesis by (subst setOperationMode_rollback.simps) (simp add: mode_calls_def)
  qed
qed

subsection \<open>Properties\<close>

text \<open>
  C16: \<open>setOperationMode\<close> asks the sub-HALs in order and stops at the first refusal. On success
  every sub-HAL acknowledged the new mode and it becomes current. On a refusal by sub-HAL \<open>k\<close> the
  answer is its error, the current mode stays, and exactly the sub-HALs before \<open>k\<close> are asked,
  in order, to go back to it.
\<close>

theorem setOperationMode_all_or_rollback:
  "case setOperationMode E mode s of (r, s') \<Rightarrow>
     if r = OK then
       s' = s\<lparr>mCurrentOperationMode := mode,
              hist := hist s @ mode_calls mode [0..<length (mSubHalList s)]\<rparr>
     else
       \<exists>k < length (mSubHalList s). s' = s\<lparr>hist := hist s'\<rparr>
         \<and> (\<exists>rs. length rs = k \<and>
             hist s' = hist s @ mode_calls mode [0..<k] @ [(SubSetOperationMode k mode, AResult r)]
               @ map2 (\<lambda>j r. (SubSetOperationMode j (mCurrentOperationMode s), AResult r)) [0..<k] rs)"
proof -
  obtain r k s1 where fw:
    "setOperationMode_forward E mode 0 (length (mSubHalList s)) s = (r, k, s1)"
    by (metis prod_cases3)
  note t = forward_trace [OF fw]
  show ?thesis
  proof (cases "r = OK")
    case True
    with t show ?thesis by (simp add: setOperationMode_def fw)
  next
    case False
    from rollback_trace [of k 0 E s1] obtain rs where "length rs = k"
      "setOperationMode_rollback E 0 k s1 = s1\<lparr>hist := hist s1 @
         map2 (\<lambda>j r. (SubSetOperationMode j (mCurrentOperationMode s1), AResult r)) [0..<k] rs\<rparr>"
      by auto
    moreover have "setOperationMode E mode s = (r, setOperationMode_rollback E 0 k s1)"
      using False by (simp add: setOperationMode_def fw)
    ultimately show ?thesis using t False by (auto intro!: exI [of _ k] exI [of _ rs])
  qed
qed

text \<open>
  If every sub-HAL is in the current mode and accepts being put back into it, then after
  \<open>setOperationMode\<close>, whether it succeeded or failed half-way, every sub-HAL is again in the mode
  the proxy calls current; on failure that is the old one.
\<close>

lemma setOperationMode_keeps_modes_agree:
  assumes "modes_agree m0 s"
    and accept: "\<And>h j. ansResult E h (SubSetOperationMode j (mCurrentOperationMode s)) = OK"
  shows "modes_agree m0 (snd (setOperationMode E mode s))
    \<and> (fst (setOperationMode E mode s) \<noteq> OK \<longrightarrow>
         mCurrentOperationMode (snd (setOperationMode E mode s)) = mCurrentOperationMode s)"
proof -
  obtain r k s1 where fw:
    "setOperationMode_forward E mode 0 (length (mSubHalList s)) s = (r, k, s1)"
    by (metis prod_cases3)
  note t = forward_trace [OF fw]
  have undo: "setOperationMode_rollback E 0 k s1 =
      s1\<lparr>hist := hist s1 @ mode_calls (mCurrentOperationMode s) [0..<k]\<rparr>"
    using rollback_all_ok [of E s1 0 k] accept t by simp
  show ?thesis
  proof (cases "r = OK")
    case True
    with t assms(1) show ?thesis
      by (simp add: setOperationMode_def fw modes_agree_def mode_after_append mode_after_calls)
  next
    case False
    with t assms(1) undo show ?thesis
      by (auto simp: setOperationMode_def fw modes_agree_def mode_after_append mode_after_calls
          mode_after_refused)
  qed
qed

definition two_subhals :: hal_proxy where
  "two_subhals = empty_proxy\<lparr>mSubHalList := [SubHalWrapperV2_0 0, SubHalWrapperV2_1 1]\<rparr>"

definition refusing_env :: hal_env where
  "refusing_env = quiet_env\<lparr>ansResult := (\<lambda>_ c.
     if c = SubSetOperationMode 1 DATA_INJECTION then OtherResult 5 else OK)\<rparr>"

lemma owner_of_registered_handle:
  assumes "subHalIndexIsClear first_byte_mask h" and "i < 128"
    and "vector_ok (mSubHalList s)" and "i < length (mSubHalList s)"
  shows "isSubHalIndexValid (setSubHalIndex h (of_nat i)) s"
    "getSubHalForSensorHandle (setSubHalIndex h (of_nat i)) = i"
    "clearSubHalIndex first_byte_mask (setSubHalIndex h (of_nat i)) = h"
proof -
  have i: "unat (of_nat i :: size_t) = i"
    using assms(2) by (simp add: unat_of_nat_size_t)
  with assms have e: "extractSubHalIndex (setSubHalIndex h (of_nat i)) = of_nat i"
    by (simp add: codec.get_put)
  then show "isSubHalIndexValid (setSubHalIndex h (of_nat i)) s"
    "getSubHalForSensorHandle (setSubHalIndex h (of_nat i)) = i"
    using i assms(3,4)
    by (simp_all add: isSubHalIndexValid_def getSubHalForSensorHandle_def word_less_nat_alt unat_vsize)
  show "clearSubHalIndex first_byte_mask (setSubHalIndex h (of_nat i)) = h"
    using assms(1) by (rule codec.strip_put)
qed

text \<open>
  A request on the handle under which sub-HAL \<open>i\<close>'s sensor \<open>h\<close> is published is exactly one
  call of sub-HAL \<open>i\<close>, with the handle \<open>h\<close> that sub-HAL knows, and its answer is returned.
\<close>

lemma requests_reach_owner:
  assumes "mask_documented E" and "subHalIndexIsClear first_byte_mask h" and "i < 128"
    and "vector_ok (mSubHalList s)" and "i < length (mSubHalList s)"
  shows "activate E (setSubHalIndex h (of_nat i)) en s = call_result E (SubActivate i h en) s
    \<and> batch E (setSubHalIndex h (of_nat i)) period latency s
        = call_result E (SubBatch i h period latency) s
    \<and> flush E (setSubHalIndex h (of_nat i)) s = call_result E (SubFlush i h) s"
  using assms owner_of_registered_handle [OF assms(2-5)]
  by (simp add: activate_def batch_def flush_def mask_documented_def)

text \<open>
  \<open>injectSensorData\<close> asks a sub-HAL only for a valid handle and, in normal mode, only for
  additional-info events; the sub-HAL then gets the event with its own handle. Otherwise it
  answers \<open>BAD_VALUE\<close> and nothing happens.
\<close>

lemma injectSensorData_gated:
  "injectSensorData E event s =
     (if (mCurrentOperationMode s = DATA_INJECTION \<or> ev_sensorType event = ADDITIONAL_INFO)
         \<and> isSubHalIndexValid (ev_sensorHandle event) s
      then call_result E
        (SubInjectSensorData (getSubHalForSensorHandle (ev_sensorHandle event))
          (convertToNewEvent E (event\<lparr>ev_sensorHandle :=
             clearSubHalIndex (kSensorHandleSubHalIndexMask E) (ev_sensorHandle event)\<rparr>))) s
      else (BAD_VALUE, s))"
  by (cases "mCurrentOperationMode s") (simp_all add: injectSensorData_def Let_def)

text \<open>
  C28: a request on a non-negative handle whose first byte is below the number of sub-HALs is one call
  of the sub-HAL at that position, on the handle with the byte cleared, and its answer is returned; an
  event is injected there only in data injection mode or when it is additional info. Every other
  request answers \<open>BAD_VALUE\<close>, calls no sub-HAL and changes nothing.
\<close>

theorem requests_by_handle:
  assumes "vector_ok (mSubHalList s)" and "ev_sensorHandle event = h"
    and "h' = clearSubHalIndex (kSensorHandleSubHalIndexMask E) h" and "i = nat (sint h div 2 ^ 24)"
  shows "(if 0 \<le> sint h \<and> i < length (mSubHalList s) then
        activate E h en s = call_result E (SubActivate i h' en) s
        \<and> batch E h period latency s = call_result E (SubBatch i h' period latency) s
        \<and> flush E h s = call_result E (SubFlush i h') s
        \<and> injectSensorData E event s =
            (if mCurrentOperationMode s = DATA_INJECTION \<or> ev_sensorType event = ADDITIONAL_INFO
             then call_result E (SubInjectSensorData i (convertToNewEvent E (event\<lparr>ev_sensorHandle := h'\<rparr>))) s
             else (BAD_VALUE, s))
      else activate E h en s = (BAD_VALUE, s) \<and> batch E h period latency s = (BAD_VALUE, s)
        \<and> flush E h s = (BAD_VALUE, s) \<and> injectSensorData E event s = (BAD_VALUE, s))"
proof (cases "isSubHalIndexValid h s")
  case True
  then have "0 \<le> sint h \<and> i < length (mSubHalList s)" "getSubHalForSensorHandle h = i"
    using isSubHalIndexValid_iff [OF assms(1)] unat_extract_nonneg [of h]
    by (simp_all add: getSubHalForSensorHandle_def assms(4))
  with True show ?thesis
    by (simp add: activate_def batch_def flush_def injectSensorData_gated assms(2,3))
next
  case False
  then have invalid: "\<not> (0 \<le> sint h \<and> i < length (mSubHalList s))"
    using isSubHalIndexValid_iff [OF assms(1)] by (simp add: assms(4))
  show ?thesis
    unfolding if_not_P [OF invalid]
    using False by (simp add: activate_def batch_def flush_def injectSensorData_gated assms(2))
qed

theorem requests_by_handle_witness:
  "flush quiet_env (-1) two_subhals = (BAD_VALUE, two_subhals)
   \<and> flush quiet_env 0x01000004 two_subhals = call_result quiet_env (SubFlush 1 4) two_subhals"
proof -
  have "vector_ok (mSubHalList two_subhals)" by (simp add: vector_ok_def two_subhals_def)
  note applied = requests_by_handle [where E = quiet_env, OF this _ refl refl]
  show ?thesis
    using applied [of "\<lparr>ev_sensorHandle = -1, ev_sensorType = LIGHT, ev_dynamicHandle = 0, ev_rest = []\<rparr>" "-1"]
      applied [of "\<lparr>ev_sensorHandle = 0x01000004, ev_sensorType = LIGHT, ev_dynamicHandle = 0, ev_rest = []\<rparr>" "0x01000004"]
    by (simp add: two_subhals_def quiet_env_def clearSubHalIndex_def first_byte_mask_def)
qed

text \<open>
  Direct channel requests go to the one sub-HAL chosen for direct channels and to no other;
  without one they answer \<open>INVALID_OPERATION\<close>. A report for all sensors (handle \<open>-1\<close>) may only be
  stopped; for one sensor the sub-HAL gets the handle with its first byte cleared.
\<close>

lemma direct_channel_requests:
  "(mDirectChannelSubHal s = None \<longrightarrow>
      registerDirectChannel E mem s = ((INVALID_OPERATION, -1), s)
      \<and> unregisterDirectChannel E ch s = (INVALID_OPERATION, s)
      \<and> configDirectReport E h ch rate s = ((INVALID_OPERATION, -1), s))
   \<and> (\<forall>d. mDirectChannelSubHal s = Some d \<longrightarrow>
      registerDirectChannel E mem s = call_channel E (SubRegisterDirectChannel d mem) s
      \<and> unregisterDirectChannel E ch s = call_result E (SubUnregisterDirectChannel d ch) s
      \<and> (rate \<noteq> STOP \<longrightarrow> configDirectReport E (-1) ch rate s = ((BAD_VALUE, -1), s))
      \<and> configDirectReport E (-1) ch STOP s
          = call_channel E (SubConfigDirectReport d (-1) ch STOP) s
      \<and> (h \<noteq> -1 \<longrightarrow> configDirectReport E h ch rate s = call_channel E
            (SubConfigDirectReport d (clearSubHalIndex (kSensorHandleSubHalIndexMask E) h) ch rate) s))"
  by (simp add: registerDirectChannel_def unregisterDirectChannel_def configDirectReport_def)

end
