(* ===== verification/Sensor_List.thy ===== *)
theory Sensor_List
  imports Sub_Hal_Ops
begin

text \<open>
  The sensor tables of \<open>sensors/HalProxy.cpp\<close>: how \<open>init\<close> collects the sensors of all sub-HALs into
  \<open>mSensors\<close>, which sub-HAL may keep its direct channel flags, and what
  \<open>getSensorsList\<close> and \<open>getSensorsList_2_1\<close> publish.
\<close>

subsection \<open>Collecting the sensors\<close>

definition direct_mask :: "hal_env \<Rightarrow> uint32" where
  "direct_mask E = MASK_DIRECT_REPORT E OR MASK_DIRECT_CHANNEL E"

definition setDirectChannelFlags ::
  "hal_env \<Rightarrow> SensorInfo \<Rightarrow> nat \<Rightarrow> hal_proxy \<Rightarrow> SensorInfo \<times> hal_proxy" where
  "setDirectChannelFlags E sensorInfo subHal s =
     (let sensorSupportsDirectChannel = (si_flags sensorInfo AND direct_mask E \<noteq> 0)
      in if mDirectChannelSubHal s = None \<and> sensorSupportsDirectChannel
         then (sensorInfo, s\<lparr>mDirectChannelSubHal := Some subHal\<rparr>)
         else if mDirectChannelSubHal s \<noteq> None \<and> mDirectChannelSubHal s \<noteq> Some subHal
         then (sensorInfo\<lparr>si_flags := si_flags sensorInfo AND NOT (direct_mask E)\<rparr>, s)
         else (sensorInfo, s))"

text \<open>The body of the callback that \<open>initializeSensorList\<close> gives to \<open>getSensorsList\<close>.\<close>

definition addSensor :: "hal_env \<Rightarrow> nat \<Rightarrow> SensorInfo \<Rightarrow> hal_proxy \<Rightarrow> hal_proxy" where
  "addSensor E subHalIndex sensor s =
     (if \<not> subHalIndexIsClear (kSensorHandleSubHalIndexMask E) (si_sensorHandle sensor) then s
      else
        let sensor1 = sensor\<lparr>si_sensorHandle :=
              setSubHalIndex (si_sensorHandle sensor) (of_nat subHalIndex)\<rparr>;
            (sensor2, s1) = setDirectChannelFlags E sensor1 subHalIndex s;
            sensor3 = (if si_typeAsString sensor2 = ''android.sensor.wise_light''
                       then sensor2\<lparr>si_type := LIGHT, si_typeAsString := ''''\<rparr> else sensor2)
        in s1\<lparr>mSensors := map_put (si_sensorHandle sensor3) sensor3 (mSensors s1)\<rparr>)"

function initializeSensorList_from :: "hal_env \<Rightarrow> nat \<Rightarrow> nat \<Rightarrow> hal_proxy \<Rightarrow> hal_proxy" where
  "initializeSensorList_from E subHalIndex n s =
     (if subHalIndex < n then
        let ((list, isOk), s1) = call_sensors E (SubGetSensorsList subHalIndex) s
        in initializeSensorList_from E (Suc subHalIndex) n (fold (addSensor E subHalIndex) list s1)
      else s)"
  by pat_completeness auto
termination
  by (relation "measure (\<lambda>(E, i, n, s). n - i)") auto

declare initializeSensorList_from.simps [simp del]

definition initializeSensorList :: "hal_env \<Rightarrow> hal_proxy \<Rightarrow> hal_proxy" where
  "initializeSensorList E s = initializeSensorList_from E 0 (length (mSubHalList s)) s"

definition hal_init :: "hal_env \<Rightarrow> hal_proxy \<Rightarrow> hal_proxy" where
  "hal_init E s = initializeSensorList E s"

text \<open>The constructors that are given the sub-HALs; \<open>s0\<close> holds the members' initial values.\<close>

definition HalProxy_from_2_0 :: "hal_env \<Rightarrow> nat list \<Rightarrow> hal_proxy \<Rightarrow> hal_proxy" where
  "HalProxy_from_2_0 E subHalList s0 =
     hal_init E (s0\<lparr>mSubHalList := mSubHalList s0 @ map SubHalWrapperV2_0 subHalList\<rparr>)"

definition HalProxy_from_2_0_and_2_1 ::
  "hal_env \<Rightarrow> nat list \<Rightarrow> nat list \<Rightarrow> hal_proxy \<Rightarrow> hal_proxy" where
  "HalProxy_from_2_0_and_2_1 E subHalList subHalListV2_1 s0 =
     (let s1 = s0\<lparr>mSubHalList := mSubHalList s0 @ map SubHalWrapperV2_0 subHalList\<rparr>;
          s2 = s1\<lparr>mSubHalList := mSubHalList s1 @ map SubHalWrapperV2_1 subHalListV2_1\<rparr>
      in hal_init E s2)"

subsection \<open>Publishing the sensors\<close>

definition getSensorsList_2_1 :: "hal_proxy \<Rightarrow> SensorInfo list" where
  "getSensorsList_2_1 s = map_values (mSensors s)"

definition getSensorsList :: "hal_env \<Rightarrow> hal_proxy \<Rightarrow> SensorInfo list" where
  "getSensorsList E s =
     map (convertToOldSensorInfo E)
       (filter (\<lambda>sensor. si_type sensor \<noteq> HINGE_ANGLE) (map_values (mSensors s)))"

subsection \<open>The table after collecting\<close>

text \<open>
  \<open>published\<close> relates a sensor as sub-HAL \<open>i\<close> reported it to its entry in \<open>mSensors\<close>: the handle is
  joined with \<open>i\<close>, the light sensor with the vendor's type string becomes a light sensor, and direct
  channel flags survive only on the chosen sub-HAL.
\<close>

definition published ::
  "hal_env \<Rightarrow> nat option \<Rightarrow> nat \<Rightarrow> SensorInfo \<Rightarrow> int32 \<Rightarrow> SensorInfo \<Rightarrow> bool" where
  "published E direct i x k info \<longleftrightarrow>
     subHalIndexIsClear (kSensorHandleSubHalIndexMask E) (si_sensorHandle x)
     \<and> k = setSubHalIndex (si_sensorHandle x) (of_nat i)
     \<and> si_sensorHandle info = k \<and> si_name info = si_name x \<and> si_rest info = si_rest x
     \<and> (if si_typeAsString x = ''android.sensor.wise_light''
        then si_type info = LIGHT \<and> si_typeAsString info = ''''
        else si_type info = si_type x \<and> si_typeAsString info = si_typeAsString x)
     \<and> si_flags info AND NOT (direct_mask E) = si_flags x AND NOT (direct_mask E)
     \<and> (si_flags info AND direct_mask E \<noteq> 0 \<longrightarrow> direct = Some i \<and> si_flags info = si_flags x)"

definition table_inv :: "hal_env \<Rightarrow> (nat \<times> SensorInfo) set \<Rightarrow> hal_proxy \<Rightarrow> bool" where
  "table_inv E R s \<longleftrightarrow>
     map_ok (mSensors s)
     \<and> (\<forall>k info. map_find (mSensors s) k = Some info \<longrightarrow>
          (\<exists>(i, x) \<in> R. published E (mDirectChannelSubHal s) i x k info))
     \<and> (\<forall>(i, x) \<in> R. subHalIndexIsClear (kSensorHandleSubHalIndexMask E) (si_sensorHandle x) \<longrightarrow>
          map_find (mSensors s) (setSubHalIndex (si_sensorHandle x) (of_nat i)) \<noteq> None)
     \<and> (\<forall>d. mDirectChannelSubHal s = Some d \<longrightarrow> (\<exists>x. (d, x) \<in> R))"

lemma and_not_and [simp]: "(a AND NOT m) AND m = (0 :: 'a::len word)"
  "(a AND NOT m) AND NOT m = a AND NOT (m :: 'a::len word)"
  by (simp_all add: bit_eq_iff bit_simps)

lemma published_mono:
  "published E None j y k info \<Longrightarrow> published E d j y k info"
  by (simp add: published_def)

lemma addSensor_skips:
  "\<not> subHalIndexIsClear (kSensorHandleSubHalIndexMask E) (si_sensorHandle x) \<Longrightarrow>
     addSensor E i x s = s"
  by (simp add: addSensor_def)

lemma addSensor_adds:
  assumes "subHalIndexIsClear (kSensorHandleSubHalIndexMask E) (si_sensorHandle x)"
  shows "\<exists>info. mSensors (addSensor E i x s) =
        map_put (setSubHalIndex (si_sensorHandle x) (of_nat i)) info (mSensors s)
      \<and> published E (mDirectChannelSubHal (addSensor E i x s)) i x
          (setSubHalIndex (si_sensorHandle x) (of_nat i)) info
      \<and> (mDirectChannelSubHal (addSensor E i x s) = mDirectChannelSubHal s
         \<or> mDirectChannelSubHal s = None \<and> mDirectChannelSubHal (addSensor E i x s) = Some i)"
proof -
  let ?k = "setSubHalIndex (si_sensorHandle x) (of_nat i)"
  let ?set = "setDirectChannelFlags E (x\<lparr>si_sensorHandle := ?k\<rparr>) i s"
  let ?info = "if si_typeAsString x = ''android.sensor.wise_light''
    then (fst ?set)\<lparr>si_type := LIGHT, si_typeAsString := ''''\<rparr> else fst ?set"
  have fields: "si_typeAsString (fst ?set) = si_typeAsString x" "si_sensorHandle (fst ?set) = ?k"
    by (simp_all add: setDirectChannelFlags_def Let_def)
  have added: "addSensor E i x s = (snd ?set)\<lparr>mSensors := map_put ?k ?info (mSensors (snd ?set))\<rparr>"
    using assms fields by (simp add: addSensor_def Let_def case_prod_beta)
  have "mSensors (addSensor E i x s) = map_put ?k ?info (mSensors s)"
    by (simp add: added) (simp add: setDirectChannelFlags_def Let_def)
  moreover have "mDirectChannelSubHal (addSensor E i x s) = mDirectChannelSubHal (snd ?set)"
    by (simp add: added)
  moreover have "published E (mDirectChannelSubHal (snd ?set)) i x ?k ?info"
    using assms by (auto simp: published_def setDirectChannelFlags_def Let_def)
  moreover have "mDirectChannelSubHal (snd ?set) = mDirectChannelSubHal s
      \<or> mDirectChannelSubHal s = None \<and> mDirectChannelSubHal (snd ?set) = Some i"
    by (simp add: setDirectChannelFlags_def Let_def)
  ultimately show ?thesis by metis
qed

lemma addSensor_hist [simp]: "hist (addSensor E i x s) = hist s"
  and addSensor_subhals [simp]: "mSubHalList (addSensor E i x s) = mSubHalList s"
  by (simp_all add: addSensor_def setDirectChannelFlags_def Let_def)

lemma addSensor_inv:
  assumes inv: "table_inv E R s"
  shows "table_inv E (insert (i, x) R) (addSensor E i x s)"
proof (cases "subHalIndexIsClear (kSensorHandleSubHalIndexMask E) (si_sensorHandle x)")
  case False
  with inv show ?thesis by (fastforce simp: table_inv_def addSensor_skips)
next
  case True
  let ?k = "setSubHalIndex (si_sensorHandle x) (of_nat i)"
  let ?s = "addSensor E i x s"
  from addSensor_adds [OF True] obtain info where
    put: "mSensors ?s = map_put ?k info (mSensors s)" and
    pub: "published E (mDirectChannelSubHal ?s) i x ?k info" and
    direct: "mDirectChannelSubHal ?s = mDirectChannelSubHal s
      \<or> mDirectChannelSubHal s = None \<and> mDirectChannelSubHal ?s = Some i"
    by metis
  have ok: "map_ok (mSensors s)" using inv by (simp add: table_inv_def)
  have old: "\<exists>(j, y) \<in> insert (i, x) R. published E (mDirectChannelSubHal ?s) j y k info'"
    if "map_find (mSensors s) k = Some info'" for k info'
  proof -
    from inv that have "\<exists>(j, y) \<in> R. published E (mDirectChannelSubHal s) j y k info'"
      by (simp add: table_inv_def)
    then obtain j y where "(j, y) \<in> R" "published E (mDirectChannelSubHal s) j y k info'"
      by auto
    then show ?thesis using direct published_mono by (metis (mono_tags, lifting) case_prodI insertI2)
  qed
  show ?thesis
    unfolding table_inv_def
  proof (intro conjI allI impI ballI)
    show "map_ok (mSensors ?s)" by (simp add: put ok)
    fix k info' assume "map_find (mSensors ?s) k = Some info'"
    then show "\<exists>(j, y) \<in> insert (i, x) R. published E (mDirectChannelSubHal ?s) j y k info'"
      using old pub by (auto simp: put ok split: if_splits)
  next
    fix p assume "p \<in> insert (i, x) R"
    with inv show "case p of (j, y) \<Rightarrow>
        subHalIndexIsClear (kSensorHandleSubHalIndexMask E) (si_sensorHandle y) \<longrightarrow>
        map_find (mSensors ?s) (setSubHalIndex (si_sensorHandle y) (of_nat j)) \<noteq> None"
      by (auto simp: table_inv_def put ok)
  next
    fix d assume "mDirectChannelSubHal ?s = Some d"
    moreover have "\<forall>d. mDirectChannelSubHal s = Some d \<longrightarrow> (\<exists>x. (d, x) \<in> R)"
      using inv by (simp add: table_inv_def)
    ultimately show "\<exists>y. (d, y) \<in> insert (i, x) R"
      using direct by (metis insertCI option.inject)
  qed
qed

lemma addSensors_inv:
  "table_inv E R s \<Longrightarrow> table_inv E (R \<union> Pair i ` set xs) (fold (addSensor E i) xs s)"
proof (induction xs arbitrary: R s)
  case (Cons x xs)
  from Cons.IH [OF addSensor_inv [OF Cons.prems]] show ?case by simp
qed simp

lemma addSensors_frame [simp]:
  "hist (fold (addSensor E i) xs s) = hist s"
  "mSubHalList (fold (addSensor E i) xs s) = mSubHalList s"
  by (induction xs arbitrary: s) simp_all

text \<open>What the sub-HALs reported in a history.\<close>

definition reported :: "history \<Rightarrow> (nat \<times> SensorInfo) set" where
  "reported h = {(i, x). \<exists>l ok. (SubGetSensorsList i, ASensors l ok) \<in> set h \<and> x \<in> set l}"

lemma reported_snoc:
  "reported (h @ [(SubGetSensorsList i, ASensors l ok)]) = reported h \<union> Pair i ` set l"
  by (auto simp: reported_def)

lemma reported_Nil [simp]: "reported [] = {}"
  by (simp add: reported_def)

lemma initializeSensorList_from_inv:
  assumes "table_inv E (reported (hist s)) s" and "i \<le> n"
  shows "table_inv E (reported (hist (initializeSensorList_from E i n s)))
      (initializeSensorList_from E i n s)
    \<and> mSubHalList (initializeSensorList_from E i n s) = mSubHalList s
    \<and> map fst (hist (initializeSensorList_from E i n s))
        = map fst (hist s) @ map SubGetSensorsList [i..<n]"
  using assms
proof (induction E i n s rule: initializeSensorList_from.induct)
  case (1 E i n s)
  show ?case
  proof (cases "i < n")
    case True
    obtain l ok where a: "ansSensors E (hist s) (SubGetSensorsList i) = (l, ok)" by fastforce
    let ?s1 = "s\<lparr>hist := hist s @ [(SubGetSensorsList i, ASensors l ok)]\<rparr>"
    let ?s2 = "fold (addSensor E i) l ?s1"
    have call: "call_sensors E (SubGetSensorsList i) s = ((l, ok), ?s1)"
      by (simp add: ext_defs Let_def a)
    have "table_inv E (reported (hist s)) ?s1"
      using "1.prems" by (simp add: table_inv_def)
    then have "table_inv E (reported (hist ?s2)) ?s2"
      using addSensors_inv by (simp add: reported_snoc)
    with "1.IH" [of "((l, ok), ?s1)" "(l, ok)" ?s1 l ok] True call
    have IH: "table_inv E (reported (hist (initializeSensorList_from E (Suc i) n ?s2)))
        (initializeSensorList_from E (Suc i) n ?s2)
      \<and> mSubHalList (initializeSensorList_from E (Suc i) n ?s2) = mSubHalList ?s2
      \<and> map fst (hist (initializeSensorList_from E (Suc i) n ?s2))
          = map fst (hist ?s2) @ map SubGetSensorsList [Suc i..<n]"
      by simp
    have "initializeSensorList_from E i n s = initializeSensorList_from E (Suc i) n ?s2"
      using True by (subst initializeSensorList_from.simps) (simp add: call)
    moreover have "[i..<n] = i # [Suc i..<n]" using True by (simp add: upt_conv_Cons)
    ultimately show ?thesis using IH by simp
  next
    case False
    then have "initializeSensorList_from E i n s = s"
      by (subst initializeSensorList_from.simps) simp
    with "1.prems" False show ?thesis by simp
  qed
qed

subsection \<open>After construction\<close>

text \<open>The members as their default member initialisers leave them.\<close>

definition fresh_members :: "hal_proxy \<Rightarrow> bool" where
  "fresh_members s \<longleftrightarrow> mSubHalList s = [] \<and> mSensors s = map_empty
     \<and> mDirectChannelSubHal s = None \<and> hist s = []"

lemma constructed_inv:
  assumes "fresh_members s0" and s: "s = HalProxy_from_2_0_and_2_1 E l20 l21 s0"
  shows "table_inv E (reported (hist s)) s"
    and "length (mSubHalList s) = length l20 + length l21"
    and "map fst (hist s) = map SubGetSensorsList [0..<length l20 + length l21]"
proof -
  let ?s1 = "s0\<lparr>mSubHalList := map SubHalWrapperV2_0 l20 @ map SubHalWrapperV2_1 l21\<rparr>"
  let ?n = "length l20 + length l21"
  have s_def: "s = initializeSensorList_from E 0 ?n ?s1"
    using assms by (simp add: HalProxy_from_2_0_and_2_1_def hal_init_def
        initializeSensorList_def fresh_members_def)
  have inv: "table_inv E (reported (hist ?s1)) ?s1"
    using assms(1) by (simp add: table_inv_def fresh_members_def)
  note t = initializeSensorList_from_inv [OF inv, of 0 ?n, folded s_def]
  show "table_inv E (reported (hist s)) s" "length (mSubHalList s) = ?n"
    "map fst (hist s) = map SubGetSensorsList [0..<?n]"
    using t assms(1) by (simp_all add: fresh_members_def)
qed

lemma reported_index:
  assumes "map fst h = map SubGetSensorsList [0..<n]" and "(i, x) \<in> reported h"
  shows "i < n"
proof -
  from assms(2) have "SubGetSensorsList i \<in> set (map fst h)"
    by (force simp: reported_def)
  with assms(1) show ?thesis by auto
qed

lemma table_entry:
  assumes "fresh_members s0" and "s = HalProxy_from_2_0_and_2_1 E l20 l21 s0"
    and "map_find (mSensors s) k = Some info"
  obtains i x where "(i, x) \<in> reported (hist s)" "i < length (mSubHalList s)"
    "published E (mDirectChannelSubHal s) i x k info"
proof -
  note t = constructed_inv [OF assms(1,2)]
  from t(1) assms(3) have "\<exists>(i, x) \<in> reported (hist s). published E (mDirectChannelSubHal s) i x k info"
    by (simp add: table_inv_def)
  then obtain i x where "(i, x) \<in> reported (hist s)" "published E (mDirectChannelSubHal s) i x k info"
    by auto
  with reported_index [OF t(3)] t(2) show thesis by (intro that) auto
qed

lemma entry_owner:
  assumes "mask_documented E" and "length (mSubHalList s) \<le> 128" and "i < length (mSubHalList s)"
    and "published E d i x k info"
  shows "isSubHalIndexValid k s" "getSubHalForSensorHandle k = i"
    "clearSubHalIndex first_byte_mask k = si_sensorHandle x"
  using assms owner_of_registered_handle [of "si_sensorHandle x" i s]
  by (auto simp: published_def mask_documented_def vector_ok_def)

subsection \<open>Properties of the collected table\<close>

text \<open>
  C22: the constructor asks every sub-HAL for its sensors once, in order. Every sensor reported with
  a zero first byte is in \<open>mSensors\<close> under the handle joined with its sub-HAL's index, and every
  entry comes from such a report, with its name and other fields kept, the vendor's light sensor
  turned into a light sensor, and no flags changed but the direct channel ones.
\<close>

theorem collected_sensors:
  assumes "fresh_members s0" and "s = HalProxy_from_2_0_and_2_1 E l20 l21 s0"
  shows "map fst (hist s) = map SubGetSensorsList [0..<length (mSubHalList s)]
    \<and> (\<forall>(i, x) \<in> reported (hist s).
         subHalIndexIsClear (kSensorHandleSubHalIndexMask E) (si_sensorHandle x) \<longrightarrow>
         map_find (mSensors s) (setSubHalIndex (si_sensorHandle x) (of_nat i)) \<noteq> None)
    \<and> (\<forall>k info. map_find (mSensors s) k = Some info \<longrightarrow>
         (\<exists>i x. (i, x) \<in> reported (hist s) \<and> i < length (mSubHalList s)
            \<and> published E (mDirectChannelSubHal s) i x k info))"
proof -
  note t = constructed_inv [OF assms]
  have "\<exists>i x. (i, x) \<in> reported (hist s) \<and> i < length (mSubHalList s)
      \<and> published E (mDirectChannelSubHal s) i x k info" if "map_find (mSensors s) k = Some info" for k info
    using table_entry [OF assms that] by metis
  with t show ?thesis by (simp add: table_inv_def)
qed

definition wise_light :: SensorInfo where
  "wise_light = no_sensor\<lparr>si_sensorHandle := 3, si_typeAsString := ''android.sensor.wise_light''\<rparr>"

definition direct_sensor :: "int32 \<Rightarrow> SensorInfo" where
  "direct_sensor h = no_sensor\<lparr>si_sensorHandle := h, si_flags := 0x381\<rparr>"

definition sensors_env :: hal_env where
  "sensors_env = quiet_env\<lparr>ansSensors := (\<lambda>_ c.
     if c = SubGetSensorsList 0 then ([wise_light, direct_sensor 4], True)
     else if c = SubGetSensorsList 1 then ([direct_sensor 4, direct_sensor 0x05000001], True)
     else ([], False))\<rparr>"

definition built_proxy :: hal_proxy where
  "built_proxy = HalProxy_from_2_0_and_2_1 sensors_env [0] [1] empty_proxy"

lemma fresh_empty_proxy: "fresh_members empty_proxy"
  by (simp add: fresh_members_def empty_proxy_def)

lemma built_proxy_sensors:
  "mSensors built_proxy =
     [(Key 3, wise_light\<lparr>si_type := LIGHT, si_typeAsString := ''''\<rparr>),
      (Key 4, direct_sensor 4),
      (Key 0x01000004, direct_sensor 0x01000004\<lparr>si_flags := 1\<rparr>)]"
  "mDirectChannelSubHal built_proxy = Some 0"
  "mSubHalList built_proxy = [SubHalWrapperV2_0 0, SubHalWrapperV2_1 1]"
  by (simp_all add: built_proxy_def HalProxy_from_2_0_and_2_1_def hal_init_def
      initializeSensorList_def initializeSensorList_from.simps empty_proxy_def sensors_env_def
      quiet_env_def call_sensors_def addSensor_def setDirectChannelFlags_def direct_mask_def
      subHalIndexIsClear_def first_byte_mask_def setSubHalIndex_def kBitsAfterSubHalIndex_def
      map_empty_def map_put_def wise_light_def direct_sensor_def no_sensor_def Let_def)

theorem collected_sensors_witness:
  "map fst (hist built_proxy) = map SubGetSensorsList [0..<2]
   \<and> map_find (mSensors built_proxy) 0x01000004 \<noteq> None"
  using collected_sensors [OF fresh_empty_proxy built_proxy_def]
  by (simp add: built_proxy_sensors map_find_def numeral_2_eq_2)

text \<open>
  C23: at most one sub-HAL keeps direct channel support: a sensor that still carries direct channel
  flags belongs to the sub-HAL that direct channel requests are sent to. Configuring a direct report
  for it is one call of the sub-HAL that reported it, on the handle under which it reported it;
  channels are registered and unregistered there.
\<close>

theorem single_direct_channel_subhal:
  assumes "fresh_members s0" and "s = HalProxy_from_2_0_and_2_1 E l20 l21 s0"
    and "mask_documented E" and "length l20 + length l21 \<le> 128"
    and "map_find (mSensors s) k = Some info" and "si_flags info AND direct_mask E \<noteq> 0"
  shows "\<exists>i x. (i, x) \<in> reported (hist s) \<and> si_name x = si_name info
    \<and> mDirectChannelSubHal s = Some i \<and> getSubHalForSensorHandle k = i
    \<and> (\<forall>mem. registerDirectChannel E mem s = call_channel E (SubRegisterDirectChannel i mem) s)
    \<and> (\<forall>ch. unregisterDirectChannel E ch s = call_result E (SubUnregisterDirectChannel i ch) s)
    \<and> (\<forall>ch rate. configDirectReport E k ch rate s
          = call_channel E (SubConfigDirectReport i (si_sensorHandle x) ch rate) s)"
proof -
  obtain i x where ix: "(i, x) \<in> reported (hist s)" "i < length (mSubHalList s)"
    "published E (mDirectChannelSubHal s) i x k info"
    by (rule table_entry [OF assms(1,2,5)])
  have len: "length (mSubHalList s) \<le> 128"
    using assms(4) constructed_inv(2) [OF assms(1,2)] by simp
  note owner = entry_owner [OF assms(3) len ix(2,3)]
  have direct: "mDirectChannelSubHal s = Some i" and name: "si_name x = si_name info"
    using ix(3) assms(6) by (auto simp: published_def)
  have "vector_ok (mSubHalList s)" using len by (simp add: vector_ok_def)
  then have "k \<noteq> -1" using owner(1) by (auto simp: isSubHalIndexValid_iff)
  with ix(1) direct name owner assms(3) show ?thesis
    by (intro exI [of _ i] exI [of _ x])
       (simp add: registerDirectChannel_def unregisterDirectChannel_def configDirectReport_def mask_documented_def)
qed

theorem single_direct_channel_subhal_witness:
  "\<exists>i x. (i, x) \<in> reported (hist built_proxy) \<and> mDirectChannelSubHal built_proxy = Some i
    \<and> configDirectReport sensors_env 4 7 STOP built_proxy
        = call_channel sensors_env (SubConfigDirectReport i (si_sensorHandle x) 7 STOP) built_proxy"
proof -
  have find: "map_find (mSensors built_proxy) 4 = Some (direct_sensor 4)"
    by (simp add: built_proxy_sensors map_find_def)
  have flags: "si_flags (direct_sensor 4) AND direct_mask sensors_env \<noteq> 0"
    by (simp add: direct_sensor_def direct_mask_def sensors_env_def quiet_env_def)
  have env: "mask_documented sensors_env"
    by (simp add: mask_documented_def sensors_env_def quiet_env_def)
  have few: "length [0 :: nat] + length [1 :: nat] \<le> 128" by simp
  from single_direct_channel_subhal [OF fresh_empty_proxy built_proxy_def env few find flags]
  show ?thesis by blast
qed



end
