(* ===== verification/Pending_Writes.thy ===== *)
theory Pending_Writes
  imports Wakelock Sensor_List
begin

text \<open>
  The way of an event to the framework in \<open>sensors/HalProxy.cpp\<close>: \<open>postEventsToMessageQueue\<close>
  writes what fits into the event message queue and keeps the rest in
  \<open>mPendingWriteEventsQueue\<close>, which the thread \<open>handlePendingWrites\<close> empties with blocking writes.

  One turn of the thread's loop is three atomic steps, because it gives up
  \<open>mEventQueueWriteMutex\<close> around the blocking write: \<open>pw_begin\<close> (under the lock: read the front),
  \<open>pw_write\<close> (unlocked), \<open>pw_end\<close> (under the lock again: drop what was written). Other threads may
  post in between. \<open>None\<close> is a null pointer dereference or a read of a missing element.
\<close>

subsection \<open>Posting\<close>

text \<open>The direct write: the result is \<open>numToWrite\<close>, the number of events written.\<close>

definition post_direct :: "hal_env \<Rightarrow> Event list \<Rightarrow> hal_proxy \<Rightarrow> (size_t \<times> hal_proxy) option" where
  "post_direct E events s =
     (if mPendingWriteEventsQueue s \<noteq> [] then Some (0, s)
      else if mEventQueue s = None then None
      else
        let (available, s1) = call_size E EventQueueAvailableToWrite s;
            numToWrite = min (vsize events) available
        in if numToWrite > 0 then
             let (written, s2) = call_bool E (EventQueueWrite (take (unat numToWrite) events)) s1
             in if written then
                  if \<not> mEventQueueFlag s2 then None
                  else Some (numToWrite, do_call (EventQueueFlagWake READ_AND_PROCESS) s2)
                else Some (0, s2)
           else Some (numToWrite, s1))"

text \<open>Keeping the rest, if the pending queue has room for all of it.\<close>

definition post_pending ::
  "hal_env \<Rightarrow> Event list \<Rightarrow> size_t \<Rightarrow> size_t \<Rightarrow> hal_proxy \<Rightarrow> hal_proxy" where
  "post_pending E events numWakeupEvents numToWrite s =
     (let numLeft = vsize events - numToWrite
      in if numToWrite < vsize events
            \<and> mSizePendingWriteEventsQueue s + numLeft \<le> kMaxSizePendingWriteEventsQueue E
         then
           let eventsLeft = drop (unat numToWrite) events;
               size' = mSizePendingWriteEventsQueue s + numLeft
           in do_call NotifyEventQueueWriteCV
                (s\<lparr>mPendingWriteEventsQueue :=
                     mPendingWriteEventsQueue s @ [(eventsLeft, numWakeupEvents)],
                   mSizePendingWriteEventsQueue := size',
                   mMostEventsObservedPendingWriteEventsQueue :=
                     max (mMostEventsObservedPendingWriteEventsQueue s) size'\<rparr>)
         else s)"

definition postEventsToMessageQueue ::
  "hal_env \<Rightarrow> Event list \<Rightarrow> size_t \<Rightarrow> bool \<Rightarrow> hal_proxy \<Rightarrow> hal_proxy option" where
  "postEventsToMessageQueue E events numWakeupEvents isLocked s =
     (let s1 = (if isLocked
                then snd (incrementRefCountAndMaybeAcquireWakelock E numWakeupEvents s) else s)
      in case post_direct E events s1 of
           None \<Rightarrow> None
         | Some (numToWrite, s2) \<Rightarrow> Some (post_pending E events numWakeupEvents numToWrite s2))"

subsection \<open>Counting wake-up events\<close>

text \<open>\<open>mSensors[sensorHandle]\<close> inserts a value-initialised entry when the handle is unknown.\<close>

fun countNumWakeupEvents_loop ::
  "hal_env \<Rightarrow> Event list \<Rightarrow> size_t \<times> sensor_map \<Rightarrow> size_t \<times> sensor_map" where
  "countNumWakeupEvents_loop E [] (count, m) = (count, m)"
| "countNumWakeupEvents_loop E (event # events) (count, m) =
     (let (info, m') = map_index (defaultSensorInfo E) (ev_sensorHandle event) m
      in countNumWakeupEvents_loop E events
           (if si_flags info AND WAKE_UP E \<noteq> 0 then count + 1 else count, m'))"

definition countNumWakeupEvents ::
  "hal_env \<Rightarrow> Event list \<Rightarrow> size_t \<Rightarrow> hal_proxy \<Rightarrow> (size_t \<times> hal_proxy) option" where
  "countNumWakeupEvents E events n s =
     (if length events < unat n then None
      else
        let (count, m) = countNumWakeupEvents_loop E (take (unat n) events) (0, mSensors s)
        in Some (count, s\<lparr>mSensors := m\<rparr>))"

subsection \<open>The thread that empties the pending queue\<close>

text \<open>The condition of \<open>mEventQueueWriteCV.wait\<close>.\<close>

definition pw_ready :: "hal_proxy \<Rightarrow> bool" where
  "pw_ready s \<longleftrightarrow> mPendingWriteEventsQueue s \<noteq> [] \<or> \<not> mThreadsRun s"

definition pw_begin :: "hal_env \<Rightarrow> hal_proxy \<Rightarrow> hal_proxy option" where
  "pw_begin E s =
     (if \<not> mThreadsRun s then Some (s\<lparr>mPendingWritesThread := PwExited\<rparr>)
      else case mPendingWriteEventsQueue s of
        [] \<Rightarrow> Some s
      | (pendingWriteEvents, numWakeupEvents) # _ \<Rightarrow>
          if mEventQueue s = None then None
          else
            let (eventQueueSize, s1) = call_size E EventQueueGetQuantumCount s;
                numToWrite = min (vsize pendingWriteEvents) eventQueueSize
            in Some (s1\<lparr>mPendingWritesThread :=
                 PwWriting numToWrite eventQueueSize numWakeupEvents\<rparr>))"

definition pw_write ::
  "hal_env \<Rightarrow> size_t \<Rightarrow> size_t \<Rightarrow> size_t \<Rightarrow> hal_proxy \<Rightarrow> hal_proxy option" where
  "pw_write E numToWrite eventQueueSize numWakeupEvents s =
     (case mPendingWriteEventsQueue s of
        [] \<Rightarrow> None
      | (pendingWriteEvents, _) # _ \<Rightarrow>
          let (written, s1) = call_bool E
                (EventQueueWriteBlocking (take (unat numToWrite) pendingWriteEvents)
                   (kPendingWriteTimeoutNs E)) s;
              dropped =
                (if \<not> written \<and> numWakeupEvents > 0 then
                   if vsize pendingWriteEvents > eventQueueSize then
                     (case countNumWakeupEvents E pendingWriteEvents eventQueueSize s1 of
                        None \<Rightarrow> None
                      | Some (count, s2) \<Rightarrow>
                          Some (decrementRefCountAndMaybeReleaseWakelock count (-1) s2))
                   else Some (decrementRefCountAndMaybeReleaseWakelock numWakeupEvents (-1) s1)
                 else Some s1)
          in map_option (\<lambda>s2. s2\<lparr>mPendingWritesThread := PwWritten numToWrite eventQueueSize\<rparr>)
               dropped)"

definition pw_end :: "size_t \<Rightarrow> size_t \<Rightarrow> hal_proxy \<Rightarrow> hal_proxy option" where
  "pw_end numToWrite eventQueueSize s =
     (case mPendingWriteEventsQueue s of
        [] \<Rightarrow> None
      | (pendingWriteEvents, numWakeupEvents) # rest \<Rightarrow>
          Some (s\<lparr>mSizePendingWriteEventsQueue := mSizePendingWriteEventsQueue s - numToWrite,
                  mPendingWriteEventsQueue :=
                    (if vsize pendingWriteEvents > eventQueueSize
                     then (drop (unat eventQueueSize) pendingWriteEvents, numWakeupEvents) # rest
                     else rest),
                  mPendingWritesThread := PwLoop\<rparr>))"

text \<open>The next step of the thread from where it stands.\<close>

definition pw_step :: "hal_env \<Rightarrow> hal_proxy \<Rightarrow> hal_proxy option" where
  "pw_step E s =
     (case mPendingWritesThread s of
        PwLoop \<Rightarrow> pw_begin E s
      | PwWriting n q w \<Rightarrow> pw_write E n q w s
      | PwWritten n q \<Rightarrow> pw_end n q s
      | _ \<Rightarrow> Some s)"

text \<open>One turn of the loop with nothing in between.\<close>

definition pw_turn :: "hal_env \<Rightarrow> hal_proxy \<Rightarrow> hal_proxy option" where
  "pw_turn E s =
     Option.bind (pw_step E s) (\<lambda>s1. Option.bind (pw_step E s1) (pw_step E))"

subsection \<open>What the history says of the events\<close>

text \<open>\<open>settled\<close>: the events that left the proxy, delivered or given up; \<open>delivered\<close>: those that
  were put into the message queue.\<close>

fun settled_by :: "ext_call \<times> answer \<Rightarrow> Event list" where
  "settled_by (EventQueueWrite evs, ABool True) = evs"
| "settled_by (EventQueueWriteBlocking evs _, ABool _) = evs"
| "settled_by _ = []"

fun delivered_by :: "ext_call \<times> answer \<Rightarrow> Event list" where
  "delivered_by (EventQueueWrite evs, ABool True) = evs"
| "delivered_by (EventQueueWriteBlocking evs _, ABool True) = evs"
| "delivered_by _ = []"

definition settled :: "history \<Rightarrow> Event list" where
  "settled h = concat (map settled_by h)"

definition delivered :: "history \<Rightarrow> Event list" where
  "delivered h = concat (map delivered_by h)"

lemma settled_append [simp]: "settled (h @ h') = settled h @ settled h'"
  and delivered_append [simp]: "delivered (h @ h') = delivered h @ delivered h'"
  by (simp_all add: settled_def delivered_def)

lemma settled_simps [simp]:
  "settled [] = []" "settled (e # h) = settled_by e @ settled h"
  "delivered [] = []" "delivered (e # h) = delivered_by e @ delivered h"
  by (simp_all add: settled_def delivered_def)

lemma delivered_subseq: "subseq (delivered h) (settled h)"
proof (induction h)
  case (Cons e h)
  have "subseq (delivered_by e) (settled_by e)"
    by (cases e rule: delivered_by.cases) auto
  with Cons show ?case by (simp add: list_emb_append_mono)
qed simp

text \<open>The events still in the proxy. After the blocking write and before \<open>pw_end\<close> the first
  \<open>numToWrite\<close> events of the front are settled already.\<close>

definition pending_events :: "hal_proxy \<Rightarrow> Event list" where
  "pending_events s =
     (let all = concat (map fst (mPendingWriteEventsQueue s))
      in case mPendingWritesThread s of
           PwWritten numToWrite _ \<Rightarrow> drop (unat numToWrite) all
         | _ \<Rightarrow> all)"

subsection \<open>Frames\<close>

lemma increment_keeps_queue [simp]:
  "mPendingWriteEventsQueue (snd (incrementRefCountAndMaybeAcquireWakelock E d s)) = mPendingWriteEventsQueue s"
  "mSizePendingWriteEventsQueue (snd (incrementRefCountAndMaybeAcquireWakelock E d s)) = mSizePendingWriteEventsQueue s"
  "mMostEventsObservedPendingWriteEventsQueue (snd (incrementRefCountAndMaybeAcquireWakelock E d s))
     = mMostEventsObservedPendingWriteEventsQueue s"
  "mPendingWritesThread (snd (incrementRefCountAndMaybeAcquireWakelock E d s)) = mPendingWritesThread s"
  "mEventQueue (snd (incrementRefCountAndMaybeAcquireWakelock E d s)) = mEventQueue s"
  "mEventQueueFlag (snd (incrementRefCountAndMaybeAcquireWakelock E d s)) = mEventQueueFlag s"
  "mThreadsRun (snd (incrementRefCountAndMaybeAcquireWakelock E d s)) = mThreadsRun s"
  "settled (hist (snd (incrementRefCountAndMaybeAcquireWakelock E d s))) = settled (hist s)"
  "delivered (hist (snd (incrementRefCountAndMaybeAcquireWakelock E d s))) = delivered (hist s)"
  by (simp_all add: wakelock_defs ext_defs Let_def)

lemma decrement_keeps_queue [simp]:
  "mPendingWriteEventsQueue (decrementRefCountAndMaybeReleaseWakelock d t s) = mPendingWriteEventsQueue s"
  "mSizePendingWriteEventsQueue (decrementRefCountAndMaybeReleaseWakelock d t s) = mSizePendingWriteEventsQueue s"
  "mMostEventsObservedPendingWriteEventsQueue (decrementRefCountAndMaybeReleaseWakelock d t s)
     = mMostEventsObservedPendingWriteEventsQueue s"
  "mPendingWritesThread (decrementRefCountAndMaybeReleaseWakelock d t s) = mPendingWritesThread s"
  "mEventQueue (decrementRefCountAndMaybeReleaseWakelock d t s) = mEventQueue s"
  "mEventQueueFlag (decrementRefCountAndMaybeReleaseWakelock d t s) = mEventQueueFlag s"
  "settled (hist (decrementRefCountAndMaybeReleaseWakelock d t s)) = settled (hist s)"
  "delivered (hist (decrementRefCountAndMaybeReleaseWakelock d t s)) = delivered (hist s)"
  by (simp_all add: wakelock_defs ext_defs Let_def)

lemma reset_keeps_queue [simp]:
  "mPendingWriteEventsQueue (resetSharedWakelock E s) = mPendingWriteEventsQueue s"
  "mSizePendingWriteEventsQueue (resetSharedWakelock E s) = mSizePendingWriteEventsQueue s"
  "mMostEventsObservedPendingWriteEventsQueue (resetSharedWakelock E s)
     = mMostEventsObservedPendingWriteEventsQueue s"
  "mPendingWritesThread (resetSharedWakelock E s) = mPendingWritesThread s"
  "mEventQueue (resetSharedWakelock E s) = mEventQueue s"
  "mEventQueueFlag (resetSharedWakelock E s) = mEventQueueFlag s"
  "mThreadsRun (resetSharedWakelock E s) = mThreadsRun s"
  "settled (hist (resetSharedWakelock E s)) = settled (hist s)"
  "delivered (hist (resetSharedWakelock E s)) = delivered (hist s)"
  by (simp_all add: resetSharedWakelock_def ext_defs Let_def)

lemma increment_keeps_rest [simp]:
  "mSensors (snd (incrementRefCountAndMaybeAcquireWakelock E d s)) = mSensors s"
  "mDynamicSensors (snd (incrementRefCountAndMaybeAcquireWakelock E d s)) = mDynamicSensors s"
  "mSubHalList (snd (incrementRefCountAndMaybeAcquireWakelock E d s)) = mSubHalList s"
  "mCurrentOperationMode (snd (incrementRefCountAndMaybeAcquireWakelock E d s)) = mCurrentOperationMode s"
  "mDirectChannelSubHal (snd (incrementRefCountAndMaybeAcquireWakelock E d s)) = mDirectChannelSubHal s"
  "mDynamicSensorsCallback (snd (incrementRefCountAndMaybeAcquireWakelock E d s)) = mDynamicSensorsCallback s"
  "mWakelockThread (snd (incrementRefCountAndMaybeAcquireWakelock E d s)) = mWakelockThread s"
  "mWakeLockQueue (snd (incrementRefCountAndMaybeAcquireWakelock E d s)) = mWakeLockQueue s"
  "mWakelockQueueFlag (snd (incrementRefCountAndMaybeAcquireWakelock E d s)) = mWakelockQueueFlag s"
  by (simp_all add: wakelock_defs ext_defs Let_def)

lemma decrement_keeps_rest [simp]:
  "mSensors (decrementRefCountAndMaybeReleaseWakelock d t s) = mSensors s"
  "mDynamicSensors (decrementRefCountAndMaybeReleaseWakelock d t s) = mDynamicSensors s"
  "mSubHalList (decrementRefCountAndMaybeReleaseWakelock d t s) = mSubHalList s"
  "mCurrentOperationMode (decrementRefCountAndMaybeReleaseWakelock d t s) = mCurrentOperationMode s"
  "mDirectChannelSubHal (decrementRefCountAndMaybeReleaseWakelock d t s) = mDirectChannelSubHal s"
  "mDynamicSensorsCallback (decrementRefCountAndMaybeReleaseWakelock d t s) = mDynamicSensorsCallback s"
  "mWakelockThread (decrementRefCountAndMaybeReleaseWakelock d t s) = mWakelockThread s"
  "mWakeLockQueue (decrementRefCountAndMaybeReleaseWakelock d t s) = mWakeLockQueue s"
  "mWakelockQueueFlag (decrementRefCountAndMaybeReleaseWakelock d t s) = mWakelockQueueFlag s"
  by (simp_all add: wakelock_defs ext_defs Let_def)

lemma reset_keeps_rest [simp]:
  "mSensors (resetSharedWakelock E s) = mSensors s"
  "mDynamicSensors (resetSharedWakelock E s) = mDynamicSensors s"
  "mSubHalList (resetSharedWakelock E s) = mSubHalList s"
  "mCurrentOperationMode (resetSharedWakelock E s) = mCurrentOperationMode s"
  "mDirectChannelSubHal (resetSharedWakelock E s) = mDirectChannelSubHal s"
  "mDynamicSensorsCallback (resetSharedWakelock E s) = mDynamicSensorsCallback s"
  "mWakelockThread (resetSharedWakelock E s) = mWakelockThread s"
  "mWakeLockQueue (resetSharedWakelock E s) = mWakeLockQueue s"
  "mWakelockQueueFlag (resetSharedWakelock E s) = mWakelockQueueFlag s"
  by (simp_all add: wakelock_defs ext_defs Let_def)

subsection \<open>The size counter and the order of events\<close>

definition queue_total :: "(Event list \<times> size_t) list \<Rightarrow> nat" where
  "queue_total q = sum_list (map (length \<circ> fst) q)"

lemma queue_total_simps [simp]:
  "queue_total [] = 0" "queue_total (b # q) = length (fst b) + queue_total q"
  "queue_total (q @ q') = queue_total q + queue_total q'"
  by (simp_all add: queue_total_def)

lemma length_concat_queue: "length (concat (map fst q)) = queue_total q"
  by (induction q) simp_all

definition batches_ok :: "(Event list \<times> size_t) list \<Rightarrow> bool" where
  "batches_ok q \<longleftrightarrow> list_all (\<lambda>b. fst b \<noteq> [] \<and> vector_ok (fst b)) q"

lemma batches_ok_simps [simp]:
  "batches_ok []" "batches_ok (b # q) \<longleftrightarrow> fst b \<noteq> [] \<and> vector_ok (fst b) \<and> batches_ok q"
  "batches_ok (q @ q') \<longleftrightarrow> batches_ok q \<and> batches_ok q'"
  by (auto simp: batches_ok_def)

text \<open>Where the thread stands agrees with the front of the queue.\<close>

definition pw_position_ok :: "hal_proxy \<Rightarrow> bool" where
  "pw_position_ok s \<longleftrightarrow>
     (case mPendingWritesThread s of
        PwWriting n q w \<Rightarrow>
          (\<exists>evs rest. mPendingWriteEventsQueue s = (evs, w) # rest \<and> n = min (vsize evs) q)
      | PwWritten n q \<Rightarrow>
          (\<exists>evs w rest. mPendingWriteEventsQueue s = (evs, w) # rest \<and> n = min (vsize evs) q)
      | _ \<Rightarrow> True)"

definition pending_inv :: "hal_env \<Rightarrow> hal_proxy \<Rightarrow> bool" where
  "pending_inv E s \<longleftrightarrow>
     unat (mSizePendingWriteEventsQueue s) = queue_total (mPendingWriteEventsQueue s)
     \<and> mSizePendingWriteEventsQueue s \<le> kMaxSizePendingWriteEventsQueue E
     \<and> mSizePendingWriteEventsQueue s \<le> mMostEventsObservedPendingWriteEventsQueue s
     \<and> batches_ok (mPendingWriteEventsQueue s)
     \<and> pw_position_ok s"

text \<open>The bound declared in \<open>HalProxy.h\<close> leaves room for a vector on top of it.\<close>

definition max_size_ok :: "hal_env \<Rightarrow> bool" where
  "max_size_ok E \<longleftrightarrow> unat (kMaxSizePendingWriteEventsQueue E) < 2 ^ 63"

text \<open>The events of one post that the proxy takes charge of: all, or only the written ones when
  the pending queue has no room for the rest.\<close>

definition post_accepted :: "hal_env \<Rightarrow> Event list \<Rightarrow> hal_proxy \<Rightarrow> Event list" where
  "post_accepted E events s =
     (case post_direct E events s of
        None \<Rightarrow> []
      | Some (n, s1) \<Rightarrow>
          if mSizePendingWriteEventsQueue s + (vsize events - n) \<le> kMaxSizePendingWriteEventsQueue E
          then events else take (unat n) events)"

lemma post_direct_effect:
  assumes "post_direct E events s = Some (n, s')"
  shows "\<exists>h. s' = s\<lparr>hist := hist s @ h\<rparr> \<and> n \<le> vsize events
    \<and> (mPendingWriteEventsQueue s \<noteq> [] \<longrightarrow> n = 0)
    \<and> settled h = take (unat n) events \<and> delivered h = take (unat n) events
    \<and> no_wakelock_call h"
proof (cases "mPendingWriteEventsQueue s = []")
  case False
  with assms show ?thesis
    by (intro exI [of _ "[]"]) (auto simp: post_direct_def no_wakelock_call_def)
next
  case True
  let ?a = "ansSize E (hist s) EventQueueAvailableToWrite"
  let ?h1 = "[(EventQueueAvailableToWrite, ASize ?a)]"
  let ?m = "min (vsize events) ?a"
  let ?w = "EventQueueWrite (take (unat ?m) events)"
  let ?b = "ansBool E (hist s @ ?h1) ?w"
  consider "?m = 0" "n = 0" "s' = s\<lparr>hist := hist s @ ?h1\<rparr>"
    | "?b" "n = ?m" "s' = s\<lparr>hist := hist s @ ?h1 @ [(?w, ABool True), (EventQueueFlagWake READ_AND_PROCESS, ANone)]\<rparr>"
    | "\<not> ?b" "n = 0" "s' = s\<lparr>hist := hist s @ ?h1 @ [(?w, ABool False)]\<rparr>"
    using assms True
    by (auto simp: post_direct_def ext_defs Let_def word_gt_0 split: if_splits)
  then show ?thesis
  proof cases
    case 1 then show ?thesis by (intro exI [of _ ?h1]) (simp add: no_wakelock_call_def True)
  next
    case 2 then show ?thesis
      by (intro exI [of _ "?h1 @ [(?w, ABool True), (EventQueueFlagWake READ_AND_PROCESS, ANone)]"])
        (simp add: no_wakelock_call_def True)
  next
    case 3 then show ?thesis
      by (intro exI [of _ "?h1 @ [(?w, ABool False)]"]) (simp add: no_wakelock_call_def True)
  qed
qed

lemma unat_vsize_le: "unat (vsize xs) \<le> length xs"
  by (simp add: vsize_def unat_of_nat)

lemma written_le_total:
  assumes "pw_position_ok s" and "mPendingWritesThread s = PwWritten n q"
  shows "unat n \<le> queue_total (mPendingWriteEventsQueue s)"
proof -
  from assms obtain evs w rest where
    "mPendingWriteEventsQueue s = (evs, w) # rest" "n = min (vsize evs) q"
    by (auto simp: pw_position_ok_def)
  moreover have "unat (min (vsize evs) q) \<le> length evs"
    using unat_vsize_le [of evs] by (simp add: unat_min)
  ultimately show ?thesis by simp
qed

lemma pending_events_append:
  assumes "mPendingWritesThread s' = mPendingWritesThread s" "pw_position_ok s"
    and "mPendingWriteEventsQueue s' = mPendingWriteEventsQueue s @ q"
  shows "pending_events s' = pending_events s @ concat (map fst q)"
  using assms written_le_total [OF assms(2)]
  by (auto simp: pending_events_def Let_def length_concat_queue split: pw_thread.split)

lemma pw_position_ok_append:
  assumes "pw_position_ok s" "mPendingWritesThread s' = mPendingWritesThread s"
    and "mPendingWriteEventsQueue s' = mPendingWriteEventsQueue s @ q"
  shows "pw_position_ok s'"
  using assms by (auto simp: pw_position_ok_def split: pw_thread.splits)

lemma pending_size_exact:
  assumes "pending_inv E s" "max_size_ok E" "vector_ok events" "n \<le> vsize events"
  shows "unat (mSizePendingWriteEventsQueue s + (vsize events - n))
    = queue_total (mPendingWriteEventsQueue s) + (length events - unat n)"
proof -
  have "unat (vsize events - n) = length events - unat n"
    using assms(3,4) by (simp add: unat_sub unat_vsize)
  moreover have "unat (mSizePendingWriteEventsQueue s) = queue_total (mPendingWriteEventsQueue s)"
    "unat (mSizePendingWriteEventsQueue s) < 2 ^ 63"
    using assms(1,2) by (auto simp: pending_inv_def max_size_ok_def word_le_nat_alt)
  ultimately show ?thesis
    using assms(3) by (subst unat_add_small) (simp_all add: vector_ok_def)
qed

lemma post_pending_effect:
  assumes inv: "pending_inv E s" "max_size_ok E" "vector_ok events" "n \<le> vsize events"
  shows "pending_inv E (post_pending E events w n s)"
    and "settled (hist (post_pending E events w n s)) = settled (hist s)"
    and "delivered (hist (post_pending E events w n s)) = delivered (hist s)"
    and "pending_events (post_pending E events w n s) = pending_events s @
      (if mSizePendingWriteEventsQueue s + (vsize events - n) \<le> kMaxSizePendingWriteEventsQueue E
       then drop (unat n) events else [])"
proof -
  let ?size = "mSizePendingWriteEventsQueue s + (vsize events - n)"
  let ?s = "post_pending E events w n s"
  have n: "unat n \<le> length events" using assms(3,4) by (simp add: word_le_nat_alt unat_vsize)
  have old: "pw_position_ok s" using inv by (simp add: pending_inv_def)
  note size = pending_size_exact [OF inv]
  have less: "n < vsize events \<longleftrightarrow> unat n < length events"
    using assms(3) by (simp add: word_less_nat_alt unat_vsize)
  show "settled (hist ?s) = settled (hist s)" "delivered (hist ?s) = delivered (hist s)"
    by (simp_all add: post_pending_def ext_defs Let_def)
  show "pending_inv E ?s"
  proof (cases "n < vsize events \<and> ?size \<le> kMaxSizePendingWriteEventsQueue E")
    case True
    then have s: "?s = do_call NotifyEventQueueWriteCV (s\<lparr>mPendingWriteEventsQueue :=
          mPendingWriteEventsQueue s @ [(drop (unat n) events, w)],
        mSizePendingWriteEventsQueue := ?size,
        mMostEventsObservedPendingWriteEventsQueue :=
          max (mMostEventsObservedPendingWriteEventsQueue s) ?size\<rparr>)"
      by (simp add: post_pending_def Let_def)
    have "pw_position_ok ?s"
      by (rule pw_position_ok_append [OF old]) (simp_all add: s ext_defs)
    moreover have "vector_ok (drop (unat n) events)" "drop (unat n) events \<noteq> []"
      using assms(3) True less by (simp_all add: vector_ok_def)
    ultimately show ?thesis
      using inv True size n by (auto simp: pending_inv_def s ext_defs)
  next
    case False
    then have "?s = s" by (auto simp: post_pending_def Let_def)
    with inv show ?thesis by simp
  qed
  show "pending_events ?s = pending_events s @
      (if ?size \<le> kMaxSizePendingWriteEventsQueue E then drop (unat n) events else [])"
  proof (cases "n < vsize events \<and> ?size \<le> kMaxSizePendingWriteEventsQueue E")
    case True
    then have "pending_events ?s = pending_events s @ concat (map fst [(drop (unat n) events, w)])"
      by (intro pending_events_append [OF _ old]) (simp_all add: post_pending_def ext_defs Let_def)
    with True show ?thesis by simp
  next
    case False
    then have "?s = s" by (auto simp: post_pending_def Let_def)
    moreover have "drop (unat n) events = []" if "?size \<le> kMaxSizePendingWriteEventsQueue E"
      using False that less n by simp
    ultimately show ?thesis by auto
  qed
qed

lemma pending_cong:
  assumes "mPendingWriteEventsQueue s' = mPendingWriteEventsQueue s"
    and "mPendingWritesThread s' = mPendingWritesThread s"
    and "mSizePendingWriteEventsQueue s' = mSizePendingWriteEventsQueue s"
    and "mMostEventsObservedPendingWriteEventsQueue s' = mMostEventsObservedPendingWriteEventsQueue s"
  shows "pending_inv E s' = pending_inv E s" and "pending_events s' = pending_events s"
  unfolding pending_inv_def pw_position_ok_def pending_events_def by (simp_all only: assms)

lemma post_effect:
  assumes inv: "pending_inv E s" "max_size_ok E" "vector_ok events"
    and post: "postEventsToMessageQueue E events w lk s = Some s'"
  shows "pending_inv E s'"
    and "settled (hist s') @ pending_events s' =
      settled (hist s) @ pending_events s @ post_accepted E events
        (if lk then snd (incrementRefCountAndMaybeAcquireWakelock E w s) else s)"
proof -
  let ?s1 = "if lk then snd (incrementRefCountAndMaybeAcquireWakelock E w s) else s"
  obtain n s2 where direct: "post_direct E events ?s1 = Some (n, s2)"
    and s': "s' = post_pending E events w n s2"
    using post by (auto simp: postEventsToMessageQueue_def Let_def split: option.splits)
  obtain h where h: "s2 = ?s1\<lparr>hist := hist ?s1 @ h\<rparr>" "n \<le> vsize events"
    "mPendingWriteEventsQueue ?s1 \<noteq> [] \<longrightarrow> n = 0" "settled h = take (unat n) events"
    using post_direct_effect [OF direct] by auto
  have same: "mPendingWriteEventsQueue ?s1 = mPendingWriteEventsQueue s"
    "mPendingWritesThread ?s1 = mPendingWritesThread s"
    "mSizePendingWriteEventsQueue ?s1 = mSizePendingWriteEventsQueue s"
    "mMostEventsObservedPendingWriteEventsQueue ?s1 = mMostEventsObservedPendingWriteEventsQueue s"
    "settled (hist ?s1) = settled (hist s)"
    by simp_all
  have inv2: "pending_inv E s2" and pend: "pending_events s2 = pending_events s"
    using inv(1) pending_cong [of s2 s] same by (simp_all add: h(1))
  have settled2: "settled (hist s2) = settled (hist s) @ take (unat n) events"
    and size2: "mSizePendingWriteEventsQueue s2 = mSizePendingWriteEventsQueue s"
    using same by (simp_all add: h(1,4))
  note effect = post_pending_effect [OF inv2 inv(2,3) h(2), of w, folded s']
  show "pending_inv E s'" by (rule effect(1))
  have empty: "pending_events s = []" if "n \<noteq> 0"
    using h(3) that same(1) by (auto simp: pending_events_def Let_def split: pw_thread.split)
  show "settled (hist s') @ pending_events s' =
      settled (hist s) @ pending_events s @ post_accepted E events ?s1"
    using effect(2,4) empty settled2 size2 same(3)
    by (cases "n = 0") (auto simp: pend post_accepted_def direct)
qed

subsection \<open>The steps of the thread\<close>

lemma count_frame:
  "countNumWakeupEvents E evs n s = Some (c, s') \<Longrightarrow> \<exists>m. s' = s\<lparr>mSensors := m\<rparr>"
  by (auto simp: countNumWakeupEvents_def split: if_splits prod.splits)

lemma pw_write_effect:
  assumes "pw_write E n q w s = Some s'"
  obtains evs w' rest b where "mPendingWriteEventsQueue s = (evs, w') # rest"
    and "mPendingWriteEventsQueue s' = mPendingWriteEventsQueue s"
    and "mSizePendingWriteEventsQueue s' = mSizePendingWriteEventsQueue s"
    and "mMostEventsObservedPendingWriteEventsQueue s' = mMostEventsObservedPendingWriteEventsQueue s"
    and "mPendingWritesThread s' = PwWritten n q"
    and "mThreadsRun s' = mThreadsRun s" and "mEventQueue s' = mEventQueue s"
    and "settled (hist s') = settled (hist s) @ take (unat n) evs"
    and "delivered (hist s') = delivered (hist s) @ (if b then take (unat n) evs else [])"
    and "b = ansBool E (hist s)
      (EventQueueWriteBlocking (take (unat n) evs) (kPendingWriteTimeoutNs E))"
    and "wakelock_inv s \<Longrightarrow> wakelock_inv s'"
proof -
  obtain evs w' rest where front: "mPendingWriteEventsQueue s = (evs, w') # rest"
    using assms by (auto simp: pw_write_def split: list.splits)
  let ?c = "EventQueueWriteBlocking (take (unat n) evs) (kPendingWriteTimeoutNs E)"
  let ?b = "ansBool E (hist s) ?c"
  let ?s1 = "s\<lparr>hist := hist s @ [(?c, ABool ?b)]\<rparr>"
  have inv1: "wakelock_inv s \<Longrightarrow> wakelock_inv (?s1\<lparr>mSensors := m\<rparr>)" "wakelock_inv s \<Longrightarrow> wakelock_inv ?s1" for m
    by (simp_all add: wakelock_inv_def)
  obtain s2 where s': "s' = s2\<lparr>mPendingWritesThread := PwWritten n q\<rparr>" and
    cases: "s2 = ?s1
      \<or> (\<exists>c m. s2 = decrementRefCountAndMaybeReleaseWakelock c (-1) (?s1\<lparr>mSensors := m\<rparr>))
      \<or> (\<exists>c. s2 = decrementRefCountAndMaybeReleaseWakelock c (-1) ?s1)"
    using assms
    by (auto simp: pw_write_def front ext_defs Let_def dest!: count_frame split: if_splits option.splits)
  have s2: "mPendingWriteEventsQueue s2 = (evs, w') # rest"
    "mSizePendingWriteEventsQueue s2 = mSizePendingWriteEventsQueue s"
    "mMostEventsObservedPendingWriteEventsQueue s2 = mMostEventsObservedPendingWriteEventsQueue s"
    "mThreadsRun s2 = mThreadsRun s" "mEventQueue s2 = mEventQueue s"
    "settled (hist s2) = settled (hist s) @ take (unat n) evs"
    "delivered (hist s2) = delivered (hist s) @ (if ?b then take (unat n) evs else [])"
    using cases by (elim disjE exE; simp add: front)+
  have inv2: "wakelock_inv s2" if "wakelock_inv s"
    using cases inv1 [OF that] decrement_inv by auto
  show thesis
    using s2 inv2 by (intro that [of evs w' rest ?b]) (simp_all add: s' front wakelock_inv_def)
qed

lemma pw_end_effect:
  assumes "pending_inv E s" and "mPendingWritesThread s = PwWritten n q"
    and "pw_end n q s = Some s'"
  shows "pending_inv E s'" and "pending_events s' = pending_events s" and "hist s' = hist s"
proof -
  from assms(1,2) obtain evs w rest where front: "mPendingWriteEventsQueue s = (evs, w) # rest"
    and n: "n = min (vsize evs) q"
    by (auto simp: pending_inv_def pw_position_ok_def)
  have evs: "evs \<noteq> []" "vector_ok evs" using assms(1) front by (auto simp: pending_inv_def)
  have un: "unat n = min (length evs) (unat q)"
    using evs by (simp add: n unat_min unat_vsize)
  have less: "q < vsize evs \<longleftrightarrow> unat q < length evs" using evs by (simp add: word_less_nat_alt unat_vsize)
  have size: "unat (mSizePendingWriteEventsQueue s) = length evs + queue_total rest"
    using assms(1) front by (simp add: pending_inv_def)
  then have size': "unat (mSizePendingWriteEventsQueue s - n) = length evs + queue_total rest - unat n"
    by (simp add: unat_diff_le un)
  then have le: "mSizePendingWriteEventsQueue s - n \<le> mSizePendingWriteEventsQueue s"
    by (simp add: word_le_nat_alt size)
  let ?q = "if vsize evs > q then (drop (unat q) evs, w) # rest else rest"
  have s': "s' = s\<lparr>mSizePendingWriteEventsQueue := mSizePendingWriteEventsQueue s - n,
      mPendingWriteEventsQueue := ?q, mPendingWritesThread := PwLoop\<rparr>"
    using assms(3) by (simp add: pw_end_def front)
  have "queue_total ?q = length evs + queue_total rest - unat n"
    using less by (auto simp: un)
  moreover have "batches_ok ?q"
    using assms(1) front less by (auto simp: pending_inv_def vector_ok_def)
  ultimately show "pending_inv E s'"
    using assms(1) size' le by (auto simp: pending_inv_def s' pw_position_ok_def)
  show "hist s' = hist s" by (simp add: s')
  show "pending_events s' = pending_events s"
    using less by (auto simp: pending_events_def s' front assms(2) un)
qed

lemma pw_begin_effect:
  assumes "pending_inv E s" and "mPendingWritesThread s = PwLoop" and "pw_begin E s = Some s'"
  shows "pending_inv E s'" and "settled (hist s') = settled (hist s)"
    and "pending_events s' = pending_events s" and "wakelock_inv s' = wakelock_inv s"
proof -
  have "pending_inv E s' \<and> settled (hist s') = settled (hist s)
    \<and> pending_events s' = pending_events s \<and> wakelock_inv s' = wakelock_inv s"
    using assms
    by (auto simp: pw_begin_def pending_inv_def pw_position_ok_def pending_events_def
        wakelock_inv_def ext_defs Let_def split: if_splits list.splits)
  then show "pending_inv E s'" "settled (hist s') = settled (hist s)"
    "pending_events s' = pending_events s" "wakelock_inv s' = wakelock_inv s" by auto
qed

lemma pw_step_effect:
  assumes inv: "pending_inv E s" and step: "pw_step E s = Some s'"
  shows "pending_inv E s'"
    and "settled (hist s') @ pending_events s' = settled (hist s) @ pending_events s"
    and "wakelock_inv s \<Longrightarrow> wakelock_inv s'"
proof -
  have "pending_inv E s' \<and> settled (hist s') @ pending_events s' = settled (hist s) @ pending_events s
    \<and> (wakelock_inv s \<longrightarrow> wakelock_inv s')"
  proof (cases "mPendingWritesThread s")
    case PwLoop
    with step have "pw_begin E s = Some s'" by (simp add: pw_step_def)
    from pw_begin_effect [OF inv PwLoop this] show ?thesis by simp
  next
    case (PwWriting n q w)
    then have "pw_write E n q w s = Some s'" using step by (simp add: pw_step_def)
    from pw_write_effect [OF this] obtain evs w' rest where
      eff: "mPendingWriteEventsQueue s = (evs, w') # rest"
       "mPendingWriteEventsQueue s' = mPendingWriteEventsQueue s"
       "mSizePendingWriteEventsQueue s' = mSizePendingWriteEventsQueue s"
       "mMostEventsObservedPendingWriteEventsQueue s' = mMostEventsObservedPendingWriteEventsQueue s"
       "mPendingWritesThread s' = PwWritten n q"
       "settled (hist s') = settled (hist s) @ take (unat n) evs"
       "wakelock_inv s \<Longrightarrow> wakelock_inv s'" by metis
    with inv PwWriting have front: "n = min (vsize evs) q" "unat n \<le> length evs"
      using unat_vsize_le [of evs] by (auto simp: pending_inv_def pw_position_ok_def unat_min)
    have "pending_inv E s'"
      using inv eff front by (auto simp: pending_inv_def pw_position_ok_def)
    moreover have "pending_events s = take (unat n) evs @ pending_events s'"
      using eff front(2) PwWriting by (simp add: pending_events_def)
    ultimately show ?thesis using eff(6,7) by simp
  next
    case (PwWritten n q)
    with step have "pw_end n q s = Some s'" by (simp add: pw_step_def)
    from pw_end_effect [OF inv PwWritten this] this show ?thesis
      by (auto simp: wakelock_inv_def pw_end_def split: list.splits)
  qed (use inv step in \<open>simp_all add: pw_step_def\<close>)
  then show "pending_inv E s'" "settled (hist s') @ pending_events s' = settled (hist s) @ pending_events s"
    "wakelock_inv s \<Longrightarrow> wakelock_inv s'" by auto
qed

end
