(* ===== verification/Hal_Threads.thy ===== *)
theory Hal_Threads
  imports Pending_Delivery
begin

text \<open>
  The thread \<open>handleWakelocks\<close> of \<open>sensors/HalProxy.cpp\<close>, in the same style as the pending-writes
  thread: \<open>wl_begin\<close> is the part under \<open>mWakelockMutex\<close> up to \<open>lock.unlock()\<close>, \<open>wl_read\<close> the
  blocking read of the framework's acknowledgement, \<open>wl_end\<close> the part after \<open>lock.lock()\<close>.
\<close>

subsection \<open>The thread\<close>

text \<open>The condition of \<open>mWakelockCV.wait\<close>.\<close>

definition wl_ready :: "hal_proxy \<Rightarrow> bool" where
  "wl_ready s \<longleftrightarrow> mWakelockRefCount s > 0 \<or> \<not> mThreadsRun s"

definition wl_begin :: "hal_env \<Rightarrow> hal_proxy \<Rightarrow> hal_proxy" where
  "wl_begin E s =
     (if \<not> mThreadsRun s then (resetSharedWakelock E s)\<lparr>mWakelockThread := WlExited\<rparr>
      else if \<not> wl_ready s then s
      else
        case sharedWakelockDidTimeout E s of
          ((True, _), s1) \<Rightarrow> resetSharedWakelock E s1
        | ((False, Some timeLeft), s1) \<Rightarrow> s1\<lparr>mWakelockThread := WlReading timeLeft\<rparr>
        | ((False, None), s1) \<Rightarrow> s1)"

definition wl_read :: "hal_env \<Rightarrow> int \<Rightarrow> hal_proxy \<Rightarrow> hal_proxy option" where
  "wl_read E timeLeft s =
     (if mWakeLockQueue s = None then None
      else
        let (numWakeLocksProcessed, s1) = call_count E (WakeLockQueueReadBlocking timeLeft) s
        in Some (s1\<lparr>mWakelockThread := WlRead numWakeLocksProcessed\<rparr>))"

definition wl_end :: "uint32 option \<Rightarrow> hal_proxy \<Rightarrow> hal_proxy" where
  "wl_end numWakeLocksProcessed s =
     (let s1 = (case numWakeLocksProcessed of
                  None \<Rightarrow> s
                | Some n \<Rightarrow> decrementRefCountAndMaybeReleaseWakelock (ucast n) (-1) s)
      in s1\<lparr>mWakelockThread := WlLoop\<rparr>)"

definition wl_step :: "hal_env \<Rightarrow> hal_proxy \<Rightarrow> hal_proxy option" where
  "wl_step E s =
     (case mWakelockThread s of
        WlLoop \<Rightarrow> Some (wl_begin E s)
      | WlReading timeLeft \<Rightarrow> wl_read E timeLeft s
      | WlRead r \<Rightarrow> Some (wl_end r s)
      | _ \<Rightarrow> Some s)"

definition wl_turn :: "hal_env \<Rightarrow> hal_proxy \<Rightarrow> hal_proxy option" where
  "wl_turn E s =
     Option.bind (wl_step E s) (\<lambda>s1. Option.bind (wl_step E s1) (wl_step E))"

subsection \<open>What a step of the thread keeps\<close>

lemma wl_begin_unfold:
  "wl_begin E s =
     (let now = ansTime E (hist s);
          s1 = s\<lparr>hist := hist s @ [(GetTimeNow, ATime now)]\<rparr>
      in if \<not> mThreadsRun s then (resetSharedWakelock E s)\<lparr>mWakelockThread := WlExited\<rparr>
         else if mWakelockRefCount s = 0 then s
         else if kWakelockTimeoutNs E < now - mWakelockTimeoutStartTime s
         then resetSharedWakelock E s1
         else s1\<lparr>mWakelockThread :=
                WlReading (kWakelockTimeoutNs E - (now - mWakelockTimeoutStartTime s))\<rparr>)"
  by (simp add: wl_begin_def wl_ready_def sharedWakelockDidTimeout_def ext_defs Let_def word_gt_0)

lemma wakelock_inv_cong:
  "hist s' = hist s \<Longrightarrow> mWakelockRefCount s' = mWakelockRefCount s \<Longrightarrow> wakelock_inv s' = wakelock_inv s"
  by (simp add: wakelock_inv_def)

lemma wakelock_inv_other_call:
  "c \<noteq> AcquireWakeLock \<Longrightarrow> c \<noteq> ReleaseWakeLock \<Longrightarrow>
     wakelock_inv (s\<lparr>hist := hist s @ [(c, a)]\<rparr>) = wakelock_inv s"
  by (simp add: wakelock_inv_def)

lemma wl_begin_inv: "wakelock_inv s \<Longrightarrow> wakelock_inv (wl_begin E s)"
  by (auto simp: wl_begin_unfold Let_def wakelock_inv_other_call reset_inv
      wakelock_inv_cong [of "X\<lparr>mWakelockThread := t\<rparr>" X for X t])

lemma wl_read_inv: "wl_read E t s = Some s' \<Longrightarrow> wakelock_inv s \<Longrightarrow> wakelock_inv s'"
  by (auto simp: wl_read_def ext_defs Let_def wakelock_inv_def split: if_splits)

lemma wl_end_inv: "wakelock_inv s \<Longrightarrow> wakelock_inv (wl_end r s)"
  by (auto simp: wl_end_def Let_def decrement_inv
      wakelock_inv_cong [of "X\<lparr>mWakelockThread := t\<rparr>" X for X t] split: option.split)

lemma wl_step_cases:
  assumes "wl_step E s = Some s'"
  obtains "s' = s" | "s' = wl_begin E s" "mWakelockThread s = WlLoop"
  | t where "wl_read E t s = Some s'" "mWakelockThread s = WlReading t"
  | r where "s' = wl_end r s" "mWakelockThread s = WlRead r"
proof (cases "mWakelockThread s")
  case WlLoop with assms show thesis by (intro that(2)) (simp_all add: wl_step_def)
next
  case (WlReading t) with assms show thesis by (intro that(3)) (simp_all add: wl_step_def)
next
  case (WlRead r) with assms show thesis by (intro that(4)) (simp_all add: wl_step_def)
qed (use assms in \<open>auto intro: that(1) simp: wl_step_def\<close>)

definition wl_frame :: "hal_proxy \<Rightarrow> hal_proxy \<Rightarrow> bool" where
  "wl_frame s s' \<longleftrightarrow>
     mPendingWriteEventsQueue s' = mPendingWriteEventsQueue s
     \<and> mPendingWritesThread s' = mPendingWritesThread s
     \<and> mSizePendingWriteEventsQueue s' = mSizePendingWriteEventsQueue s
     \<and> mMostEventsObservedPendingWriteEventsQueue s' = mMostEventsObservedPendingWriteEventsQueue s
     \<and> settled (hist s') = settled (hist s) \<and> delivered (hist s') = delivered (hist s)
     \<and> mThreadsRun s' = mThreadsRun s \<and> mEventQueue s' = mEventQueue s
     \<and> mWakeLockQueue s' = mWakeLockQueue s \<and> mSensors s' = mSensors s
     \<and> mDynamicSensors s' = mDynamicSensors s \<and> mSubHalList s' = mSubHalList s
     \<and> mEventQueueFlag s' = mEventQueueFlag s
     \<and> mDirectChannelSubHal s' = mDirectChannelSubHal s
     \<and> mDynamicSensorsCallback s' = mDynamicSensorsCallback s"

lemma wl_step_frame: "wl_step E s = Some s' \<Longrightarrow> wl_frame s s'"
proof (erule wl_step_cases)
  show "s' = s \<Longrightarrow> wl_frame s s'" by (simp add: wl_frame_def)
  show "s' = wl_begin E s \<Longrightarrow> wl_frame s s'" by (simp add: wl_frame_def wl_begin_unfold Let_def)
  show "\<And>t. wl_read E t s = Some s' \<Longrightarrow> wl_frame s s'"
    by (auto simp: wl_frame_def wl_read_def ext_defs Let_def split: if_splits)
  show "\<And>r. s' = wl_end r s \<Longrightarrow> wl_frame s s'"
    by (simp add: wl_frame_def wl_end_def Let_def split: option.split)
qed

lemma wl_step_inv: "wl_step E s = Some s' \<Longrightarrow> wakelock_inv s \<Longrightarrow> wakelock_inv s'"
  by (erule wl_step_cases) (auto intro: wl_begin_inv wl_read_inv wl_end_inv)

subsection \<open>One turn, and the release of the wake lock\<close>

fun wl_turns :: "hal_env \<Rightarrow> nat \<Rightarrow> hal_proxy \<Rightarrow> hal_proxy option" where
  "wl_turns E 0 s = Some s"
| "wl_turns E (Suc k) s = Option.bind (wl_turn E s) (wl_turns E k)"

definition wl_running :: "hal_proxy \<Rightarrow> bool" where
  "wl_running s \<longleftrightarrow> mThreadsRun s \<and> mWakelockThread s = WlLoop \<and> mWakeLockQueue s \<noteq> None"

text \<open>What the framework acknowledges in the turn that starts in \<open>s\<close>.\<close>

definition wl_ack :: "hal_env \<Rightarrow> hal_proxy \<Rightarrow> nat" where
  "wl_ack E s =
     (let now = ansTime E (hist s);
          timeLeft = kWakelockTimeoutNs E - (now - mWakelockTimeoutStartTime s)
      in case ansCount E (hist s @ [(GetTimeNow, ATime now)]) (WakeLockQueueReadBlocking timeLeft) of
           None \<Rightarrow> 0 | Some n \<Rightarrow> unat n)"

definition wl_timed_out :: "hal_env \<Rightarrow> hal_proxy \<Rightarrow> bool" where
  "wl_timed_out E s \<longleftrightarrow>
     kWakelockTimeoutNs E < ansTime E (hist s) - mWakelockTimeoutStartTime s"

text \<open>Every call takes time.\<close>

definition clock_advances :: "hal_env \<Rightarrow> bool" where
  "clock_advances E \<longleftrightarrow> (\<forall>h e. ansTime E h < ansTime E (h @ [e]))"

lemma clock_advances_append:
  "clock_advances E \<Longrightarrow> h' \<noteq> [] \<Longrightarrow> ansTime E h < ansTime E (h @ h')"
proof (induction h' rule: rev_induct)
  case (snoc e h')
  have "ansTime E (h @ h') < ansTime E ((h @ h') @ [e])"
    using snoc.prems(1) unfolding clock_advances_def by blast
  with snoc show ?case by (cases "h' = []") auto
qed simp

lemma decrement_hist:
  "\<exists>h. hist (decrementRefCountAndMaybeReleaseWakelock d t s) = hist s @ h"
  by (auto simp: wakelock_defs ext_defs Let_def)

lemma wl_end_hist: "\<exists>h. hist (wl_end r s) = hist s @ h"
  using decrement_hist by (auto simp: wl_end_def split: option.split)

lemma decrement_start [simp]:
  "mWakelockTimeoutStartTime (decrementRefCountAndMaybeReleaseWakelock d t s) = mWakelockTimeoutStartTime s"
  by (simp add: wakelock_defs ext_defs Let_def)

lemma wl_turn_timed_out:
  assumes "wl_running s" "mWakelockRefCount s \<noteq> 0" "wl_timed_out E s"
  shows "\<exists>s'. wl_turn E s = Some s' \<and> wl_running s' \<and> mWakelockRefCount s' = 0"
proof -
  let ?s1 = "s\<lparr>hist := hist s @ [(GetTimeNow, ATime (ansTime E (hist s)))]\<rparr>"
  let ?r = "resetSharedWakelock E ?s1"
  have run: "mThreadsRun s" "mWakelockThread s = WlLoop" "mWakeLockQueue s \<noteq> None"
    using assms(1) by (simp_all add: wl_running_def)
  have expired: "wl_step E s = Some ?r"
    using assms(2,3) run by (simp add: wl_step_def wl_begin_unfold Let_def wl_timed_out_def)
  have zero: "mWakelockRefCount ?r = 0" using run by (simp add: reset_count)
  have "wl_step E ?r = Some ?r"
    using run zero by (simp add: wl_step_def wl_begin_unfold Let_def)
  with expired zero run show ?thesis by (simp add: wl_turn_def wl_running_def)
qed

lemma unat_ucast_32_64: "unat (ucast (n :: uint32) :: size_t) = unat n"
  using unsigned_less [of n, where ?'a = nat]
  by (simp add: unsigned_ucast_eq take_bit_nat_eq_self_iff)

lemma wl_turn_acknowledged:
  assumes "wl_running s" "mWakelockRefCount s \<noteq> 0" "\<not> wl_timed_out E s"
  shows "\<exists>s' h. wl_turn E s = Some s' \<and> wl_running s'
    \<and> unat (mWakelockRefCount s') = unat (mWakelockRefCount s) - wl_ack E s
    \<and> mWakelockTimeoutStartTime s' = mWakelockTimeoutStartTime s
    \<and> hist s' = hist s @ h \<and> h \<noteq> []"
proof -
  let ?now = "ansTime E (hist s)"
  let ?h1 = "hist s @ [(GetTimeNow, ATime ?now)]"
  let ?left = "kWakelockTimeoutNs E - (?now - mWakelockTimeoutStartTime s)"
  let ?r = "ansCount E ?h1 (WakeLockQueueReadBlocking ?left)"
  let ?s1 = "s\<lparr>hist := ?h1, mWakelockThread := WlReading ?left\<rparr>"
  let ?s2 = "?s1\<lparr>hist := ?h1 @ [(WakeLockQueueReadBlocking ?left, ACount ?r)], mWakelockThread := WlRead ?r\<rparr>"
  have run: "mThreadsRun s" "mWakelockThread s = WlLoop" "mWakeLockQueue s \<noteq> None"
    using assms(1) by (simp_all add: wl_running_def)
  have steps: "wl_step E s = Some ?s1" "wl_step E ?s1 = Some ?s2"
    using assms(2,3) run
    by (auto simp: wl_step_def wl_begin_unfold wl_read_def ext_defs Let_def wl_timed_out_def)
  have end_step: "wl_step E ?s2 = Some (wl_end ?r ?s2)"
    by (subst wl_step_def) simp
  have turn: "wl_turn E s = Some (wl_end ?r ?s2)"
    by (simp only: wl_turn_def steps end_step Option.bind.simps)
  obtain h' where "hist (wl_end ?r ?s2) = hist ?s2 @ h'" using wl_end_hist by blast
  then obtain h where h: "hist (wl_end ?r ?s2) = hist s @ h" "h \<noteq> []" by simp
  have "unat (mWakelockRefCount (wl_end ?r ?s2)) = unat (mWakelockRefCount s) - wl_ack E s"
    using run
    by (auto simp: wl_end_def wl_ack_def Let_def decrement_default_count unat_ucast_32_64
        split: option.split)
  moreover have "wl_running (wl_end ?r ?s2)"
    "mWakelockTimeoutStartTime (wl_end ?r ?s2) = mWakelockTimeoutStartTime s"
    using run by (auto simp: wl_running_def wl_end_def split: option.split)
  ultimately show ?thesis
    using h turn by blast
qed

lemma wl_turns_release:
  assumes "clock_advances E" "wl_running s"
    and "nat (kWakelockTimeoutNs E - (ansTime E (hist s) - mWakelockTimeoutStartTime s)) = m"
  shows "\<exists>k \<le> m + 2. \<exists>s'. wl_turns E k s = Some s' \<and> wl_running s' \<and> mWakelockRefCount s' = 0"
  using assms(2,3)
proof (induction m arbitrary: s rule: less_induct)
  case (less m)
  show ?case
  proof (cases "mWakelockRefCount s = 0")
    case True
    with less.prems show ?thesis by (intro exI [of _ 0]) simp
  next
    case count: False
    show ?thesis
    proof (cases "wl_timed_out E s")
      case True
      from wl_turn_timed_out [OF less.prems(1) count this] obtain s' where
        "wl_turn E s = Some s'" "wl_running s'" "mWakelockRefCount s' = 0" by blast
      then show ?thesis by (intro exI [of _ 1]) simp
    next
      case False
      from wl_turn_acknowledged [OF less.prems(1) count this] obtain s1 h where
        s1: "wl_turn E s = Some s1" "wl_running s1"
          "mWakelockTimeoutStartTime s1 = mWakelockTimeoutStartTime s" "hist s1 = hist s @ h" "h \<noteq> []"
        by blast
      let ?m1 = "nat (kWakelockTimeoutNs E - (ansTime E (hist s1) - mWakelockTimeoutStartTime s1))"
      have later: "ansTime E (hist s) < ansTime E (hist s1)"
        using clock_advances_append [OF assms(1) s1(5)] s1(4) by simp
      show ?thesis
      proof (cases "?m1 < m")
        case True
        from less.IH [OF True s1(2) refl] obtain k s' where
          "k \<le> ?m1 + 2" "wl_turns E k s1 = Some s'" "wl_running s'" "mWakelockRefCount s' = 0" by blast
        with True s1(1) show ?thesis by (intro exI [of _ "Suc k"]) auto
      next
        case ge: False
        with later less.prems(2) s1(3) have out: "wl_timed_out E s1" by (auto simp: wl_timed_out_def)
        show ?thesis
        proof (cases "mWakelockRefCount s1 = 0")
          case True
          with s1 show ?thesis by (intro exI [of _ 1]) simp
        next
          case False
          from wl_turn_timed_out [OF s1(2) this out] obtain s' where
            "wl_turn E s1 = Some s'" "wl_running s'" "mWakelockRefCount s' = 0" by blast
          with s1(1) show ?thesis by (intro exI [of _ 2]) (simp add: numeral_2_eq_2)
        qed
      qed
    qed
  qed
qed

lemma wl_turn_inv: "wl_turn E s = Some s' \<Longrightarrow> wakelock_inv s \<Longrightarrow> wakelock_inv s'"
  by (auto simp: wl_turn_def bind_eq_Some_conv dest!: wl_step_inv)

lemma wl_turns_inv: "wl_turns E k s = Some s' \<Longrightarrow> wakelock_inv s \<Longrightarrow> wakelock_inv s'"
  by (induction k arbitrary: s) (auto simp: bind_eq_Some_conv intro: wl_turn_inv)

subsection \<open>Properties\<close>

text \<open>
  One turn of the wakelock thread while the count is positive: after the time-out the count
  becomes zero; before it, the count is lowered by what the framework acknowledges, at most to
  zero. Either way the kernel wake lock is held afterwards exactly when the count is positive.
\<close>

lemma wakelock_thread_turn:
  assumes "wl_running s" and "wakelock_inv s" and "mWakelockRefCount s \<noteq> 0"
  shows "\<exists>s'. wl_turn E s = Some s' \<and> wl_running s'
    \<and> unat (mWakelockRefCount s') =
        (if wl_timed_out E s then 0 else unat (mWakelockRefCount s) - wl_ack E s)
    \<and> (wakelock_held (hist s') \<longleftrightarrow> mWakelockRefCount s' \<noteq> 0)"
proof -
  obtain s' where "wl_turn E s = Some s'" "wl_running s'"
    "unat (mWakelockRefCount s') =
        (if wl_timed_out E s then 0 else unat (mWakelockRefCount s) - wl_ack E s)"
    using wl_turn_timed_out [OF assms(1,3), of E] wl_turn_acknowledged [OF assms(1,3), of E]
    by (cases "wl_timed_out E s") auto
  moreover from this(1) have "wakelock_inv s'" using assms(2) by (rule wl_turn_inv)
  ultimately show ?thesis by (auto simp: wakelock_inv_def)
qed

definition held_proxy :: hal_proxy where
  "held_proxy = (snd (incrementRefCountAndMaybeAcquireWakelock quiet_env 3 empty_proxy))
     \<lparr>mWakelockThread := WlLoop, mWakeLockQueue := Some 0\<rparr>"

lemma held_proxy_ok: "wl_running held_proxy" "wakelock_inv held_proxy" "mWakelockRefCount held_proxy = 3"
  by (simp_all add: held_proxy_def empty_proxy_def wl_running_def wakelock_inv_def wakelock_defs
      ext_defs Let_def quiet_env_def wakelock_held_def)

text \<open>
  C11: the wake lock is not held for ever: with a clock that advances and no further increment, the
  wakelock thread brings the count to zero and releases the kernel wake lock after finitely many
  turns, whether or not the framework ever acknowledges an event.
\<close>

theorem wakelock_released_eventually:
  assumes "clock_advances E" and "wl_running s" and "wakelock_inv s"
  shows "\<exists>k s'. wl_turns E k s = Some s' \<and> mWakelockRefCount s' = 0 \<and> \<not> wakelock_held (hist s')"
proof -
  obtain k s' where "wl_turns E k s = Some s'" "mWakelockRefCount s' = 0"
    using wl_turns_release [OF assms(1,2) refl] by blast
  with wl_turns_inv [OF this(1) assms(3)] show ?thesis by (auto simp: wakelock_inv_def)
qed

theorem wakelock_released_eventually_witness:
  "wakelock_held (hist held_proxy)
   \<and> (\<exists>k s'. wl_turns (quiet_env\<lparr>ansCount := \<lambda>_ _. None\<rparr>) k held_proxy = Some s'
        \<and> \<not> wakelock_held (hist s'))"
proof -
  have "clock_advances (quiet_env\<lparr>ansCount := \<lambda>_ _. None\<rparr>)"
    by (simp add: clock_advances_def quiet_env_def)
  from wakelock_released_eventually [OF this held_proxy_ok(1,2)] show ?thesis
    using held_proxy_ok(2,3) by (auto simp: wakelock_inv_def)
qed

end
