(* ===== verification/Dynamic_Sensors.thy ===== *)
theory Dynamic_Sensors
  imports Sensor_List
begin

text \<open>
  Dynamic sensors of \<open>sensors/HalProxy.cpp\<close>: a sub-HAL announces sensors that appear and disappear
  while the system runs; the proxy keeps them in \<open>mDynamicSensors\<close> under handles joined with the
  sub-HAL's index and passes the announcement on to the framework.
\<close>

subsection \<open>Operations\<close>

fun addDynamicSensors ::
  "hal_env \<Rightarrow> int32 \<Rightarrow> SensorInfo list \<Rightarrow> sensor_map \<times> SensorInfo list
     \<Rightarrow> sensor_map \<times> SensorInfo list" where
  "addDynamicSensors E subHalIndex [] (m, sensors) = (m, sensors)"
| "addDynamicSensors E subHalIndex (sensor # added) (m, sensors) =
     (if \<not> subHalIndexIsClear (kSensorHandleSubHalIndexMask E) (si_sensorHandle sensor)
      then addDynamicSensors E subHalIndex added (m, sensors)
      else
        let sensor' = sensor\<lparr>si_sensorHandle :=
              setSubHalIndex (si_sensorHandle sensor) (scast subHalIndex)\<rparr>
        in addDynamicSensors E subHalIndex added
             (map_put (si_sensorHandle sensor') sensor' m, sensors @ [sensor']))"

text \<open>\<open>None\<close>: the callback pointer is null, as before the first \<open>initialize\<close>.\<close>

definition onDynamicSensorsConnected ::
  "hal_env \<Rightarrow> SensorInfo list \<Rightarrow> int32 \<Rightarrow> hal_proxy \<Rightarrow> hal_proxy option" where
  "onDynamicSensorsConnected E dynamicSensorsAdded subHalIndex s =
     (let (m, sensors) = addDynamicSensors E subHalIndex dynamicSensorsAdded (mDynamicSensors s, []);
          s1 = s\<lparr>mDynamicSensors := m\<rparr>
      in case mDynamicSensorsCallback s1 of
           None \<Rightarrow> None
         | Some cb \<Rightarrow> Some (do_call (CbDynamicSensorsConnected sensors) s1))"

fun removeDynamicSensors ::
  "hal_env \<Rightarrow> int32 \<Rightarrow> int32 list \<Rightarrow> sensor_map \<times> int32 list \<Rightarrow> sensor_map \<times> int32 list" where
  "removeDynamicSensors E subHalIndex [] (m, handles) = (m, handles)"
| "removeDynamicSensors E subHalIndex (sensorHandle # removed) (m, handles) =
     (if \<not> subHalIndexIsClear (kSensorHandleSubHalIndexMask E) sensorHandle
      then removeDynamicSensors E subHalIndex removed (m, handles)
      else
        let sensorHandle' = setSubHalIndex sensorHandle (scast subHalIndex)
        in if map_find m sensorHandle' \<noteq> None
           then removeDynamicSensors E subHalIndex removed
                  (map_erase sensorHandle' m, handles @ [sensorHandle'])
           else removeDynamicSensors E subHalIndex removed (m, handles))"

definition onDynamicSensorsDisconnected ::
  "hal_env \<Rightarrow> int32 list \<Rightarrow> int32 \<Rightarrow> hal_proxy \<Rightarrow> hal_proxy option" where
  "onDynamicSensorsDisconnected E dynamicSensorHandlesRemoved subHalIndex s =
     (let (m, sensorHandles) =
            removeDynamicSensors E subHalIndex dynamicSensorHandlesRemoved (mDynamicSensors s, []);
          s1 = s\<lparr>mDynamicSensors := m\<rparr>
      in case mDynamicSensorsCallback s1 of
           None \<Rightarrow> None
         | Some cb \<Rightarrow> Some (do_call (CbDynamicSensorsDisconnected sensorHandles) s1))"

subsection \<open>The two loops as folds over the table\<close>

definition dynamic_handle :: "int32 \<Rightarrow> int32 \<Rightarrow> int32" where
  "dynamic_handle subHalIndex h = setSubHalIndex h (scast subHalIndex)"

definition as_published :: "int32 \<Rightarrow> SensorInfo \<Rightarrow> SensorInfo" where
  "as_published subHalIndex x =
     x\<lparr>si_sensorHandle := dynamic_handle subHalIndex (si_sensorHandle x)\<rparr>"

definition acceptable :: "hal_env \<Rightarrow> int32 \<Rightarrow> bool" where
  "acceptable E h \<longleftrightarrow> subHalIndexIsClear (kSensorHandleSubHalIndexMask E) h"

definition accepted_sensors :: "hal_env \<Rightarrow> int32 \<Rightarrow> SensorInfo list \<Rightarrow> SensorInfo list" where
  "accepted_sensors E subHalIndex added =
     map (as_published subHalIndex) (filter (\<lambda>x. acceptable E (si_sensorHandle x)) added)"

lemma addDynamicSensors_fold:
  "addDynamicSensors E i added (m, sensors) =
     (fold (\<lambda>x. map_put (si_sensorHandle x) x) (accepted_sensors E i added) m,
      sensors @ accepted_sensors E i added)"
  by (induction E i added "(m, sensors)" arbitrary: m sensors rule: addDynamicSensors.induct)
     (simp_all add: accepted_sensors_def as_published_def acceptable_def dynamic_handle_def Let_def)

definition accepted_handles :: "hal_env \<Rightarrow> int32 \<Rightarrow> int32 list \<Rightarrow> int32 list" where
  "accepted_handles E subHalIndex hs = map (dynamic_handle subHalIndex) (filter (acceptable E) hs)"

lemma map_erase_absent: "map_find m k = None \<Longrightarrow> map_erase k m = m"
  by (force simp: map_find_def map_erase_def map_of_eq_None_iff filter_id_conv)

lemma accepted_handles_Cons:
  "accepted_handles E i (h # hs) =
     (if acceptable E h then dynamic_handle i h # accepted_handles E i hs
      else accepted_handles E i hs)"
  by (simp add: accepted_handles_def)

lemma removeDynamicSensors_Cons:
  "removeDynamicSensors E i (h # hs) (m, acc) =
     (if acceptable E h \<and> map_find m (dynamic_handle i h) \<noteq> None
      then removeDynamicSensors E i hs
             (map_erase (dynamic_handle i h) m, acc @ [dynamic_handle i h])
      else removeDynamicSensors E i hs (m, acc))"
  by (simp add: acceptable_def dynamic_handle_def Let_def)

declare removeDynamicSensors.simps(2) [simp del]

lemma removeDynamicSensors_map:
  "fst (removeDynamicSensors E i hs (m, acc)) = fold map_erase (accepted_handles E i hs) m"
  by (induction hs arbitrary: m acc)
     (simp_all add: removeDynamicSensors_Cons accepted_handles_Cons map_erase_absent accepted_handles_def)

lemma removeDynamicSensors_handles:
  "\<exists>gone. snd (removeDynamicSensors E i hs (m, acc)) = acc @ gone \<and> distinct gone
     \<and> set gone = {k \<in> set (accepted_handles E i hs). map_find m k \<noteq> None}"
proof (induction hs arbitrary: m acc)
  case (Cons h hs)
  let ?k = "dynamic_handle i h"
  show ?case
  proof (cases "acceptable E h \<and> map_find m ?k \<noteq> None")
    case True
    from Cons.IH [of "map_erase ?k m" "acc @ [?k]"] obtain gone where
      "snd (removeDynamicSensors E i hs (map_erase ?k m, acc @ [?k])) = (acc @ [?k]) @ gone"
      "distinct gone"
      "set gone = {k \<in> set (accepted_handles E i hs). map_find (map_erase ?k m) k \<noteq> None}"
      by blast
    with True show ?thesis
      by (intro exI [of _ "?k # gone"])
         (auto simp: removeDynamicSensors_Cons accepted_handles_Cons split: if_splits)
  next
    case False
    with Cons.IH [of m acc] show ?thesis
      by (auto simp: removeDynamicSensors_Cons accepted_handles_Cons)
  qed
qed (simp add: accepted_handles_def)

lemma removeDynamicSensors_all_present:
  assumes "distinct (accepted_handles E i hs)" "\<forall>k \<in> set (accepted_handles E i hs). map_find m k \<noteq> None"
  shows "snd (removeDynamicSensors E i hs (m, acc)) = acc @ accepted_handles E i hs"
  using assms
proof (induction hs arbitrary: m acc)
  case (Cons h hs)
  show ?case
  proof (cases "acceptable E h")
    case True
    with Cons.prems have "\<forall>k \<in> set (accepted_handles E i hs).
        map_find (map_erase (dynamic_handle i h) m) k \<noteq> None"
      by (auto simp: accepted_handles_Cons)
    with True Cons show ?thesis by (simp add: removeDynamicSensors_Cons accepted_handles_Cons)
  next
    case False
    with Cons show ?thesis by (simp add: removeDynamicSensors_Cons accepted_handles_Cons)
  qed
qed (simp add: accepted_handles_def)

lemma distinct_accepted_handles:
  assumes "mask_documented E" and "distinct hs"
  shows "distinct (accepted_handles E i hs)"
proof -
  have "distinct (map (\<lambda>h. setSubHalIndex h (scast i)) (filter (acceptable E) hs))"
    using assms by (intro codec.distinct_put) (auto simp: acceptable_def mask_documented_def)
  then show ?thesis by (simp add: accepted_handles_def dynamic_handle_def [abs_def])
qed

lemma handles_of_accepted:
  "map si_sensorHandle (accepted_sensors E i added)
     = accepted_handles E i (map si_sensorHandle added)"
  by (simp add: accepted_sensors_def accepted_handles_def as_published_def filter_map comp_def)

abbreviation put_sensors :: "SensorInfo list \<Rightarrow> sensor_map \<Rightarrow> sensor_map" where
  "put_sensors xs m \<equiv> fold (\<lambda>x. map_put (si_sensorHandle x) x) xs m"

lemma find_put_sensors_other:
  "map_ok m \<Longrightarrow> k \<notin> si_sensorHandle ` set xs \<Longrightarrow> map_find (put_sensors xs m) k = map_find m k"
  by (induction xs arbitrary: m) auto

lemma find_put_sensors:
  "map_ok m \<Longrightarrow> distinct (map si_sensorHandle xs) \<Longrightarrow> x \<in> set xs \<Longrightarrow>
     map_find (put_sensors xs m) (si_sensorHandle x) = Some x"
  by (induction xs arbitrary: m) (auto simp: find_put_sensors_other)

subsection \<open>Properties\<close>

text \<open>
  C24: connecting dynamic sensors of sub-HAL \<open>i\<close>: the framework is told exactly the sensors whose
  first byte was zero, under their joined handles and in order; each of them can be looked up
  afterwards, and no other entry of the table changes.
\<close>

theorem dynamic_sensors_connected:
  assumes "mask_documented E" and "map_ok (mDynamicSensors s)"
    and "mDynamicSensorsCallback s = Some cb" and "distinct (map si_sensorHandle added)"
  shows "\<exists>s'. onDynamicSensorsConnected E added i s = Some s'
    \<and> hist s' = hist s @ [(CbDynamicSensorsConnected (accepted_sensors E i added), ANone)]
    \<and> (\<forall>x \<in> set (accepted_sensors E i added).
         map_find (mDynamicSensors s') (si_sensorHandle x) = Some x)
    \<and> (\<forall>k. k \<notin> si_sensorHandle ` set (accepted_sensors E i added) \<longrightarrow>
         map_find (mDynamicSensors s') k = map_find (mDynamicSensors s) k)"
proof -
  have "distinct (map si_sensorHandle (accepted_sensors E i added))"
    using distinct_accepted_handles [OF assms(1,4)] by (simp add: handles_of_accepted)
  then show ?thesis using assms(2,3)
    by (simp add: onDynamicSensorsConnected_def addDynamicSensors_fold ext_defs
        find_put_sensors find_put_sensors_other)
qed

definition connected_proxy :: hal_proxy where
  "connected_proxy = two_subhals\<lparr>mDynamicSensorsCallback := Some 0\<rparr>"

theorem dynamic_sensors_connected_witness:
  "\<exists>s'. onDynamicSensorsConnected quiet_env [direct_sensor 5, direct_sensor 0x07000001] 1
      connected_proxy = Some s'
    \<and> map_find (mDynamicSensors s') 0x01000005 = Some (direct_sensor 0x01000005)"
proof -
  have acc: "accepted_sensors quiet_env 1 [direct_sensor 5, direct_sensor 0x07000001]
      = [direct_sensor 0x01000005]"
    by (simp add: accepted_sensors_def acceptable_def as_published_def dynamic_handle_def
        direct_sensor_def no_sensor_def quiet_env_def subHalIndexIsClear_def first_byte_mask_def
        setSubHalIndex_def kBitsAfterSubHalIndex_def)
  have "mask_documented quiet_env" "map_ok (mDynamicSensors connected_proxy)"
    "mDynamicSensorsCallback connected_proxy = Some 0"
    "distinct (map si_sensorHandle [direct_sensor 5, direct_sensor 0x07000001])"
    by (simp_all add: mask_documented_def quiet_env_def connected_proxy_def two_subhals_def
        empty_proxy_def direct_sensor_def no_sensor_def)
  from dynamic_sensors_connected [OF this, of 1] show ?thesis
    by (simp add: acc) (auto simp: direct_sensor_def no_sensor_def)
qed

text \<open>
  C25: disconnecting: the framework is told each handle that was really in the table, once, and no
  other; afterwards none of the named handles is in the table and all other entries remain.
\<close>

theorem dynamic_sensors_disconnected:
  assumes "map_ok (mDynamicSensors s)" and "mDynamicSensorsCallback s = Some cb"
  shows "\<exists>s' gone. onDynamicSensorsDisconnected E hs i s = Some s'
    \<and> hist s' = hist s @ [(CbDynamicSensorsDisconnected gone, ANone)]
    \<and> distinct gone
    \<and> set gone = {k \<in> set (accepted_handles E i hs). map_find (mDynamicSensors s) k \<noteq> None}
    \<and> (\<forall>k. map_find (mDynamicSensors s') k =
         (if k \<in> set (accepted_handles E i hs) then None else map_find (mDynamicSensors s) k))"
proof -
  obtain gone where gone: "snd (removeDynamicSensors E i hs (mDynamicSensors s, [])) = gone"
    "distinct gone"
    "set gone = {k \<in> set (accepted_handles E i hs). map_find (mDynamicSensors s) k \<noteq> None}"
    using removeDynamicSensors_handles [of E i hs "mDynamicSensors s" "[]"] by auto
  have "onDynamicSensorsDisconnected E hs i s = Some (do_call (CbDynamicSensorsDisconnected gone)
      (s\<lparr>mDynamicSensors := fold map_erase (accepted_handles E i hs) (mDynamicSensors s)\<rparr>))"
    using assms(2) gone(1) removeDynamicSensors_map [of E i hs "mDynamicSensors s" "[]"]
    by (simp add: onDynamicSensorsDisconnected_def case_prod_beta)
  with gone(2,3) show ?thesis
    by (simp add: ext_defs table.find_fold_erase [OF assms(1)])
qed

theorem dynamic_sensors_disconnected_witness:
  "\<exists>s' gone. onDynamicSensorsDisconnected quiet_env [5, 5] 1
      (connected_proxy\<lparr>mDynamicSensors := [(Key 0x01000005, direct_sensor 0x01000005)]\<rparr>) = Some s'
    \<and> hist s' = hist connected_proxy @ [(CbDynamicSensorsDisconnected gone, ANone)]
    \<and> distinct gone"
proof -
  let ?s = "connected_proxy\<lparr>mDynamicSensors := [(Key 0x01000005, direct_sensor 0x01000005)]\<rparr>"
  have "map_ok (mDynamicSensors ?s)" "mDynamicSensorsCallback ?s = Some 0"
    by (simp_all add: map_ok_def connected_proxy_def)
  from dynamic_sensors_disconnected [OF this, of quiet_env "[5, 5]" 1] show ?thesis by auto
qed

text \<open>
  C17: round trip: connecting new dynamic sensors and disconnecting them again leaves the table as it
  was, and the framework hears of the same handles going that it heard of coming.
\<close>

theorem dynamic_sensors_round_trip:
  assumes "mask_documented E" and "map_ok (mDynamicSensors s)"
    and "mDynamicSensorsCallback s = Some cb" and "distinct (map si_sensorHandle added)"
    and new: "\<forall>x \<in> set (accepted_sensors E i added).
      map_find (mDynamicSensors s) (si_sensorHandle x) = None"
  shows "\<exists>s1 s2. onDynamicSensorsConnected E added i s = Some s1
    \<and> onDynamicSensorsDisconnected E (map si_sensorHandle added) i s1 = Some s2
    \<and> (\<forall>k. map_find (mDynamicSensors s2) k = map_find (mDynamicSensors s) k)
    \<and> hist s2 = hist s @
        [(CbDynamicSensorsConnected (accepted_sensors E i added), ANone),
         (CbDynamicSensorsDisconnected (map si_sensorHandle (accepted_sensors E i added)), ANone)]"
proof -
  let ?acc = "accepted_sensors E i added" and ?hs = "map si_sensorHandle added"
  let ?m1 = "put_sensors ?acc (mDynamicSensors s)"
  let ?s1 = "do_call (CbDynamicSensorsConnected ?acc) (s\<lparr>mDynamicSensors := ?m1\<rparr>)"
  have keys: "accepted_handles E i ?hs = map si_sensorHandle ?acc"
    by (simp add: handles_of_accepted)
  have dist: "distinct (accepted_handles E i ?hs)"
    by (rule distinct_accepted_handles [OF assms(1,4)])
  have ok1: "map_ok ?m1" by (rule table.ok_fold_put [OF assms(2)])
  have present: "\<forall>k \<in> set (accepted_handles E i ?hs). map_find ?m1 k \<noteq> None"
    using find_put_sensors [OF assms(2)] dist by (auto simp: keys)
  have s1: "onDynamicSensorsConnected E added i s = Some ?s1"
    using assms(3) by (simp add: onDynamicSensorsConnected_def addDynamicSensors_fold)
  have "onDynamicSensorsDisconnected E ?hs i ?s1 =
      Some (do_call (CbDynamicSensorsDisconnected (accepted_handles E i ?hs))
        (?s1\<lparr>mDynamicSensors := fold map_erase (accepted_handles E i ?hs) ?m1\<rparr>))"
    using assms(3) removeDynamicSensors_all_present [OF dist present, of "[]"]
      removeDynamicSensors_map [of E i ?hs ?m1 "[]"]
    by (simp add: onDynamicSensorsDisconnected_def case_prod_beta ext_defs)
  moreover have "map_find (fold map_erase (accepted_handles E i ?hs) ?m1) k
      = map_find (mDynamicSensors s) k" for k
    using new find_put_sensors_other [OF assms(2), of k ?acc]
    by (auto simp: table.find_fold_erase [OF ok1] keys)
  ultimately show ?thesis using s1 by (simp add: ext_defs keys)
qed

theorem dynamic_sensors_round_trip_witness:
  "\<exists>s1 s2. onDynamicSensorsConnected quiet_env [direct_sensor 5] 1 connected_proxy = Some s1
    \<and> onDynamicSensorsDisconnected quiet_env [5] 1 s1 = Some s2
    \<and> map_find (mDynamicSensors s2) 0x01000005 = None"
proof -
  have "mask_documented quiet_env" "map_ok (mDynamicSensors connected_proxy)"
    "mDynamicSensorsCallback connected_proxy = Some 0"
    "distinct (map si_sensorHandle [direct_sensor 5])"
    "\<forall>x \<in> set (accepted_sensors quiet_env 1 [direct_sensor 5]).
       map_find (mDynamicSensors connected_proxy) (si_sensorHandle x) = None"
    by (simp_all add: mask_documented_def quiet_env_def connected_proxy_def two_subhals_def
        empty_proxy_def)
  from dynamic_sensors_round_trip [OF this] show ?thesis
    by (auto simp: direct_sensor_def no_sensor_def connected_proxy_def two_subhals_def
        empty_proxy_def)
qed

end
