(* ===== verification/Hal_Initialize.thy ===== *)
theory Hal_Initialize
  imports Hal_Threads Dynamic_Sensors Sub_Hal_Ops
begin

text \<open>
  Start, restart and destruction of the proxy in \<open>sensors/HalProxy.cpp\<close>: \<open>stopThreads\<close>,
  \<open>disableAllSensors\<close>, \<open>initializeCommon\<close> with its two entry points, and the destructor.

  Joining a thread lets it run to its end from where it stands. With \<open>mThreadsRun\<close> false that is at
  most one turn of its loop (\<open>pw_turn\<close>, \<open>wl_turn\<close>): the rest of the turn and the exit.
\<close>

subsection \<open>Operations\<close>

definition stop_event_queue :: "hal_env \<Rightarrow> hal_proxy \<Rightarrow> hal_proxy" where
  "stop_event_queue E s =
     (if mEventQueueFlag s \<and> mEventQueue s \<noteq> None then
        let (numToRead, s1) = call_size E EventQueueAvailableToRead s;
            (_, s2) = call_bool E (EventQueueRead numToRead) s1
        in do_call (EventQueueFlagWake EVENTS_READ) s2
      else s)"

definition stop_wakelock_queue :: "hal_env \<Rightarrow> hal_proxy \<Rightarrow> hal_proxy" where
  "stop_wakelock_queue E s =
     (if mWakelockQueueFlag s \<and> mWakeLockQueue s \<noteq> None then
        let (_, s1) = call_bool E (WakeLockQueueWrite 0) s
        in do_call (WakelockQueueFlagWake DATA_WRITTEN) s1
      else s)"

definition join_pending_writes :: "hal_env \<Rightarrow> hal_proxy \<Rightarrow> hal_proxy option" where
  "join_pending_writes E s =
     (if mPendingWritesThread s = PwNone then Some s
      else map_option (\<lambda>t. t\<lparr>mPendingWritesThread := PwNone\<rparr>)
             (pw_turn E (do_call JoinPendingWritesThread s)))"

definition join_wakelocks :: "hal_env \<Rightarrow> hal_proxy \<Rightarrow> hal_proxy option" where
  "join_wakelocks E s =
     (if mWakelockThread s = WlNone then Some s
      else map_option (\<lambda>t. t\<lparr>mWakelockThread := WlNone\<rparr>)
             (wl_turn E (do_call JoinWakelockThread s)))"

definition stopThreads :: "hal_env \<Rightarrow> hal_proxy \<Rightarrow> hal_proxy option" where
  "stopThreads E s =
     (let s1 = s\<lparr>mThreadsRun := False\<rparr>;
          s2 = stop_wakelock_queue E (stop_event_queue E s1);
          s3 = do_call NotifyEventQueueWriteCV (do_call NotifyWakelockCV s2)
      in Option.bind (join_pending_writes E s3) (join_wakelocks E))"

fun deactivate_each :: "hal_env \<Rightarrow> int32 list \<Rightarrow> hal_proxy \<Rightarrow> hal_proxy" where
  "deactivate_each E [] s = s"
| "deactivate_each E (sensorHandle # hs) s =
     deactivate_each E hs (snd (activate E sensorHandle False s))"

definition disableAllSensors :: "hal_env \<Rightarrow> hal_proxy \<Rightarrow> hal_proxy" where
  "disableAllSensors E s =
     (let s1 = deactivate_each E (map_keys (mSensors s)) s
      in deactivate_each E (map_keys (mDynamicSensors s1)) s1)"

text \<open>
  \<open>EventFlag::createEventFlag\<close> returns a status and leaves a flag or \<open>nullptr\<close> in its out
  parameter; the environment answers both.
\<close>

definition create_event_flags :: "hal_env \<Rightarrow> hal_proxy \<Rightarrow> Result \<times> hal_proxy" where
  "create_event_flags E s =
     (let s1 = (if mEventQueueFlag s
                then (do_call DeleteEventQueueFlag s)\<lparr>mEventQueueFlag := False\<rparr> else s);
          s2 = (if mWakelockQueueFlag s1
                then (do_call DeleteWakelockQueueFlag s1)\<lparr>mWakelockQueueFlag := False\<rparr> else s1);
          (status, s3) = call_result E CreateEventQueueFlag s2;
          s4 = s3\<lparr>mEventQueueFlag := ansBool E (hist s2) CreateEventQueueFlag\<rparr>;
          result = (if status \<noteq> OK then BAD_VALUE else OK);
          (status', s5) = call_result E CreateWakelockQueueFlag s4;
          s6 = s5\<lparr>mWakelockQueueFlag := ansBool E (hist s4) CreateWakelockQueueFlag\<rparr>;
          result' = (if status' \<noteq> OK then BAD_VALUE else result)
      in (result', s6))"

text \<open>The loop over the sub-HALs; the last answer that is not \<open>OK\<close> wins.\<close>

fun initialize_subhals ::
  "hal_env \<Rightarrow> nat list \<Rightarrow> Result \<Rightarrow> hal_proxy \<Rightarrow> Result \<times> hal_proxy" where
  "initialize_subhals E [] result s = (result, s)"
| "initialize_subhals E (i # is) result s =
     (let (currRes, s1) = call_result E (SubInitialize i (of_nat i)) s
      in initialize_subhals E is (if currRes \<noteq> OK then currRes else result) s1)"

text \<open>\<open>None\<close>: a null queue is dereferenced for its event flag word before the null check.\<close>

definition initializeCommon ::
  "hal_env \<Rightarrow> nat option \<Rightarrow> nat option \<Rightarrow> nat option \<Rightarrow> hal_proxy
     \<Rightarrow> (Result \<times> hal_proxy) option" where
  "initializeCommon E eventQueue wakeLockQueue sensorsCallback s =
     (case stopThreads E s of
        None \<Rightarrow> None
      | Some s0 \<Rightarrow>
          let s1 = resetSharedWakelock E s0;
              s2 = disableAllSensors E s1;
              s3 = s2\<lparr>mPendingWriteEventsQueue := [],
                      mSizePendingWriteEventsQueue := 0,
                      mDynamicSensors := map_empty,
                      mDynamicSensorsCallback := sensorsCallback,
                      mEventQueue := eventQueue,
                      mWakeLockQueue := wakeLockQueue\<rparr>
          in if eventQueue = None \<or> wakeLockQueue = None then None
             else
               let (result, s4) = create_event_flags E s3;
                   result' = (if mDynamicSensorsCallback s4 = None \<or> mEventQueue s4 = None
                                 \<or> mWakeLockQueue s4 = None \<or> \<not> mEventQueueFlag s4
                              then BAD_VALUE else result);
                   s5 = (do_call StartThreads (s4\<lparr>mThreadsRun := True\<rparr>))
                          \<lparr>mPendingWritesThread := PwLoop, mWakelockThread := WlLoop\<rparr>;
                   (result'', s6) =
                      initialize_subhals E [0..<length (mSubHalList s5)] result' s5
               in Some (result'', s6\<lparr>mCurrentOperationMode := NORMAL\<rparr>))"

text \<open>The two entry points wrap the framework's queues and callback, which gives pointers that are
  never null.\<close>

definition initialize ::
  "hal_env \<Rightarrow> nat \<Rightarrow> nat \<Rightarrow> nat \<Rightarrow> hal_proxy \<Rightarrow> (Result \<times> hal_proxy) option" where
  "initialize E queue wakeLockQueue dynamicCallback s =
     initializeCommon E (Some queue) (Some wakeLockQueue) (Some dynamicCallback) s"

definition initialize_2_1 ::
  "hal_env \<Rightarrow> nat \<Rightarrow> nat \<Rightarrow> nat \<Rightarrow> hal_proxy \<Rightarrow> (Result \<times> hal_proxy) option" where
  "initialize_2_1 E queue wakeLockQueue dynamicCallback s =
     initializeCommon E (Some queue) (Some wakeLockQueue) (Some dynamicCallback) s"

definition HalProxy_destructor :: "hal_env \<Rightarrow> hal_proxy \<Rightarrow> hal_proxy option" where
  "HalProxy_destructor E s = stopThreads E s"

subsection \<open>Stopping the threads\<close>

text \<open>A live thread has its queue.\<close>

definition threads_ok :: "hal_proxy \<Rightarrow> bool" where
  "threads_ok s \<longleftrightarrow>
     (mPendingWritesThread s \<noteq> PwNone \<longrightarrow> mEventQueue s \<noteq> None)
     \<and> (mWakelockThread s \<noteq> WlNone \<longrightarrow> mWakeLockQueue s \<noteq> None)"

definition lifecycle_call :: "ext_call \<Rightarrow> bool" where
  "lifecycle_call c =
     (case c of SubActivate _ _ _ \<Rightarrow> True | SubInitialize _ _ \<Rightarrow> True | StartThreads \<Rightarrow> True
      | AcquireWakeLock \<Rightarrow> True | ReleaseWakeLock \<Rightarrow> True
      | CreateEventQueueFlag \<Rightarrow> True | CreateWakelockQueueFlag \<Rightarrow> True | _ \<Rightarrow> False)"

text \<open>What stopping changes: the positions of the threads, the pending queue, the sensor table
  (by the lookup that counts wake-up events) and the history, by calls none of which activates or
  initialises a sub-HAL, starts a thread or touches the kernel wake lock.\<close>

definition stop_frame :: "hal_proxy \<Rightarrow> hal_proxy \<Rightarrow> bool" where
  "stop_frame s s' \<longleftrightarrow>
     (\<exists>h. hist s' = hist s @ h \<and> list_all (\<lambda>e. \<not> lifecycle_call (fst e)) h)
     \<and> mWakelockRefCount s' = mWakelockRefCount s \<and> mThreadsRun s' = mThreadsRun s
     \<and> mSubHalList s' = mSubHalList s \<and> mDynamicSensors s' = mDynamicSensors s
     \<and> mEventQueue s' = mEventQueue s \<and> mWakeLockQueue s' = mWakeLockQueue s
     \<and> mEventQueueFlag s' = mEventQueueFlag s \<and> mWakelockQueueFlag s' = mWakelockQueueFlag s
     \<and> mDirectChannelSubHal s' = mDirectChannelSubHal s
     \<and> mMostEventsObservedPendingWriteEventsQueue s' = mMostEventsObservedPendingWriteEventsQueue s
     \<and> mWakelockTimeoutStartTime s' = mWakelockTimeoutStartTime s"

lemma stop_frame_refl [simp]: "stop_frame s s"
  by (simp add: stop_frame_def)

lemma stop_frame_trans [trans]: "stop_frame s t \<Longrightarrow> stop_frame t u \<Longrightarrow> stop_frame s u"
  unfolding stop_frame_def by (elim conjE exE) auto

lemma stop_frame_held: "stop_frame s s' \<Longrightarrow> wakelock_held (hist s') = wakelock_held (hist s)"
proof -
  have "no_wakelock_call h" if "list_all (\<lambda>e. \<not> lifecycle_call (fst e)) h" for h
    using that unfolding no_wakelock_call_def
    by (rule list.pred_mono_strong) (auto simp: lifecycle_call_def)
  then show "stop_frame s s' \<Longrightarrow> wakelock_held (hist s') = wakelock_held (hist s)"
    by (auto simp: stop_frame_def wakelock_held_append)
qed

lemma reset_stopped:
  "\<not> mThreadsRun s \<Longrightarrow> stop_frame s (resetSharedWakelock E s)"
  by (simp add: stop_frame_def wakelock_defs ext_defs Let_def lifecycle_call_def)

lemma decrement_stopped:
  "\<not> mThreadsRun s \<Longrightarrow> decrementRefCountAndMaybeReleaseWakelock d t s = s"
  by (simp add: wakelock_defs)

lemma pw_step_stopped: "\<not> mThreadsRun s \<Longrightarrow> pw_step E s = Some s' \<Longrightarrow> stop_frame s s'"
proof (cases "mPendingWritesThread s")
  case (PwWriting n q w)
  assume "\<not> mThreadsRun s" "pw_step E s = Some s'"
  with PwWriting show ?thesis
    by (auto simp: pw_step_def pw_write_def ext_defs Let_def decrement_stopped stop_frame_def lifecycle_call_def
        dest!: count_frame split: list.splits if_splits option.splits)
next
  case (PwWritten n q)
  assume "\<not> mThreadsRun s" "pw_step E s = Some s'"
  with PwWritten show ?thesis
    by (auto simp: pw_step_def pw_end_def stop_frame_def split: list.splits)
qed (simp_all add: pw_step_def pw_begin_def, auto simp: stop_frame_def)

lemma wl_step_stopped: "\<not> mThreadsRun s \<Longrightarrow> wl_step E s = Some s' \<Longrightarrow> stop_frame s s'"
proof (erule wl_step_cases)
  assume run: "\<not> mThreadsRun s"
  show "s' = s \<Longrightarrow> stop_frame s s'" by simp
  show "s' = wl_begin E s \<Longrightarrow> stop_frame s s'"
    using run reset_stopped [OF run, of E] by (simp add: wl_begin_unfold Let_def stop_frame_def)
  show "\<And>t. wl_read E t s = Some s' \<Longrightarrow> stop_frame s s'"
    by (auto simp: wl_read_def ext_defs Let_def stop_frame_def lifecycle_call_def split: if_splits)
  show "\<And>r. s' = wl_end r s \<Longrightarrow> stop_frame s s'"
    using run by (auto simp: wl_end_def decrement_stopped stop_frame_def split: option.split)
qed

lemma pw_step_keeps_wl: "pw_step E s = Some s' \<Longrightarrow> mWakelockThread s' = mWakelockThread s"
  by (auto simp: pw_step_def pw_begin_def pw_write_def pw_end_def ext_defs Let_def dest!: count_frame
      split: pw_thread.splits list.splits if_splits option.splits)

lemma pw_step_exit: "\<not> mThreadsRun s \<Longrightarrow> mPendingWritesThread s = PwLoop \<Longrightarrow>
    pw_step E s = Some (s\<lparr>mPendingWritesThread := PwExited\<rparr>)"
  "mPendingWritesThread s = PwExited \<Longrightarrow> pw_step E s = Some s"
  by (simp_all add: pw_step_def pw_begin_def)

lemma pw_step_write:
  assumes "pending_inv E s" "mPendingWritesThread s = PwWriting n q w"
  obtains s' where "pw_step E s = Some s'" "mPendingWritesThread s' = PwWritten n q"
    "mThreadsRun s' = mThreadsRun s"
proof -
  obtain s' where "pw_write E n q w s = Some s'"
    using pw_write_defined [OF assms] by auto
  moreover from pw_write_effect [OF this] have "mPendingWritesThread s' = PwWritten n q"
    "mThreadsRun s' = mThreadsRun s" by metis+
  ultimately show thesis using assms(2) by (intro that [of s']) (simp_all add: pw_step_def)
qed

lemma pw_step_finish:
  assumes "pending_inv E s" "mPendingWritesThread s = PwWritten n q"
  obtains s' where "pw_step E s = Some s'" "mPendingWritesThread s' = PwLoop"
    "mThreadsRun s' = mThreadsRun s"
  using assms by (auto simp: pw_step_def pw_end_def pending_inv_def pw_position_ok_def)

lemma pw_turn_stopped:
  assumes "pending_inv E s" "\<not> mThreadsRun s" "mPendingWritesThread s \<noteq> PwNone"
  shows "\<exists>s'. pw_turn E s = Some s' \<and> mPendingWritesThread s' = PwExited"
proof (cases "mPendingWritesThread s")
  case (PwWriting n q w)
  obtain s1 where s1: "pw_step E s = Some s1" "mPendingWritesThread s1 = PwWritten n q" "\<not> mThreadsRun s1"
    using pw_step_write [OF assms(1) PwWriting] assms(2) by metis
  have inv: "pending_inv E s1" by (rule pw_step_effect(1) [OF assms(1) s1(1)])
  obtain s2 where s2: "pw_step E s1 = Some s2" "mPendingWritesThread s2 = PwLoop" "\<not> mThreadsRun s2"
    using pw_step_finish [OF inv s1(2)] s1(3) by metis
  with s1 show ?thesis by (simp add: pw_turn_def pw_step_exit)
next
  case (PwWritten n q)
  obtain s1 where s1: "pw_step E s = Some s1" "mPendingWritesThread s1 = PwLoop" "\<not> mThreadsRun s1"
    using pw_step_finish [OF assms(1) PwWritten] assms(2) by metis
  then show ?thesis by (simp add: pw_turn_def pw_step_exit)
qed (use assms in \<open>simp_all add: pw_turn_def pw_step_exit\<close>)

lemma pw_turn_stopped_frame:
  assumes "pending_inv E s" "\<not> mThreadsRun s" "pw_turn E s = Some s'"
  shows "stop_frame s s'" "pending_inv E s'" "mWakelockThread s' = mWakelockThread s"
proof -
  from assms(3) obtain s1 s2 where st: "pw_step E s = Some s1" "pw_step E s1 = Some s2" "pw_step E s2 = Some s'"
    by (auto simp: pw_turn_def bind_eq_Some_conv)
  have f1: "stop_frame s s1" by (rule pw_step_stopped [OF assms(2) st(1)])
  then have f2: "stop_frame s1 s2" using assms(2) st(2) by (intro pw_step_stopped) (auto simp: stop_frame_def)
  with f1 have f3: "stop_frame s2 s'" using assms(2) st(3) by (intro pw_step_stopped) (auto simp: stop_frame_def)
  from f1 f2 f3 show "stop_frame s s'" by (blast intro: stop_frame_trans)
  show "pending_inv E s'"
    by (intro pw_step_effect(1) [OF _ st(3)] pw_step_effect(1) [OF _ st(2)] pw_step_effect(1) [OF assms(1) st(1)])
  show "mWakelockThread s' = mWakelockThread s"
    using st by (simp add: pw_step_keeps_wl)
qed

lemma wl_step_exit:
  "\<not> mThreadsRun s \<Longrightarrow> mWakelockThread s = WlLoop \<Longrightarrow>
     \<exists>s'. wl_step E s = Some s' \<and> mWakelockThread s' = WlExited"
  "mWakelockThread s = WlExited \<Longrightarrow> wl_step E s = Some s"
  "mWakelockThread s = WlReading t \<Longrightarrow> mWakeLockQueue s \<noteq> None \<Longrightarrow>
     \<exists>s' r. wl_step E s = Some s' \<and> mWakelockThread s' = WlRead r \<and> mThreadsRun s' = mThreadsRun s"
  "mWakelockThread s = WlRead r \<Longrightarrow>
     \<exists>s'. wl_step E s = Some s' \<and> mWakelockThread s' = WlLoop \<and> mThreadsRun s' = mThreadsRun s"
  by (auto simp: wl_step_def wl_begin_unfold wl_read_def wl_end_def ext_defs Let_def split: option.split)

lemma wl_turn_stopped:
  assumes "\<not> mThreadsRun s" "mWakelockThread s \<noteq> WlNone" "mWakeLockQueue s \<noteq> None"
  shows "\<exists>s'. wl_turn E s = Some s' \<and> mWakelockThread s' = WlExited"
proof (cases "mWakelockThread s")
  case WlLoop
  with wl_step_exit(1,2) assms(1) show ?thesis by (fastforce simp: wl_turn_def bind_eq_Some_conv)
next
  case (WlReading t)
  obtain s1 r where "wl_step E s = Some s1" "mWakelockThread s1 = WlRead r" "\<not> mThreadsRun s1"
    using wl_step_exit(3) [OF WlReading assms(3)] assms(1) by metis
  moreover then obtain s2 where "wl_step E s1 = Some s2" "mWakelockThread s2 = WlLoop" "\<not> mThreadsRun s2"
    using wl_step_exit(4) by metis
  moreover then obtain s3 where "wl_step E s2 = Some s3" "mWakelockThread s3 = WlExited"
    using wl_step_exit(1) by metis
  ultimately show ?thesis by (simp add: wl_turn_def)
next
  case (WlRead r)
  obtain s1 where "wl_step E s = Some s1" "mWakelockThread s1 = WlLoop" "\<not> mThreadsRun s1"
    using wl_step_exit(4) [OF WlRead] assms(1) by metis
  moreover then obtain s2 where "wl_step E s1 = Some s2" "mWakelockThread s2 = WlExited"
    using wl_step_exit(1) by metis
  ultimately show ?thesis by (simp add: wl_turn_def wl_step_exit)
qed (use assms in \<open>simp_all add: wl_turn_def wl_step_exit\<close>)

lemma wl_turn_stopped_frame:
  assumes "\<not> mThreadsRun s" "wl_turn E s = Some s'"
  shows "stop_frame s s'"
proof -
  from assms(2) obtain s1 s2 where st: "wl_step E s = Some s1" "wl_step E s1 = Some s2" "wl_step E s2 = Some s'"
    by (auto simp: wl_turn_def bind_eq_Some_conv)
  have f1: "stop_frame s s1" by (rule wl_step_stopped [OF assms(1) st(1)])
  then have f2: "stop_frame s1 s2" using assms(1) st(2) by (intro wl_step_stopped) (auto simp: stop_frame_def)
  with f1 have f3: "stop_frame s2 s'" using assms(1) st(3) by (intro wl_step_stopped) (auto simp: stop_frame_def)
  from f1 f2 f3 show "stop_frame s s'" by (blast intro: stop_frame_trans)
qed

lemma wl_turn_keeps_pending:
  assumes "wl_turn E s = Some s'"
  shows "pending_inv E s' = pending_inv E s" "mPendingWritesThread s' = mPendingWritesThread s"
proof -
  from assms obtain s1 s2 where "wl_step E s = Some s1" "wl_step E s1 = Some s2" "wl_step E s2 = Some s'"
    by (auto simp: wl_turn_def bind_eq_Some_conv)
  then have f: "wl_frame s s1" "wl_frame s1 s2" "wl_frame s2 s'" by (auto intro: wl_step_frame)
  then show "mPendingWritesThread s' = mPendingWritesThread s" by (simp add: wl_frame_def)
  from f show "pending_inv E s' = pending_inv E s"
    by (intro pending_cong) (simp_all add: wl_frame_def)
qed

lemma stop_queues_frame:
  "stop_frame s (stop_event_queue E s)" "stop_frame s (stop_wakelock_queue E s)"
  "mPendingWriteEventsQueue (stop_event_queue E s) = mPendingWriteEventsQueue s"
  "mPendingWriteEventsQueue (stop_wakelock_queue E s) = mPendingWriteEventsQueue s"
  "mSizePendingWriteEventsQueue (stop_event_queue E s) = mSizePendingWriteEventsQueue s"
  "mSizePendingWriteEventsQueue (stop_wakelock_queue E s) = mSizePendingWriteEventsQueue s"
  "mPendingWritesThread (stop_event_queue E s) = mPendingWritesThread s"
  "mPendingWritesThread (stop_wakelock_queue E s) = mPendingWritesThread s"
  "mWakelockThread (stop_event_queue E s) = mWakelockThread s"
  "mWakelockThread (stop_wakelock_queue E s) = mWakelockThread s"
  by (auto simp: stop_event_queue_def stop_wakelock_queue_def ext_defs Let_def stop_frame_def lifecycle_call_def)

definition stop_signalled :: "hal_env \<Rightarrow> hal_proxy \<Rightarrow> hal_proxy" where
  "stop_signalled E s = do_call NotifyEventQueueWriteCV (do_call NotifyWakelockCV
     (stop_wakelock_queue E (stop_event_queue E (s\<lparr>mThreadsRun := False\<rparr>))))"

lemma stop_signalled_effect:
  "stop_frame (s\<lparr>mThreadsRun := False\<rparr>) (stop_signalled E s)"
  "pending_inv E (stop_signalled E s) = pending_inv E s"
  "mPendingWritesThread (stop_signalled E s) = mPendingWritesThread s"
  "mWakelockThread (stop_signalled E s) = mWakelockThread s"
proof -
  let ?s1 = "s\<lparr>mThreadsRun := False\<rparr>"
  let ?s2 = "stop_wakelock_queue E (stop_event_queue E ?s1)"
  have calls: "stop_frame t (do_call NotifyEventQueueWriteCV (do_call NotifyWakelockCV t))" for t
    by (simp add: ext_defs stop_frame_def lifecycle_call_def)
  have "stop_frame ?s1 (stop_event_queue E ?s1)" by (rule stop_queues_frame)
  also have "stop_frame (stop_event_queue E ?s1) ?s2" by (rule stop_queues_frame)
  also have "stop_frame ?s2 (stop_signalled E s)" unfolding stop_signalled_def by (rule calls)
  finally show f: "stop_frame ?s1 (stop_signalled E s)" .
  show same: "mPendingWritesThread (stop_signalled E s) = mPendingWritesThread s"
    "mWakelockThread (stop_signalled E s) = mWakelockThread s"
    by (simp_all add: stop_signalled_def ext_defs stop_queues_frame)
  show "pending_inv E (stop_signalled E s) = pending_inv E s"
    by (rule pending_cong) (use f in \<open>simp_all add: stop_signalled_def ext_defs stop_queues_frame stop_frame_def\<close>)
qed

lemma join_pending_writes_total:
  assumes "pending_inv E s" "\<not> mThreadsRun s"
  obtains s' where "join_pending_writes E s = Some s'" "stop_frame s s'" "pending_inv E s'"
    "mPendingWritesThread s' = PwNone" "mWakelockThread s' = mWakelockThread s"
proof (cases "mPendingWritesThread s = PwNone")
  case True
  with assms show thesis by (intro that [of s]) (simp_all add: join_pending_writes_def)
next
  case False
  let ?j = "do_call JoinPendingWritesThread s"
  have j: "pending_inv E ?j" "\<not> mThreadsRun ?j" "mPendingWritesThread ?j \<noteq> PwNone"
    "stop_frame s ?j" "mWakelockThread ?j = mWakelockThread s"
    using assms False pending_cong(1) [of ?j s E]
    by (simp_all add: ext_defs stop_frame_def lifecycle_call_def)
  obtain t where t: "pw_turn E ?j = Some t" using pw_turn_stopped [OF j(1-3)] by blast
  note f = pw_turn_stopped_frame [OF j(1,2) t]
  show thesis
  proof (rule that)
    show "join_pending_writes E s = Some (t\<lparr>mPendingWritesThread := PwNone\<rparr>)"
      using False t by (simp add: join_pending_writes_def)
    show "stop_frame s (t\<lparr>mPendingWritesThread := PwNone\<rparr>)"
      using stop_frame_trans [OF j(4) f(1)] by (simp add: stop_frame_def)
    show "pending_inv E (t\<lparr>mPendingWritesThread := PwNone\<rparr>)"
      using f(2) by (simp add: pending_inv_def pw_position_ok_def)
  qed (use f j in simp_all)
qed

lemma join_wakelocks_total:
  assumes "pending_inv E s" "\<not> mThreadsRun s" "mWakelockThread s \<noteq> WlNone \<longrightarrow> mWakeLockQueue s \<noteq> None"
  obtains s' where "join_wakelocks E s = Some s'" "stop_frame s s'" "pending_inv E s'"
    "mWakelockThread s' = WlNone" "mPendingWritesThread s' = mPendingWritesThread s"
proof (cases "mWakelockThread s = WlNone")
  case True
  with assms show thesis by (intro that [of s]) (simp_all add: join_wakelocks_def)
next
  case False
  let ?j = "do_call JoinWakelockThread s"
  have j: "\<not> mThreadsRun ?j" "mWakelockThread ?j \<noteq> WlNone" "mWakeLockQueue ?j \<noteq> None"
    "stop_frame s ?j" "pending_inv E ?j" "mPendingWritesThread ?j = mPendingWritesThread s"
    using assms False pending_cong(1) [of ?j s E]
    by (simp_all add: ext_defs stop_frame_def lifecycle_call_def)
  obtain t where t: "wl_turn E ?j = Some t" using wl_turn_stopped [OF j(1-3)] by blast
  show thesis
  proof (rule that)
    show "join_wakelocks E s = Some (t\<lparr>mWakelockThread := WlNone\<rparr>)"
      using False t by (simp add: join_wakelocks_def)
    show "stop_frame s (t\<lparr>mWakelockThread := WlNone\<rparr>)"
      using stop_frame_trans [OF j(4) wl_turn_stopped_frame [OF j(1) t]] by (simp add: stop_frame_def)
    show "pending_inv E (t\<lparr>mWakelockThread := WlNone\<rparr>)"
      using j(5) wl_turn_keeps_pending(1) [OF t]
        pending_cong(1) [of "t\<lparr>mWakelockThread := WlNone\<rparr>" t E] by simp
  qed (use wl_turn_keeps_pending [OF t] j in simp_all)
qed

lemma stopThreads_total:
  assumes "pending_inv E s" "threads_ok s"
  obtains s' where "stopThreads E s = Some s'" "stop_frame (s\<lparr>mThreadsRun := False\<rparr>) s'"
    "pending_inv E s'" "mPendingWritesThread s' = PwNone" "mWakelockThread s' = WlNone"
proof -
  note sig = stop_signalled_effect [where E = E and s = s]
  have stopped: "\<not> mThreadsRun (stop_signalled E s)" using sig(1) by (simp add: stop_frame_def)
  obtain t where t: "join_pending_writes E (stop_signalled E s) = Some t"
    "stop_frame (stop_signalled E s) t" "pending_inv E t" "mPendingWritesThread t = PwNone"
    "mWakelockThread t = mWakelockThread (stop_signalled E s)"
    using join_pending_writes_total [OF _ stopped] assms(1) sig(2) by blast
  have f: "stop_frame (s\<lparr>mThreadsRun := False\<rparr>) t"
    by (rule stop_frame_trans [OF sig(1) t(2)])
  have "\<not> mThreadsRun t" "mWakelockThread t \<noteq> WlNone \<longrightarrow> mWakeLockQueue t \<noteq> None"
    using f t(5) sig(4) assms(2) by (auto simp: stop_frame_def threads_ok_def)
  then obtain u where u: "join_wakelocks E t = Some u" "stop_frame t u" "pending_inv E u"
    "mWakelockThread u = WlNone" "mPendingWritesThread u = mPendingWritesThread t"
    using join_wakelocks_total [OF t(3)] by blast
  show thesis
  proof (rule that)
    show "stopThreads E s = Some u"
      using t(1) u(1) by (simp add: stopThreads_def stop_signalled_def Let_def)
    show "stop_frame (s\<lparr>mThreadsRun := False\<rparr>) u" by (rule stop_frame_trans [OF f u(2)])
  qed (use t u in simp_all)
qed

subsection \<open>The calls of \<open>disableAllSensors\<close> and of the sub-HAL loop\<close>

definition deactivation :: "hal_env \<Rightarrow> int32 \<Rightarrow> ext_call" where
  "deactivation E h = SubActivate (getSubHalForSensorHandle h)
     (clearSubHalIndex (kSensorHandleSubHalIndexMask E) h) False"

lemma deactivate_trace:
  "\<exists>rs. length rs = length (filter (\<lambda>h. isSubHalIndexValid h s) hs) \<and>
     deactivate_each E hs s = s\<lparr>hist := hist s @
       map2 (\<lambda>h r. (deactivation E h, AResult r)) (filter (\<lambda>h. isSubHalIndexValid h s) hs) rs\<rparr>"
proof (induction hs arbitrary: s)
  case (Cons h hs)
  let ?r = "ansResult E (hist s) (deactivation E h)"
  let ?s = "s\<lparr>hist := hist s @ [(deactivation E h, AResult ?r)]\<rparr>"
  have valid: "isSubHalIndexValid k ?s = isSubHalIndexValid k s" for k
    by (simp add: isSubHalIndexValid_def)
  show ?case
  proof (cases "isSubHalIndexValid h s")
    case True
    then have "deactivate_each E (h # hs) s = deactivate_each E hs ?s"
      by (simp add: activate_def deactivation_def ext_defs Let_def)
    moreover obtain rs where "length rs = length (filter (\<lambda>h. isSubHalIndexValid h s) hs)"
      "deactivate_each E hs ?s = ?s\<lparr>hist := hist ?s @
         map2 (\<lambda>h r. (deactivation E h, AResult r)) (filter (\<lambda>h. isSubHalIndexValid h s) hs) rs\<rparr>"
      using Cons.IH [of ?s] by (auto simp: valid)
    ultimately show ?thesis using True by (intro exI [of _ "?r # rs"]) simp
  next
    case False
    with Cons.IH [of s] show ?thesis by (simp add: activate_def)
  qed
qed simp

lemma initialize_subhals_trace:
  "\<exists>rs. length rs = length is \<and>
     (fst (initialize_subhals E is r0 s) = OK \<longleftrightarrow> r0 = OK \<and> set rs \<subseteq> {OK}) \<and>
     snd (initialize_subhals E is r0 s) = s\<lparr>hist := hist s @
       map2 (\<lambda>i r. (SubInitialize i (of_nat i), AResult r)) is rs\<rparr>"
proof (induction "is" arbitrary: s r0)
  case (Cons i "is")
  let ?r = "ansResult E (hist s) (SubInitialize i (of_nat i))"
  let ?s = "s\<lparr>hist := hist s @ [(SubInitialize i (of_nat i), AResult ?r)]\<rparr>"
  have "initialize_subhals E (i # is) r0 s =
      initialize_subhals E is (if ?r \<noteq> OK then ?r else r0) ?s"
    by (simp add: ext_defs Let_def)
  moreover obtain rs where "length rs = length is"
    "fst (initialize_subhals E is (if ?r \<noteq> OK then ?r else r0) ?s) = OK
       \<longleftrightarrow> (if ?r \<noteq> OK then ?r else r0) = OK \<and> set rs \<subseteq> {OK}"
    "snd (initialize_subhals E is (if ?r \<noteq> OK then ?r else r0) ?s) = ?s\<lparr>hist := hist ?s @
       map2 (\<lambda>i r. (SubInitialize i (of_nat i), AResult r)) is rs\<rparr>"
    using Cons.IH [of "if ?r \<noteq> OK then ?r else r0" ?s] by blast
  ultimately show ?case by (intro exI [of _ "?r # rs"]) (auto split: if_splits)
qed simp

definition flag_call :: "ext_call \<Rightarrow> bool" where
  "flag_call c \<longleftrightarrow> c \<in> {DeleteEventQueueFlag, DeleteWakelockQueueFlag,
     CreateEventQueueFlag, CreateWakelockQueueFlag}"

text \<open>Every status among the answers is \<open>OK\<close>.\<close>

definition all_ok :: "history \<Rightarrow> bool" where
  "all_ok h \<longleftrightarrow> list_all (\<lambda>e. case snd e of AResult r \<Rightarrow> r = OK | _ \<Rightarrow> True) h"

lemma all_ok_simps [simp]:
  "all_ok []" "all_ok (h @ h') \<longleftrightarrow> all_ok h \<and> all_ok h'"
  "all_ok ((c, ANone) # h) = all_ok h" "all_ok ((c, AResult r) # h) \<longleftrightarrow> r = OK \<and> all_ok h"
  by (simp_all add: all_ok_def)

lemma all_ok_map2:
  "length rs = length xs \<Longrightarrow> all_ok (map2 (\<lambda>x r. (f x, AResult r)) xs rs) \<longleftrightarrow> set rs \<subseteq> {OK}"
  by (induction xs rs rule: list_induct2') simp_all

lemma create_event_flags_trace:
  "\<exists>h f f'. snd (create_event_flags E s) =
     s\<lparr>hist := hist s @ h, mEventQueueFlag := f, mWakelockQueueFlag := f'\<rparr>
   \<and> list_all (\<lambda>e. flag_call (fst e)) h \<and> (fst (create_event_flags E s) = OK \<longleftrightarrow> all_ok h)"
proof -
  let ?d1 = "if mEventQueueFlag s then [(DeleteEventQueueFlag, ANone)] else []"
  let ?d2 = "if mWakelockQueueFlag s then [(DeleteWakelockQueueFlag, ANone)] else []"
  let ?h2 = "hist s @ ?d1 @ ?d2"
  let ?r1 = "ansResult E ?h2 CreateEventQueueFlag"
  let ?h4 = "?h2 @ [(CreateEventQueueFlag, AResult ?r1)]"
  let ?r2 = "ansResult E ?h4 CreateWakelockQueueFlag"
  let ?flags = "?d1 @ ?d2 @ [(CreateEventQueueFlag, AResult ?r1), (CreateWakelockQueueFlag, AResult ?r2)]"
  have "create_event_flags E s = (if ?r2 \<noteq> OK then BAD_VALUE else if ?r1 \<noteq> OK then BAD_VALUE else OK,
      s\<lparr>hist := hist s @ ?flags, mEventQueueFlag := ansBool E ?h2 CreateEventQueueFlag,
        mWakelockQueueFlag := ansBool E ?h4 CreateWakelockQueueFlag\<rparr>)"
    by (cases "mEventQueueFlag s"; cases "mWakelockQueueFlag s")
       (simp_all add: create_event_flags_def ext_defs Let_def)
  moreover have "list_all (\<lambda>e. flag_call (fst e)) ?flags" by (simp add: flag_call_def)
  moreover have "all_ok ?flags \<longleftrightarrow> ?r1 = OK \<and> ?r2 = OK" by simp
  ultimately show ?thesis
    by (intro exI [of _ ?flags] exI [of _ "ansBool E ?h2 CreateEventQueueFlag"]
          exI [of _ "ansBool E ?h4 CreateWakelockQueueFlag"]) simp
qed

text \<open>The sensors the proxy knows when it is initialised again.\<close>

definition known_handles :: "hal_proxy \<Rightarrow> int32 list" where
  "known_handles s = map_keys (mSensors s) @ map_keys (mDynamicSensors s)"

lemma disableAllSensors_trace:
  "\<exists>off. disableAllSensors E s = s\<lparr>hist := hist s @ off\<rparr>
     \<and> map fst off = map (deactivation E) (filter (\<lambda>h. isSubHalIndexValid h s) (known_handles s))"
proof -
  obtain rs where rs: "length rs = length (filter (\<lambda>h. isSubHalIndexValid h s) (map_keys (mSensors s)))"
    "deactivate_each E (map_keys (mSensors s)) s = s\<lparr>hist := hist s @ map2 (\<lambda>h r. (deactivation E h, AResult r))
       (filter (\<lambda>h. isSubHalIndexValid h s) (map_keys (mSensors s))) rs\<rparr>"
    using deactivate_trace by blast
  let ?s1 = "deactivate_each E (map_keys (mSensors s)) s"
  have same: "isSubHalIndexValid h ?s1 = isSubHalIndexValid h s" for h
    by (simp add: rs isSubHalIndexValid_def)
  obtain rs' where "length rs' = length (filter (\<lambda>h. isSubHalIndexValid h s) (map_keys (mDynamicSensors s)))"
    "deactivate_each E (map_keys (mDynamicSensors s)) ?s1 = ?s1\<lparr>hist := hist ?s1 @ map2 (\<lambda>h r. (deactivation E h, AResult r))
       (filter (\<lambda>h. isSubHalIndexValid h s) (map_keys (mDynamicSensors s))) rs'\<rparr>"
    using deactivate_trace [of ?s1 "map_keys (mDynamicSensors s)" E] by (auto simp: same)
  moreover have "map fst (map2 (\<lambda>h r. (deactivation E h, AResult r)) xs zs) = map (deactivation E) xs"
    if "length zs = length xs" for xs zs
    using that by (induction xs zs rule: list_induct2') simp_all
  ultimately show ?thesis
    using rs by (auto simp: disableAllSensors_def Let_def known_handles_def)
qed

text \<open>The state in which \<open>initializeCommon\<close> leaves the stopped and reset proxy \<open>s\<close>, after the calls
  \<open>h\<close>.\<close>

definition after_initialize ::
  "nat \<Rightarrow> nat \<Rightarrow> nat \<Rightarrow> bool \<Rightarrow> bool \<Rightarrow> history \<Rightarrow> hal_proxy \<Rightarrow> hal_proxy" where
  "after_initialize q wq cb f f' h s =
     s\<lparr>mPendingWriteEventsQueue := [], mSizePendingWriteEventsQueue := 0,
       mDynamicSensors := map_empty, mDynamicSensorsCallback := Some cb,
       mEventQueue := Some q, mWakeLockQueue := Some wq,
       mEventQueueFlag := f, mWakelockQueueFlag := f', mThreadsRun := True,
       mPendingWritesThread := PwLoop, mWakelockThread := WlLoop,
       mCurrentOperationMode := NORMAL, hist := hist s @ h\<rparr>"

lemma initializeCommon_trace:
  assumes "pending_inv E s" "threads_ok s"
  obtains r s' s0 off flags f f' rs where
    "initializeCommon E (Some q) (Some wq) (Some cb) s = Some (r, s')"
    "stopThreads E s = Some s0" "stop_frame (s\<lparr>mThreadsRun := False\<rparr>) s0"
    "map fst off = map (deactivation E) (filter (\<lambda>h. isSubHalIndexValid h s) (known_handles s0))"
    "list_all (\<lambda>e. flag_call (fst e)) flags"
    "length rs = length (mSubHalList s)"
    "r = OK \<longleftrightarrow> f \<and> all_ok flags \<and> set rs \<subseteq> {OK}"
    "s' = after_initialize q wq cb f f' (off @ flags @ (StartThreads, ANone)
         # map2 (\<lambda>i r. (SubInitialize i (of_nat i), AResult r)) [0..<length (mSubHalList s)] rs)
       (resetSharedWakelock E s0)"
proof -
  obtain s0 where s0: "stopThreads E s = Some s0" "stop_frame (s\<lparr>mThreadsRun := False\<rparr>) s0"
    using stopThreads_total [OF assms] by metis
  let ?s1 = "resetSharedWakelock E s0"
  obtain off where off: "disableAllSensors E ?s1 = ?s1\<lparr>hist := hist ?s1 @ off\<rparr>"
    "map fst off = map (deactivation E) (filter (\<lambda>h. isSubHalIndexValid h ?s1) (known_handles ?s1))"
    using disableAllSensors_trace by blast
  let ?s3 = "?s1\<lparr>hist := hist ?s1 @ off, mPendingWriteEventsQueue := [], mSizePendingWriteEventsQueue := 0,
       mDynamicSensors := map_empty, mDynamicSensorsCallback := Some cb,
       mEventQueue := Some q, mWakeLockQueue := Some wq\<rparr>"
  obtain flags f f' where flags: "snd (create_event_flags E ?s3) =
      ?s3\<lparr>hist := hist ?s3 @ flags, mEventQueueFlag := f, mWakelockQueueFlag := f'\<rparr>"
    "list_all (\<lambda>e. flag_call (fst e)) flags" "fst (create_event_flags E ?s3) = OK \<longleftrightarrow> all_ok flags"
    using create_event_flags_trace by blast
  let ?s5 = "?s3\<lparr>mEventQueueFlag := f, mWakelockQueueFlag := f', mThreadsRun := True,
     hist := hist ?s3 @ flags @ [(StartThreads, ANone)], mPendingWritesThread := PwLoop, mWakelockThread := WlLoop\<rparr>"
  let ?r = "if \<not> f then BAD_VALUE else fst (create_event_flags E ?s3)"
  let ?n = "[0..<length (mSubHalList s)]"
  obtain rs where rs: "length rs = length ?n"
    "fst (initialize_subhals E ?n ?r ?s5) = OK \<longleftrightarrow> ?r = OK \<and> set rs \<subseteq> {OK}"
    "snd (initialize_subhals E ?n ?r ?s5) = ?s5\<lparr>hist := hist ?s5 @
       map2 (\<lambda>i r. (SubInitialize i (of_nat i), AResult r)) ?n rs\<rparr>"
    using initialize_subhals_trace by blast
  have subs: "mSubHalList ?s1 = mSubHalList s" "mSensors ?s1 = mSensors s0"
    "mDynamicSensors ?s1 = mDynamicSensors s0"
    using s0(2) by (simp_all add: stop_frame_def)
  show thesis
  proof (rule that [where f = f and f' = f' and flags = flags and rs = rs and off = off])
    show "initializeCommon E (Some q) (Some wq) (Some cb) s =
      Some (fst (initialize_subhals E ?n ?r ?s5),
        (snd (initialize_subhals E ?n ?r ?s5))\<lparr>mCurrentOperationMode := NORMAL\<rparr>)"
      using subs(1)
      by (simp add: initializeCommon_def s0(1) off(1) case_prod_beta Let_def flags(1) ext_defs del: upt_Suc)
    show "map fst off = map (deactivation E) (filter (\<lambda>h. isSubHalIndexValid h s) (known_handles s0))"
      using off(2) subs by (simp add: known_handles_def isSubHalIndexValid_def)
    show "fst (initialize_subhals E ?n ?r ?s5) = OK \<longleftrightarrow> f \<and> all_ok flags \<and> set rs \<subseteq> {OK}"
      using rs(2) flags(3) by auto
  qed (use s0 flags rs in \<open>simp_all add: after_initialize_def\<close>)
qed

lemma map_fst_calls:
  "length rs = length xs \<Longrightarrow> map fst (map2 (\<lambda>x r. (f x, AResult r)) xs rs) = map f xs"
  by (induction xs rs rule: list_induct2') simp_all

lemma no_wakelock_calls:
  assumes "map fst h = map f xs" and "\<And>x. f x \<noteq> AcquireWakeLock \<and> f x \<noteq> ReleaseWakeLock"
  shows "no_wakelock_call h"
proof -
  have "list_all (\<lambda>c. c \<noteq> AcquireWakeLock \<and> c \<noteq> ReleaseWakeLock) (map fst h)"
    unfolding assms(1) using assms(2) by (simp add: list_all_iff)
  then show ?thesis by (simp add: no_wakelock_call_def list_all_iff)
qed

subsection \<open>Properties\<close>


definition mid_write_proxy :: hal_proxy where
  "mid_write_proxy = held_proxy\<lparr>mEventQueue := Some 0, mEventQueueFlag := True,
     mPendingWriteEventsQueue := [([event_of 1 7], 1)], mSizePendingWriteEventsQueue := 1,
     mMostEventsObservedPendingWriteEventsQueue := 1, mPendingWritesThread := PwWriting 1 4 1\<rparr>"

lemma mid_write_proxy_ok: "pending_inv quiet_env mid_write_proxy" "threads_ok mid_write_proxy"
  "mWakelockRefCount mid_write_proxy = 3" "wakelock_held (hist mid_write_proxy)"
  using held_proxy_ok
  by (simp_all add: mid_write_proxy_def pending_inv_def pw_position_ok_def threads_ok_def vsize_def
      vector_ok_def wakelock_inv_def quiet_env_def wl_running_def)





definition restart_proxy :: hal_proxy where
  "restart_proxy = mid_write_proxy\<lparr>mSubHalList := mSubHalList built_proxy,
     mSensors := mSensors built_proxy\<rparr>"

lemma restart_proxy_ok: "pending_inv quiet_env restart_proxy" "threads_ok restart_proxy"
  "length (mSubHalList restart_proxy) = 2" "mWakelockRefCount restart_proxy = 3"
  "wakelock_held (hist restart_proxy)"
  using mid_write_proxy_ok pending_cong(1) [of restart_proxy mid_write_proxy quiet_env]
  by (simp_all add: restart_proxy_def threads_ok_def built_proxy_sensors)


text \<open>
  C21: initialising a proxy again neither changes the wakelock count nor gives the kernel wake lock
  back, although \<open>initializeCommon\<close> resets the shared wakelock: by then \<open>mThreadsRun\<close> is false and the
  reset's decrement returns early. Count and wake lock still agree.
\<close>

theorem initialize_keeps_wakelock:
  assumes "pending_inv E s" and "threads_ok s" and "initialize E q wq cb s = Some (r, s')"
  shows "mWakelockRefCount s' = mWakelockRefCount s
    \<and> wakelock_held (hist s') = wakelock_held (hist s)
    \<and> wakelock_inv s' = wakelock_inv s"
proof -
  obtain r1 s1 s0 off flags f f' rs where t:
    "initializeCommon E (Some q) (Some wq) (Some cb) s = Some (r1, s1)"
    "stop_frame (s\<lparr>mThreadsRun := False\<rparr>) s0"
    "map fst off = map (deactivation E) (filter (\<lambda>h. isSubHalIndexValid h s) (known_handles s0))"
    "list_all (\<lambda>e. flag_call (fst e)) flags"
    "s1 = after_initialize q wq cb f f' (off @ flags @ (StartThreads, ANone)
         # map2 (\<lambda>i r. (SubInitialize i (of_nat i), AResult r)) [0..<length (mSubHalList s)] rs)
         (resetSharedWakelock E s0)"
    by (rule initializeCommon_trace [OF assms(1,2)])
  let ?inits = "map2 (\<lambda>i r. (SubInitialize i (of_nat i :: int32), AResult r)) [0..<length (mSubHalList s)] rs"
  have "\<not> mThreadsRun s0" using t(2) by (simp add: stop_frame_def)
  then have f: "stop_frame (s\<lparr>mThreadsRun := False\<rparr>) (resetSharedWakelock E s0)"
    by (intro stop_frame_trans [OF t(2) reset_stopped])
  have "no_wakelock_call off"
    using t(3) by (rule no_wakelock_calls) (simp add: deactivation_def)
  moreover have "no_wakelock_call flags" using t(4)
    unfolding no_wakelock_call_def by (rule list.pred_mono_strong) (auto simp: flag_call_def)
  moreover have "no_wakelock_call ?inits" by (auto simp: no_wakelock_call_def list_all_iff)
  ultimately have "no_wakelock_call (off @ flags @ (StartThreads, ANone) # ?inits)"
    by (simp add: no_wakelock_call_def)
  then have "wakelock_held (hist s1) = wakelock_held (hist s)" "mWakelockRefCount s1 = mWakelockRefCount s"
    using stop_frame_held [OF f] f
    by (simp_all add: t(5) after_initialize_def wakelock_held_append stop_frame_def)
  moreover have "s1 = s'" using t(1) assms(3) by (simp add: initialize_def)
  ultimately show ?thesis by (simp add: wakelock_inv_def)
qed

theorem initialize_keeps_wakelock_witness:
  "\<exists>r s'. initialize quiet_env 5 6 7 restart_proxy = Some (r, s') \<and> mWakelockRefCount s' = 3
     \<and> wakelock_held (hist s')"
proof -
  obtain r s' where init: "initialize quiet_env 5 6 7 restart_proxy = Some (r, s')"
    using initializeCommon_trace [OF restart_proxy_ok(1,2), of 5 6 7]
    unfolding initialize_def by metis
  from initialize_keeps_wakelock [OF restart_proxy_ok(1,2) init] init show ?thesis
    using restart_proxy_ok(4,5) by auto
qed

end
