(* ===== verification/Hal_Callback.thy ===== *)
theory Hal_Callback
  imports Hal_Initialize
begin

text \<open>
  The callback object the proxy gives each sub-HAL, class \<open>HalProxyCallbackBase\<close> of
  \<open>sensors/HalProxyCallback.cpp\<close>: it joins the sub-HAL's index to the handles of the events the
  sub-HAL posts, counts the wake-up events among them and passes them to
  \<open>HalProxy::postEventsToMessageQueue\<close>.

  What it asks the proxy beside that, \<open>areThreadsRunning\<close> and \<open>getSensorInfo\<close>, is written in
  \<open>HalProxy.h\<close>, outside the repository, as is the constructor of \<open>ScopedWakelock\<close>: they are the
  fields of the parameter \<open>sub_hal_callback\<close>. \<open>callback_documented\<close> is what their interface says.
\<close>

subsection \<open>Operations\<close>

record sub_hal_callback =
  areThreadsRunning :: "hal_proxy \<Rightarrow> bool"
  getSensorInfo :: "int32 \<Rightarrow> hal_proxy \<Rightarrow> SensorInfo \<times> hal_proxy"
  newScopedWakelock :: "bool \<Rightarrow> hal_proxy \<Rightarrow> (bool \<times> int) \<times> hal_proxy"

fun processEvents_loop ::
  "hal_env \<Rightarrow> sub_hal_callback \<Rightarrow> int32 \<Rightarrow> Event list \<Rightarrow> size_t \<times> Event list \<Rightarrow> hal_proxy
     \<Rightarrow> (size_t \<times> Event list) \<times> hal_proxy" where
  "processEvents_loop E CB mSubHalIndex [] acc s = (acc, s)"
| "processEvents_loop E CB mSubHalIndex (event # events) (numWakeupEvents, eventsOut) s =
     (let event1 = event\<lparr>ev_sensorHandle :=
            callback_setSubHalIndex (ev_sensorHandle event) mSubHalIndex\<rparr>;
          event2 =
            (if ev_sensorType event1 = DYNAMIC_SENSOR_META
             then event1\<lparr>ev_dynamicHandle :=
                    callback_setSubHalIndex (ev_dynamicHandle event1) mSubHalIndex\<rparr>
             else event1);
          (sensor, s1) = getSensorInfo CB (ev_sensorHandle event2) s
      in processEvents_loop E CB mSubHalIndex events
           (if si_flags sensor AND WAKE_UP E \<noteq> 0 then numWakeupEvents + 1 else numWakeupEvents,
            eventsOut @ [event2]) s1)"

definition processEvents ::
  "hal_env \<Rightarrow> sub_hal_callback \<Rightarrow> int32 \<Rightarrow> Event list \<Rightarrow> hal_proxy
     \<Rightarrow> (size_t \<times> Event list) \<times> hal_proxy" where
  "processEvents E CB mSubHalIndex events s =
     processEvents_loop E CB mSubHalIndex events (0, []) s"

text \<open>The two \<open>ALOG_ASSERT\<close>s, on whether the wakelock is locked, are log statements.\<close>

definition postEvents ::
  "hal_env \<Rightarrow> sub_hal_callback \<Rightarrow> int32 \<Rightarrow> Event list \<Rightarrow> bool \<Rightarrow> hal_proxy \<Rightarrow> hal_proxy option" where
  "postEvents E CB mSubHalIndex events isLocked s =
     (if events = [] \<or> \<not> areThreadsRunning CB s then Some s
      else
        let ((numWakeupEvents, processedEvents), s1) = processEvents E CB mSubHalIndex events s
        in postEventsToMessageQueue E processedEvents numWakeupEvents isLocked s1)"

definition createScopedWakelock ::
  "sub_hal_callback \<Rightarrow> bool \<Rightarrow> hal_proxy \<Rightarrow> (bool \<times> int) \<times> hal_proxy" where
  "createScopedWakelock CB lock s = newScopedWakelock CB lock s"

subsection \<open>What the callback relies on\<close>

text \<open>A known sensor's information is its entry in \<open>mSensors\<close>, and asking for it changes nothing; asking
  for another sensor may at most enter the answer.\<close>

definition callback_documented :: "sub_hal_callback \<Rightarrow> bool" where
  "callback_documented CB \<longleftrightarrow>
     (\<forall>s. areThreadsRunning CB s = mThreadsRun s)
     \<and> (\<forall>h s info. map_find (mSensors s) h = Some info \<longrightarrow> getSensorInfo CB h s = (info, s))
     \<and> (\<forall>h s info s'. map_find (mSensors s) h = None \<longrightarrow> getSensorInfo CB h s = (info, s') \<longrightarrow>
          s' = s \<or> s' = s\<lparr>mSensors := map_put h info (mSensors s)\<rparr>)"

text \<open>An event as the framework sees it: the reference for the loop.\<close>

definition framework_event :: "int32 \<Rightarrow> Event \<Rightarrow> Event" where
  "framework_event i e =
     (let e1 = e\<lparr>ev_sensorHandle := callback_setSubHalIndex (ev_sensorHandle e) i\<rparr>
      in if ev_sensorType e = DYNAMIC_SENSOR_META
         then e1\<lparr>ev_dynamicHandle := callback_setSubHalIndex (ev_dynamicHandle e) i\<rparr> else e1)"

definition known_events :: "hal_proxy \<Rightarrow> int32 \<Rightarrow> Event list \<Rightarrow> bool" where
  "known_events s i events \<longleftrightarrow>
     list_all (\<lambda>e. map_find (mSensors s) (ev_sensorHandle (framework_event i e)) \<noteq> None) events"

lemma framework_event_handle [simp]:
  "ev_sensorHandle (framework_event i e) = callback_setSubHalIndex (ev_sensorHandle e) i"
  by (simp add: framework_event_def Let_def)

lemma processEvents_loop_reference:
  assumes "callback_documented CB" and "known_events s i events"
  shows "processEvents_loop E CB i events (n, out) s =
    ((n + of_nat (length (filter (wake_event E (mSensors s)) (map (framework_event i) events))),
      out @ map (framework_event i) events), s)"
  using assms(2)
proof (induction events arbitrary: n out)
  case (Cons e events)
  let ?e = "framework_event i e"
  obtain info where info: "map_find (mSensors s) (ev_sensorHandle ?e) = Some info"
    using Cons.prems by (auto simp: known_events_def)
  then have "getSensorInfo CB (ev_sensorHandle ?e) s = (info, s)"
    using assms(1) unfolding callback_documented_def by blast
  then have get: "getSensorInfo CB (callback_setSubHalIndex (ev_sensorHandle e) i) s = (info, s)"
    by simp
  have wake: "wake_event E (mSensors s) ?e \<longleftrightarrow> si_flags info AND WAKE_UP E \<noteq> 0"
    using info by (simp add: wake_event_def)
  have "processEvents_loop E CB i (e # events) (n, out) s =
      processEvents_loop E CB i events
        (if wake_event E (mSensors s) ?e then n + 1 else n, out @ [?e]) s"
    using get wake by (simp add: framework_event_def Let_def)
  with Cons show ?case by (simp add: known_events_def)
qed simp

lemma processEvents_reference:
  assumes "callback_documented CB" and "known_events s i events"
  shows "processEvents E CB i events s =
    ((of_nat (length (filter (wake_event E (mSensors s)) (map (framework_event i) events))),
      map (framework_event i) events), s)"
  using processEvents_loop_reference [OF assms] by (simp add: processEvents_def)

lemma postEvents_reference:
  assumes "callback_documented CB" and "known_events s i events"
  shows "postEvents E CB i events lk s =
    (if events = [] \<or> \<not> mThreadsRun s then Some s
     else postEventsToMessageQueue E (map (framework_event i) events)
       (of_nat (length (filter (wake_event E (mSensors s)) (map (framework_event i) events)))) lk s)"
  using assms(1) processEvents_reference [OF assms]
  by (simp add: postEvents_def callback_documented_def)

subsection \<open>The interface the callbacks post to\<close>

fun post_all ::
  "(Event list \<Rightarrow> size_t \<Rightarrow> bool \<Rightarrow> 's \<Rightarrow> 's option)
     \<Rightarrow> (Event list \<times> size_t \<times> bool) list \<Rightarrow> 's \<Rightarrow> 's option" where
  "post_all post [] s = Some s"
| "post_all post ((evs, w, lk) # bs) s = Option.bind (post evs w lk s) (post_all post bs)"

locale event_sink =
  fixes post :: "Event list \<Rightarrow> size_t \<Rightarrow> bool \<Rightarrow> 's \<Rightarrow> 's option"
    and inv :: "'s \<Rightarrow> bool"
    and taken :: "'s \<Rightarrow> Event list"
    and fits :: "Event list \<Rightarrow> bool"
  assumes post_inv: "inv s \<Longrightarrow> fits evs \<Longrightarrow> post evs w lk s = Some s' \<Longrightarrow> inv s'"
    and post_taken: "inv s \<Longrightarrow> fits evs \<Longrightarrow> post evs w lk s = Some s' \<Longrightarrow>
      \<exists>n \<le> length evs. taken s' = taken s @ take n evs"
begin

lemma posts_subseq:
  assumes "inv s" "list_all (\<lambda>b. fits (fst b)) bs" "post_all post bs s = Some s'"
  shows "inv s' \<and> (\<exists>t. taken s' = taken s @ t \<and> subseq t (concat (map fst bs)))"
  using assms
proof (induction bs arbitrary: s)
  case (Cons b bs)
  obtain evs w lk where b: "b = (evs, w, lk)" by (cases b)
  with Cons.prems(3) obtain s1 where s1: "post evs w lk s = Some s1" "post_all post bs s1 = Some s'"
    by (auto simp: bind_eq_Some_conv)
  have fits: "fits evs" "list_all (\<lambda>b. fits (fst b)) bs" using Cons.prems(2) b by simp_all
  obtain n where n: "taken s1 = taken s @ take n evs"
    using post_taken [OF Cons.prems(1) fits(1) s1(1)] by blast
  have "inv s1" by (rule post_inv [OF Cons.prems(1) fits(1) s1(1)])
  with Cons.IH [of s1] fits(2) s1(2) obtain t where
    "inv s'" "taken s' = taken s1 @ t" "subseq t (concat (map fst bs))" by blast
  moreover from this(3) have "subseq (take n evs @ t) (evs @ concat (map fst bs))"
    by (intro list_emb_append_mono) (simp add: prefix_imp_subseq take_is_prefix)
  ultimately show ?case using n b by auto
qed simp

end

lemma take_bounded: "\<exists>m \<le> length xs. take n xs = take m xs"
  by (cases "n \<le> length xs") (auto intro: exI [of _ "length xs"])

lemma post_accepted_prefix: "\<exists>n \<le> length evs. post_accepted E evs s = take n evs"
proof -
  have "post_accepted E evs s \<in> range (\<lambda>n. take n evs)"
    by (auto simp: post_accepted_def image_iff intro: exI [of _ 0] exI [of _ "length evs"]
        split: option.split)
  then show ?thesis using take_bounded by auto
qed

interpretation sink: event_sink "postEventsToMessageQueue E"
  "\<lambda>s. pending_inv E s \<and> max_size_ok E" "\<lambda>s. settled (hist s) @ pending_events s" vector_ok
  for E
proof unfold_locales
  fix s evs w lk s'
  assume inv: "pending_inv E s \<and> max_size_ok E" "vector_ok evs"
    and post: "postEventsToMessageQueue E evs w lk s = Some s'"
  show "pending_inv E s' \<and> max_size_ok E"
    using inv post_effect(1) [OF _ _ inv(2) post] by simp
  obtain n where "n \<le> length evs" "post_accepted E evs
      (if lk then snd (incrementRefCountAndMaybeAcquireWakelock E w s) else s) = take n evs"
    using post_accepted_prefix by blast
  then show "\<exists>n \<le> length evs. settled (hist s') @ pending_events s' =
      (settled (hist s) @ pending_events s) @ take n evs"
    using inv post_effect(2) [OF _ _ inv(2) post] by (intro exI [of _ n]) simp
qed

subsection \<open>A sequence of posts through the callbacks\<close>

fun callback_posts ::
  "hal_env \<Rightarrow> sub_hal_callback \<Rightarrow> (int32 \<times> Event list \<times> bool) list \<Rightarrow> hal_proxy \<Rightarrow> hal_proxy option" where
  "callback_posts E CB [] s = Some s"
| "callback_posts E CB ((i, evs, lk) # ps) s =
     Option.bind (postEvents E CB i evs lk s) (callback_posts E CB ps)"

definition framework_events :: "int32 \<times> Event list \<times> bool \<Rightarrow> Event list" where
  "framework_events p = (case p of (i, evs, lk) \<Rightarrow> map (framework_event i) evs)"

definition posted_batch ::
  "hal_env \<Rightarrow> sensor_map \<Rightarrow> int32 \<times> Event list \<times> bool \<Rightarrow> Event list \<times> size_t \<times> bool" where
  "posted_batch E m p =
     (framework_events p, of_nat (length (filter (wake_event E m) (framework_events p))), snd (snd p))"

lemma posted_batch_pair:
  "posted_batch E m (i, evs, lk) = (framework_events (i, evs, lk),
     of_nat (length (filter (wake_event E m) (framework_events (i, evs, lk)))), lk)"
  by (simp add: posted_batch_def)

definition posts_ok :: "hal_proxy \<Rightarrow> (int32 \<times> Event list \<times> bool) list \<Rightarrow> bool" where
  "posts_ok s ps \<longleftrightarrow>
     list_all (\<lambda>p. known_events s (fst p) (fst (snd p)) \<and> vector_ok (fst (snd p))) ps"

lemma post_keeps_sensors:
  assumes "postEventsToMessageQueue E evs w lk s = Some s'"
  shows "mSensors s' = mSensors s" "mThreadsRun s' = mThreadsRun s"
proof -
  obtain n s2 where "post_direct E evs (if lk then snd (incrementRefCountAndMaybeAcquireWakelock E w s) else s)
      = Some (n, s2)" "s' = post_pending E evs w n s2"
    using assms by (auto simp: postEventsToMessageQueue_def Let_def split: option.splits)
  with post_direct_effect [OF this(1)]
  show "mSensors s' = mSensors s" "mThreadsRun s' = mThreadsRun s"
    by (auto simp: post_pending_def ext_defs Let_def split: if_splits)
qed

lemma callback_posts_as_post_all:
  assumes "callback_documented CB" "posts_ok s ps" "mThreadsRun s"
  shows "callback_posts E CB ps s = post_all (postEventsToMessageQueue E)
    (map (posted_batch E (mSensors s)) (filter (\<lambda>p. fst (snd p) \<noteq> []) ps)) s"
  using assms(2,3)
proof (induction ps arbitrary: s)
  case (Cons p ps)
  obtain i evs lk where p: "p = (i, evs, lk)" by (cases p)
  have known: "known_events s i evs" "posts_ok s ps" using Cons.prems(1) p by (simp_all add: posts_ok_def)
  note post = postEvents_reference [OF assms(1) known(1), of E lk]
  show ?case
  proof (cases "evs = []")
    case True
    with post p Cons.IH [OF known(2) Cons.prems(2)] show ?thesis by simp
  next
    case False
    have rest: "callback_posts E CB ps s1 = post_all (postEventsToMessageQueue E)
        (map (posted_batch E (mSensors s)) (filter (\<lambda>p. fst (snd p) \<noteq> []) ps)) s1"
      if "postEventsToMessageQueue E e w lk s = Some s1" for e w s1
    proof -
      note same = post_keeps_sensors [OF that]
      have "posts_ok s1 ps" using known(2) same by (simp add: posts_ok_def known_events_def)
      with Cons.IH [of s1] same Cons.prems(2) show ?thesis by simp
    qed
    have "callback_posts E CB (p # ps) s = Option.bind (postEventsToMessageQueue E (framework_events p)
        (of_nat (length (filter (wake_event E (mSensors s)) (framework_events p)))) lk s) (callback_posts E CB ps)"
      using False post Cons.prems(2) by (simp add: p framework_events_def)
    also have "\<dots> = Option.bind (postEventsToMessageQueue E (framework_events p)
        (of_nat (length (filter (wake_event E (mSensors s)) (framework_events p)))) lk s)
        (post_all (postEventsToMessageQueue E)
          (map (posted_batch E (mSensors s)) (filter (\<lambda>p. fst (snd p) \<noteq> []) ps)))"
      using rest by (rule Option.bind_cong [OF refl])
    finally show ?thesis using False by (simp add: p posted_batch_pair)
  qed
qed simp

lemma concat_posted:
  "concat (map fst (map (posted_batch E m) (filter (\<lambda>p. fst (snd p) \<noteq> []) ps))) = concat (map framework_events ps)"
  by (induction ps) (auto simp: posted_batch_def framework_events_def split: prod.splits)

subsection \<open>Properties\<close>

text \<open>
  C31: \<open>postEvents\<close> on events of known sensors does nothing without events or running threads;
  otherwise it posts every event, in order, with the sub-HAL's index joined to its handle (and to
  the dynamic sensor's handle of a dynamic-sensor event), together with the number of wake-up events
  among them. From each posted handle the proxy recovers the sub-HAL and the handle it used.
\<close>

theorem postEvents_marks_and_counts:
  assumes "callback_documented CB" and "known_events s (of_nat k) events" and "k < 128"
  shows "postEvents E CB (of_nat k) events lk s =
      (if events = [] \<or> \<not> mThreadsRun s then Some s
       else postEventsToMessageQueue E (map (framework_event (of_nat k)) events)
         (of_nat (length (filter (wake_event E (mSensors s)) (map (framework_event (of_nat k)) events)))) lk s)
    \<and> (\<forall>e. subHalIndexIsClear first_byte_mask (ev_sensorHandle e) \<longrightarrow>
         getSubHalForSensorHandle (ev_sensorHandle (framework_event (of_nat k) e)) = k
         \<and> clearSubHalIndex first_byte_mask (ev_sensorHandle (framework_event (of_nat k) e))
             = ev_sensorHandle e)"
proof -
  have index: "callback_setSubHalIndex h (of_nat k) = setSubHalIndex h (of_nat k)" for h
    using callback_setSubHalIndex_eq [of h "of_nat k"] assms(3)
    by (simp add: unsigned_of_nat take_bit_nat_eq_self)
  have "unat (of_nat k :: size_t) = k" using assms(3) by (simp add: unat_of_nat_size_t)
  then show ?thesis
    using postEvents_reference [OF assms(1,2)] assms(3)
    by (simp add: index getSubHalForSensorHandle_def codec.get_put codec.strip_put)
qed

definition header_callback :: "sub_hal_callback" where
  "header_callback = \<lparr>areThreadsRunning = mThreadsRun,
     getSensorInfo = (\<lambda>h s. (case map_find (mSensors s) h of Some i \<Rightarrow> i | None \<Rightarrow> no_sensor, s)),
     newScopedWakelock = (\<lambda>lock s. ((lock, 0), s))\<rparr>"

lemma header_callback_documented: "callback_documented header_callback"
  by (simp add: callback_documented_def header_callback_def)

definition callback_proxy :: hal_proxy where
  "callback_proxy = running_proxy\<lparr>mSensors := mSensors built_proxy\<rparr>"

theorem postEvents_marks_and_counts_witness:
  "postEvents quiet_env header_callback (of_nat 1) [event_of 4 9] False callback_proxy =
     postEventsToMessageQueue quiet_env [event_of 0x01000004 9] 1 False callback_proxy"
proof -
  have known: "known_events callback_proxy (of_nat 1) [event_of 4 9]"
    and mark: "framework_event 1 (event_of 4 9) = event_of 0x01000004 9"
    by (simp_all add: known_events_def callback_proxy_def built_proxy_sensors map_find_def
        event_of_def framework_event_def callback_setSubHalIndex_def kBitsAfterSubHalIndex_def)
  have "wake_event quiet_env (mSensors callback_proxy) (event_of 0x01000004 9)"
    by (simp add: wake_event_def callback_proxy_def built_proxy_sensors map_find_def event_of_def
        quiet_env_def)
  moreover have "mThreadsRun callback_proxy"
    by (simp add: callback_proxy_def running_proxy_def two_subhals_def empty_proxy_def)
  ultimately show ?thesis
    using postEvents_marks_and_counts [OF header_callback_documented known, of quiet_env False] by (simp add: mark)
qed



end
