(* ===== verification/Decimal.thy ===== *)
theory Decimal
  imports Hal_Prelude
begin

text \<open>
  Decimal numbers and words in C++ streams: what \<open>std::to_string\<close> and \<open>ostream << n\<close> print, what
  \<open>istream >> n\<close> reads into an \<open>int\<close> and \<open>istream >> str\<close> into a string. Used by the configuration
  reader, the debug output and the lights.
\<close>

subsection \<open>Printing\<close>

definition digit_char :: "nat \<Rightarrow> char" where
  "digit_char n = char_of (48 + n)"

fun nat_digits :: "nat \<Rightarrow> string" where
  "nat_digits n = (if n < 10 then [digit_char n] else nat_digits (n div 10) @ [digit_char (n mod 10)])"

declare nat_digits.simps [simp del]

definition int_digits :: "int \<Rightarrow> string" where
  "int_digits i = (if i < 0 then CHR ''-'' # nat_digits (nat (- i)) else nat_digits (nat i))"

subsection \<open>Reading\<close>

text \<open>\<open>std::isspace\<close> in the "C" locale.\<close>

definition is_space :: "char \<Rightarrow> bool" where
  "is_space c \<longleftrightarrow> c = CHR '' '' \<or> of_char c \<in> {9 :: nat, 10, 11, 12, 13}"

definition is_digit :: "char \<Rightarrow> bool" where
  "is_digit c \<longleftrightarrow> 48 \<le> (of_char c :: nat) \<and> of_char c \<le> (57 :: nat)"

definition digit_value :: "char \<Rightarrow> nat" where
  "digit_value c = of_char c - 48"

definition digits_value :: "string \<Rightarrow> nat" where
  "digits_value ds = foldl (\<lambda>n c. 10 * n + digit_value c) 0 ds"

text \<open>\<open>file >> value\<close>: \<open>None\<close> when no character is left, which leaves \<open>value\<close> as it was; without a
  digit 0 is stored, and a number out of the range of \<open>int\<close> is stored as the nearest bound.\<close>

definition clamp_int32 :: "int \<Rightarrow> int" where
  "clamp_int32 i = max (- (2 ^ 31)) (min (2 ^ 31 - 1) i)"

definition unsigned_part :: "string \<Rightarrow> int" where
  "unsigned_part cs = int (digits_value (takeWhile is_digit cs))"

definition istream_int :: "string \<Rightarrow> int option" where
  "istream_int cs =
     (case dropWhile is_space cs of
        [] \<Rightarrow> None
      | c # rest \<Rightarrow>
          Some (if c = CHR ''-'' then clamp_int32 (- unsigned_part rest)
                else if c = CHR ''+'' then clamp_int32 (unsigned_part rest)
                else clamp_int32 (unsigned_part (c # rest))))"

text \<open>The words \<open>while (stream >> word)\<close> goes through.\<close>

function stream_words :: "string \<Rightarrow> string list" where
  "stream_words cs =
     (case dropWhile is_space cs of
        [] \<Rightarrow> []
      | rest \<Rightarrow> takeWhile (\<lambda>c. \<not> is_space c) rest
               # stream_words (dropWhile (\<lambda>c. \<not> is_space c) rest))"
  by pat_completeness auto
termination
proof (relation "measure length")
  fix cs c rest
  assume rest: "dropWhile is_space cs = c # rest"
  then have "\<not> is_space c" by (metis hd_dropWhile list.discI list.sel(1))
  then have "length (dropWhile (\<lambda>c. \<not> is_space c) (c # rest)) < length (c # rest)"
    by (simp add: le_imp_less_Suc length_dropWhile_le)
  also have "\<dots> \<le> length cs" using rest length_dropWhile_le [of is_space cs] by simp
  finally show "(dropWhile (\<lambda>c. \<not> is_space c) (c # rest), cs) \<in> measure length" by simp
qed simp

declare stream_words.simps [simp del]

subsection \<open>Reading back what was printed\<close>

lemma digit_char_facts:
  assumes "n < 10"
  shows "is_digit (digit_char n)" "digit_value (digit_char n) = n" "\<not> is_space (digit_char n)"
    "digit_char n \<noteq> CHR ''-''" "digit_char n \<noteq> CHR ''+''"
proof -
  have "(of_char (digit_char n) :: nat) = 48 + n"
    using assms by (simp add: digit_char_def)
  moreover have "(of_char (CHR ''-'') :: nat) = 45" "(of_char (CHR ''+'') :: nat) = 43"
    "(of_char (CHR '' '') :: nat) = 32" by simp_all
  ultimately show "is_digit (digit_char n)" "digit_value (digit_char n) = n" "\<not> is_space (digit_char n)"
    "digit_char n \<noteq> CHR ''-''" "digit_char n \<noteq> CHR ''+''"
    using assms by (auto simp: is_digit_def digit_value_def is_space_def)
qed

lemma nat_digits_all: "list_all is_digit (nat_digits n)"
proof (induction n rule: nat_digits.induct)
  case (1 n)
  then show ?case by (subst nat_digits.simps) (simp add: digit_char_facts)
qed

lemma digits_value_snoc: "digits_value (ds @ [c]) = 10 * digits_value ds + digit_value c"
  by (simp add: digits_value_def)

lemma digits_value_nat_digits: "digits_value (nat_digits n) = n"
proof (induction n rule: nat_digits.induct)
  case (1 n)
  show ?case
  proof (cases "n < 10")
    case True
    then show ?thesis by (subst nat_digits.simps) (simp add: digits_value_def digit_char_facts)
  next
    case False
    with 1 show ?thesis by (subst nat_digits.simps) (simp add: digits_value_snoc digit_char_facts)
  qed
qed

lemma nat_digits_Cons: obtains c ds where "nat_digits n = c # ds" "is_digit c" "\<not> is_space c" "c \<noteq> CHR ''-''" "c \<noteq> CHR ''+''"
proof -
  have "nat_digits n \<noteq> []" by (subst nat_digits.simps) simp
  then obtain c ds where c: "nat_digits n = c # ds" by (cases "nat_digits n") auto
  then have "is_digit c" using nat_digits_all [of n] by simp
  moreover from this have "c = digit_char (digit_value c)"
    by (simp add: is_digit_def digit_char_def digit_value_def)
  moreover from \<open>is_digit c\<close> have "digit_value c < 10"
    unfolding is_digit_def digit_value_def by linarith
  ultimately show thesis using c digit_char_facts by (intro that [of c ds]) metis+
qed

lemma takeWhile_append_stop:
  "list_all P xs \<Longrightarrow> (\<forall>c r. rest = c # r \<longrightarrow> \<not> P c) \<Longrightarrow> takeWhile P (xs @ rest) = xs"
  by (induction xs) (auto intro: takeWhile_eq_Nil_iff [THEN iffD2] split: list.splits, cases rest, auto)

lemma unsigned_part_digits:
  "(\<forall>c r. rest = c # r \<longrightarrow> \<not> is_digit c) \<Longrightarrow> unsigned_part (nat_digits n @ rest) = int n"
  by (simp add: unsigned_part_def takeWhile_append_stop nat_digits_all digits_value_nat_digits)

lemma istream_int_digits:
  assumes "- (2 ^ 31) \<le> i" "i < 2 ^ 31" "\<forall>c r. rest = c # r \<longrightarrow> \<not> is_digit c"
  shows "istream_int (int_digits i @ rest) = Some i"
proof (cases "i < 0")
  case True
  then have "istream_int (int_digits i @ rest) = Some (clamp_int32 (- unsigned_part (nat_digits (nat (- i)) @ rest)))"
    by (simp add: istream_int_def int_digits_def is_space_def)
  with assms True show ?thesis by (simp add: unsigned_part_digits clamp_int32_def)
next
  case False
  obtain c ds where c: "nat_digits (nat i) = c # ds" "\<not> is_space c" "c \<noteq> CHR ''-''" "c \<noteq> CHR ''+''"
    by (rule nat_digits_Cons)
  with False have "istream_int (int_digits i @ rest) = Some (clamp_int32 (unsigned_part (nat_digits (nat i) @ rest)))"
    by (simp add: istream_int_def int_digits_def)
  with assms False show ?thesis by (simp add: unsigned_part_digits clamp_int32_def)
qed

lemma istream_int_range: "istream_int cs = Some i \<Longrightarrow> - (2 ^ 31) \<le> i \<and> i < 2 ^ 31"
  by (auto simp: istream_int_def clamp_int32_def split: list.splits if_splits)

end
