(* ===== verification/Hal_Config.thy ===== *)
theory Hal_Config
  imports Hal_Callback Decimal
begin

text \<open>
  The default constructor of \<open>sensors/HalProxy.cpp\<close>, which loads the sub-HAL libraries a
  configuration file names, and its \<open>debug\<close> output.

  The file system is the argument \<open>files\<close>, from a path to the contents of a readable file;
  \<open>dlopen\<close>, \<open>dlsym\<close> and the constructor functions found by them are calls of the environment.
\<close>

subsection \<open>Loading the sub-HALs\<close>

text \<open>The locations of an LP64 build.\<close>

definition kSubHalShareObjectLocations :: "string list" where
  "kSubHalShareObjectLocations = ['''', ''/vendor/lib64/hw/'', ''/odm/lib64/hw/'']"

fun open_in_locations ::
  "hal_env \<Rightarrow> string list \<Rightarrow> string \<Rightarrow> hal_proxy \<Rightarrow> nat option \<times> hal_proxy" where
  "open_in_locations E [] filename s = (None, s)"
| "open_in_locations E (dir # dirs) filename s =
     (let (handle, s1) = call_handle E (DlOpen (dir @ filename)) s
      in if handle \<noteq> None then (handle, s1) else open_in_locations E dirs filename s1)"

definition getHandleForSubHalSharedObject ::
  "hal_env \<Rightarrow> string \<Rightarrow> hal_proxy \<Rightarrow> nat option \<times> hal_proxy" where
  "getHandleForSubHalSharedObject E filename s =
     open_in_locations E kSubHalShareObjectLocations filename s"

text \<open>The body of the loop over the words of the file. A sub-HAL of the wrong version is constructed
  and dropped.\<close>

definition load_sub_hal :: "hal_env \<Rightarrow> string \<Rightarrow> hal_proxy \<Rightarrow> hal_proxy" where
  "load_sub_hal E subHalLibraryFile s =
     (case getHandleForSubHalSharedObject E subHalLibraryFile s of
        (None, s1) \<Rightarrow> s1
      | (Some handle, s1) \<Rightarrow>
          (case call_handle E (DlSym handle ''sensorsHalGetSubHal'') s1 of
             (Some fn, s2) \<Rightarrow>
               let ((subHal, version), s3) = call_subhal E (GetSubHal fn ''sensorsHalGetSubHal'') s2
               in if version \<noteq> SUB_HAL_2_0_VERSION E then s3
                  else s3\<lparr>mSubHalList := mSubHalList s3 @ [SubHalWrapperV2_0 subHal]\<rparr>
           | (None, s2) \<Rightarrow>
               (case call_handle E (DlSym handle ''sensorsHalGetSubHal_2_1'') s2 of
                  (None, s3) \<Rightarrow> s3
                | (Some fn, s3) \<Rightarrow>
                    let ((subHal, version), s4) =
                          call_subhal E (GetSubHal fn ''sensorsHalGetSubHal_2_1'') s3
                    in if version \<noteq> SUB_HAL_2_1_VERSION E then s4
                       else s4\<lparr>mSubHalList := mSubHalList s4 @ [SubHalWrapperV2_1 subHal]\<rparr>)))"

definition initializeSubHalListFromConfigFile ::
  "hal_env \<Rightarrow> (string \<Rightarrow> string option) \<Rightarrow> string \<Rightarrow> hal_proxy \<Rightarrow> hal_proxy" where
  "initializeSubHalListFromConfigFile E files configFileName s =
     (case files configFileName of
        None \<Rightarrow> s
      | Some contents \<Rightarrow> fold (load_sub_hal E) (stream_words contents) s)"

definition kMultiHalConfigFile :: string where
  "kMultiHalConfigFile = ''/vendor/etc/sensors/hals.conf''"

definition HalProxy_default :: "hal_env \<Rightarrow> (string \<Rightarrow> string option) \<Rightarrow> hal_proxy \<Rightarrow> hal_proxy" where
  "HalProxy_default E files s =
     hal_init E (initializeSubHalListFromConfigFile E files kMultiHalConfigFile s)"

subsection \<open>The debug output\<close>

definition msFromNs :: "int \<Rightarrow> int" where
  "msFromNs nanos = cdiv nanos 1000000"

definition endl :: string where
  "endl = [CHR 0x0A]"

definition debug_header :: "int \<Rightarrow> hal_proxy \<Rightarrow> string" where
  "debug_header now s =
     ''===HalProxy==='' @ endl @
     ''Internal values:'' @ endl @
     ''  Threads are running: '' @ (if mThreadsRun s then ''true'' else ''false'') @ endl @
     ''  Wakelock timeout start time: '' @ int_digits (msFromNs (now - mWakelockTimeoutStartTime s))
       @ '' ms ago'' @ endl @
     ''  Wakelock timeout reset time: '' @ int_digits (msFromNs (now - mWakelockTimeoutResetTime s))
       @ '' ms ago'' @ endl @
     ''  Wakelock ref count: '' @ nat_digits (unat (mWakelockRefCount s)) @ endl @
     ''  # of events on pending write writes queue: ''
       @ nat_digits (unat (mSizePendingWriteEventsQueue s)) @ endl @
     '' Most events seen on pending write events queue: ''
       @ nat_digits (unat (mMostEventsObservedPendingWriteEventsQueue s)) @ endl @
     (case mPendingWriteEventsQueue s of
        [] \<Rightarrow> ''''
      | front # _ \<Rightarrow> ''  Size of events list on front of pending writes queue: ''
          @ nat_digits (length (fst front)) @ endl) @
     ''  # of non-dynamic sensors across all subhals: '' @ nat_digits (length (mSensors s)) @ endl @
     ''  # of dynamic sensors across all subhals: '' @ nat_digits (length (mDynamicSensors s)) @ endl @
     ''SubHals ('' @ nat_digits (length (mSubHalList s)) @ ''):'' @ endl"

fun debug_sub_hals ::
  "hal_env \<Rightarrow> int \<Rightarrow> nat list \<Rightarrow> string \<Rightarrow> hal_proxy \<Rightarrow> string \<times> hal_proxy" where
  "debug_sub_hals E writeFd [] stream s = (stream, s)"
| "debug_sub_hals E writeFd (i # is) stream s =
     (let (name, s1) = call_string E (SubGetName i) s;
          stream1 = stream @ ''  Name: '' @ name @ endl @ ''  Debug dump: '' @ endl;
          s2 = do_call (SubDebug i) (do_call (WriteStringToFd writeFd stream1) s1)
      in debug_sub_hals E writeFd is endl s2)"

text \<open>\<open>None\<close> is a null native handle; otherwise its file descriptors.\<close>

definition debug :: "hal_env \<Rightarrow> int list option \<Rightarrow> hal_proxy \<Rightarrow> hal_proxy" where
  "debug E fd s =
     (case fd of
        None \<Rightarrow> s
      | Some [] \<Rightarrow> s
      | Some (writeFd # _) \<Rightarrow>
          let (now, s1) = getTimeNow E s;
              (stream, s2) = debug_sub_hals E writeFd [0..<length (mSubHalList s1)]
                (debug_header now s1) s1
          in do_call (WriteStringToFd writeFd stream) s2)"

subsection \<open>The loader against its specification\<close>

text \<open>The dynamic linker gives the same answer to the same question.\<close>

definition stable_linker :: "hal_env \<Rightarrow> bool" where
  "stable_linker E \<longleftrightarrow>
     (\<forall>h c. ansHandle E h c = ansHandle E [] c) \<and> (\<forall>h c. ansSubHal E h c = ansSubHal E [] c)"

text \<open>What one library name contributes: the sub-HAL of the first entry point the library has, if it
  reports that entry point's version.\<close>

definition find_library :: "hal_env \<Rightarrow> string \<Rightarrow> nat option" where
  "find_library E lib =
     (case filter (\<lambda>dir. ansHandle E [] (DlOpen (dir @ lib)) \<noteq> None) kSubHalShareObjectLocations of
        [] \<Rightarrow> None | dir # _ \<Rightarrow> ansHandle E [] (DlOpen (dir @ lib)))"

definition construct ::
  "hal_env \<Rightarrow> nat \<Rightarrow> string \<Rightarrow> uint32 \<Rightarrow> (nat \<Rightarrow> subhal) \<Rightarrow> subhal option" where
  "construct E fn entry required wrap =
     (case ansSubHal E [] (GetSubHal fn entry) of
        (p, version) \<Rightarrow> if version = required then Some (wrap p) else None)"

definition library_sub_hal :: "hal_env \<Rightarrow> string \<Rightarrow> subhal option" where
  "library_sub_hal E lib =
     Option.bind (find_library E lib) (\<lambda>handle.
       case ansHandle E [] (DlSym handle ''sensorsHalGetSubHal'') of
         Some fn \<Rightarrow> construct E fn ''sensorsHalGetSubHal'' (SUB_HAL_2_0_VERSION E) SubHalWrapperV2_0
       | None \<Rightarrow> Option.bind (ansHandle E [] (DlSym handle ''sensorsHalGetSubHal_2_1'')) (\<lambda>fn.
           construct E fn ''sensorsHalGetSubHal_2_1'' (SUB_HAL_2_1_VERSION E) SubHalWrapperV2_1))"

lemma stable_calls:
  assumes "stable_linker E"
  shows "call_handle E c s = (ansHandle E [] c, s\<lparr>hist := hist s @ [(c, AHandle (ansHandle E [] c))]\<rparr>)"
    and "call_subhal E c s = (ansSubHal E [] c,
      s\<lparr>hist := hist s @ [(c, ASubHal (fst (ansSubHal E [] c)) (snd (ansSubHal E [] c)))]\<rparr>)"
  using assms unfolding stable_linker_def call_handle_def call_subhal_def Let_def by metis+

lemma open_in_locations_effect:
  assumes "stable_linker E"
  shows "\<exists>h. open_in_locations E dirs lib s =
    (case filter (\<lambda>dir. ansHandle E [] (DlOpen (dir @ lib)) \<noteq> None) dirs of
        [] \<Rightarrow> None | dir # _ \<Rightarrow> ansHandle E [] (DlOpen (dir @ lib)), s\<lparr>hist := hist s @ h\<rparr>)"
proof (induction dirs arbitrary: s)
  case (Cons dir dirs)
  let ?c = "DlOpen (dir @ lib)"
  let ?a = "ansHandle E [] ?c"
  let ?s1 = "s\<lparr>hist := hist s @ [(?c, AHandle ?a)]\<rparr>"
  note call = stable_calls(1) [OF assms, of ?c s]
  show ?case
  proof (cases "?a = None")
    case True
    obtain h where "open_in_locations E dirs lib ?s1 =
      (case filter (\<lambda>dir. ansHandle E [] (DlOpen (dir @ lib)) \<noteq> None) dirs of
        [] \<Rightarrow> None | dir # _ \<Rightarrow> ansHandle E [] (DlOpen (dir @ lib)), ?s1\<lparr>hist := hist ?s1 @ h\<rparr>)"
      using Cons.IH by blast
    with True show ?thesis
      by (intro exI [of _ "(?c, AHandle ?a) # h"]) (simp add: call)
  next
    case False
    then show ?thesis
      by (intro exI [of _ "[(?c, AHandle ?a)]"]) (simp add: call)
  qed
qed (simp add: exI [of _ "[]"])

lemma load_sub_hal_effect:
  assumes "stable_linker E"
  shows "\<exists>h. load_sub_hal E lib s =
    s\<lparr>mSubHalList := mSubHalList s @ (case library_sub_hal E lib of None \<Rightarrow> [] | Some w \<Rightarrow> [w]),
      hist := hist s @ h\<rparr>"
proof -
  obtain h where h: "getHandleForSubHalSharedObject E lib s = (find_library E lib, s\<lparr>hist := hist s @ h\<rparr>)"
    using open_in_locations_effect [OF assms, of kSubHalShareObjectLocations lib s]
    by (auto simp: getHandleForSubHalSharedObject_def find_library_def)
  note call = stable_calls [OF assms]
  show ?thesis
  proof (cases "find_library E lib")
    case None
    then show ?thesis by (intro exI [of _ h]) (simp add: load_sub_hal_def h library_sub_hal_def)
  next
    case (Some handle)
    note lib = this
    let ?d1 = "DlSym handle ''sensorsHalGetSubHal''" and ?d2 = "DlSym handle ''sensorsHalGetSubHal_2_1''"
    show ?thesis
    proof (cases "ansHandle E [] ?d1")
      case (Some fn)
      let ?g = "GetSubHal fn ''sensorsHalGetSubHal''"
      let ?r = "ansSubHal E [] ?g"
      from Some lib show ?thesis
        by (intro exI [of _ "h @ [(?d1, AHandle (Some fn)), (?g, ASubHal (fst ?r) (snd ?r))]"])
           (simp add: load_sub_hal_def h library_sub_hal_def construct_def call case_prod_beta)
    next
      case None
      note d1 = this
      show ?thesis
      proof (cases "ansHandle E [] ?d2")
        case None
        with d1 lib show ?thesis
          by (intro exI [of _ "h @ [(?d1, AHandle None), (?d2, AHandle None)]"])
             (simp add: load_sub_hal_def h library_sub_hal_def call)
      next
        case (Some fn)
        let ?g = "GetSubHal fn ''sensorsHalGetSubHal_2_1''"
        let ?r = "ansSubHal E [] ?g"
        from Some d1 lib show ?thesis
          by (intro exI [of _ "h @ [(?d1, AHandle None), (?d2, AHandle (Some fn)), (?g, ASubHal (fst ?r) (snd ?r))]"])
             (simp add: load_sub_hal_def h library_sub_hal_def construct_def call case_prod_beta)
      qed
    qed
  qed
qed

lemma load_all_effect:
  assumes "stable_linker E"
  shows "\<exists>h. fold (load_sub_hal E) libs s =
    s\<lparr>mSubHalList := mSubHalList s @ List.map_filter (library_sub_hal E) libs, hist := hist s @ h\<rparr>"
proof (induction libs arbitrary: s)
  case (Cons lib libs)
  obtain h where h: "load_sub_hal E lib s =
    s\<lparr>mSubHalList := mSubHalList s @ (case library_sub_hal E lib of None \<Rightarrow> [] | Some w \<Rightarrow> [w]),
      hist := hist s @ h\<rparr>"
    using load_sub_hal_effect [OF assms] by blast
  obtain h' where "fold (load_sub_hal E) libs (load_sub_hal E lib s) =
    (load_sub_hal E lib s)\<lparr>mSubHalList := mSubHalList (load_sub_hal E lib s)
      @ List.map_filter (library_sub_hal E) libs, hist := hist (load_sub_hal E lib s) @ h'\<rparr>"
    using Cons.IH by blast
  then show ?case by (auto simp: h map_filter_simps split: option.split intro: exI [of _ "h @ h'"])
qed (simp add: map_filter_simps exI [of _ "[]"])

subsection \<open>One library per line\<close>

definition is_word :: "string \<Rightarrow> bool" where
  "is_word w \<longleftrightarrow> w \<noteq> [] \<and> list_all (\<lambda>c. \<not> is_space c) w"

definition lines_of :: "string list \<Rightarrow> string" where
  "lines_of ws = concat (map (\<lambda>w. w @ endl) ws)"

lemma endl_space: "dropWhile is_space (endl @ cs) = dropWhile is_space cs"
  by (simp add: endl_def is_space_def)

lemma stream_words_skip: "stream_words (endl @ cs) = stream_words cs"
  by (subst (1 2) stream_words.simps) (simp add: endl_space)

lemma stream_words_word:
  assumes "is_word w"
  shows "stream_words (w @ endl @ cs) = w # stream_words cs"
proof -
  obtain c w' where w: "w = c # w'" "\<not> is_space c"
    using assms by (cases w) (auto simp: is_word_def)
  have space: "is_space (CHR 0x0A)" by (simp add: is_space_def)
  have "takeWhile (\<lambda>c. \<not> is_space c) (w @ endl @ cs) = w"
    and drop: "dropWhile (\<lambda>c. \<not> is_space c) (w @ endl @ cs) = endl @ cs"
    using assms by (simp_all add: is_word_def list_all_iff takeWhile_append dropWhile_append endl_def space)
  moreover have "dropWhile is_space (w @ endl @ cs) = w @ endl @ cs" using w by simp
  moreover from w have "w @ endl @ cs \<noteq> []" by simp
  ultimately have "stream_words (w @ endl @ cs) = w # stream_words (endl @ cs)"
    by (subst stream_words.simps) (auto split: list.split)
  then show ?thesis by (simp add: stream_words_skip)
qed

lemma stream_words_lines: "list_all is_word ws \<Longrightarrow> stream_words (lines_of ws) = ws"
proof (induction ws)
  case Nil
  show ?case by (subst stream_words.simps) (simp add: lines_of_def)
next
  case (Cons w ws)
  then show ?case using stream_words_word [of w "lines_of ws"] by (simp add: lines_of_def)
qed

subsection \<open>What \<open>debug\<close> writes\<close>

fun written_by :: "ext_call \<times> answer \<Rightarrow> string" where
  "written_by (WriteStringToFd fd str, a) = str"
| "written_by e = ''''"

definition is_write :: "ext_call \<Rightarrow> bool" where
  "is_write c = (case c of WriteStringToFd fd str \<Rightarrow> True | _ \<Rightarrow> False)"

definition dump_entry :: "string \<Rightarrow> string" where
  "dump_entry name = ''  Name: '' @ name @ endl @ ''  Debug dump: '' @ endl @ endl"

lemma debug_sub_hals_trace:
  "\<exists>h names stream'. debug_sub_hals E fd is stream s = (stream', s\<lparr>hist := hist s @ h\<rparr>)
     \<and> length names = length is
     \<and> concat (map written_by h) @ stream' = stream @ concat (map dump_entry names)
     \<and> filter (\<lambda>c. \<not> is_write c) (map fst h) = concat (map (\<lambda>i. [SubGetName i, SubDebug i]) is)"
proof (induction "is" arbitrary: stream s)
  case (Cons i "is")
  let ?name = "ansString E (hist s) (SubGetName i)"
  let ?text = "stream @ ''  Name: '' @ ?name @ endl @ ''  Debug dump: '' @ endl"
  let ?h = "[(SubGetName i, AString ?name), (WriteStringToFd fd ?text, ANone), (SubDebug i, ANone)]"
  obtain h names stream' where IH:
    "debug_sub_hals E fd is endl (s\<lparr>hist := hist s @ ?h\<rparr>) = (stream', s\<lparr>hist := (hist s @ ?h) @ h\<rparr>)"
    "length names = length is" "concat (map written_by h) @ stream' = endl @ concat (map dump_entry names)"
    "filter (\<lambda>c. \<not> is_write c) (map fst h) = concat (map (\<lambda>i. [SubGetName i, SubDebug i]) is)"
    using Cons.IH [of endl "s\<lparr>hist := hist s @ ?h\<rparr>"] by auto
  have "debug_sub_hals E fd (i # is) stream s = debug_sub_hals E fd is endl (s\<lparr>hist := hist s @ ?h\<rparr>)"
    by (simp add: ext_defs Let_def)
  moreover have "concat (map written_by (?h @ h)) @ stream' = ?text @ endl @ concat (map dump_entry names)"
    using IH(3) by simp
  moreover have "?text @ endl = stream @ dump_entry ?name" by (simp add: dump_entry_def)
  ultimately show ?case
    using IH(1,2,4)
    by (intro exI [of _ "?h @ h"] exI [of _ "?name # names"] exI [of _ stream'])
       (simp add: is_write_def flip: append_assoc)
qed (simp add: exI [of _ "[]"])

subsection \<open>Properties\<close>

text \<open>
  C35: with a dynamic linker that answers consistently, the sub-HALs loaded from the configuration
  file are, in the order of the file, those its libraries provide: the first location that opens
  counts, the 2.0 entry point is preferred, and a library without entry point or with the wrong
  version contributes nothing. No file, no sub-HALs. A file with one library per line is read as
  that list.
\<close>

theorem config_sub_hals_loaded:
  assumes "stable_linker E"
  shows "\<exists>h. initializeSubHalListFromConfigFile E files path s = s\<lparr>mSubHalList := mSubHalList s @
        (case files path of None \<Rightarrow> []
         | Some contents \<Rightarrow> List.map_filter (library_sub_hal E) (stream_words contents)),
      hist := hist s @ h\<rparr>
    \<and> (\<forall>libs. list_all is_word libs \<longrightarrow> stream_words (lines_of libs) = libs)"
proof (cases "files path")
  case None
  then show ?thesis
    by (intro exI [of _ "[]"]) (simp add: initializeSubHalListFromConfigFile_def stream_words_lines)
next
  case (Some contents)
  with load_all_effect [OF assms, of "stream_words contents" s] show ?thesis
    by (simp add: initializeSubHalListFromConfigFile_def stream_words_lines)
qed

definition linker_env :: hal_env where
  "linker_env = quiet_env\<lparr>ansHandle := (\<lambda>_ c.
      if c = DlOpen ''/vendor/lib64/hw/a.so'' then Some 1 else if c = DlOpen ''b.so'' then Some 2
      else if c = DlSym 1 ''sensorsHalGetSubHal_2_1'' then Some 11
      else if c = DlSym 2 ''sensorsHalGetSubHal'' then Some 12 else None),
    ansSubHal := (\<lambda>_ c. case c of GetSubHal fn _ \<Rightarrow> if fn = 11 then (5, 0x02010000) else (6, 0x02000000)
      | _ \<Rightarrow> (0, 0))\<rparr>"

theorem config_sub_hals_loaded_witness:
  "mSubHalList (initializeSubHalListFromConfigFile linker_env
      (\<lambda>p. if p = kMultiHalConfigFile then Some (lines_of [''a.so'', ''c.so'', ''b.so'']) else None)
      kMultiHalConfigFile empty_proxy) = [SubHalWrapperV2_1 5, SubHalWrapperV2_0 6]"
proof -
  let ?files = "\<lambda>p. if p = kMultiHalConfigFile then Some (lines_of [''a.so'', ''c.so'', ''b.so'']) else None"
  have "stable_linker linker_env" by (simp add: stable_linker_def linker_env_def)
  from config_sub_hals_loaded [OF this, of ?files kMultiHalConfigFile empty_proxy] obtain h where
    h: "initializeSubHalListFromConfigFile linker_env ?files kMultiHalConfigFile empty_proxy =
      empty_proxy\<lparr>mSubHalList := mSubHalList empty_proxy @ List.map_filter (library_sub_hal linker_env)
        (stream_words (lines_of [''a.so'', ''c.so'', ''b.so''])), hist := hist empty_proxy @ h\<rparr>"
    and words: "\<forall>libs. list_all is_word libs \<longrightarrow> stream_words (lines_of libs) = libs" by auto
  have "stream_words (lines_of [''a.so'', ''c.so'', ''b.so'']) = [''a.so'', ''c.so'', ''b.so'']"
    using words by (simp add: is_word_def is_space_def)
  then show ?thesis unfolding h
    by (simp add: map_filter_simps library_sub_hal_def find_library_def kSubHalShareObjectLocations_def
        construct_def linker_env_def quiet_env_def empty_proxy_def)
qed


end
