(* ===== verification/Hal_Frames.thy ===== *)
theory Hal_Frames
  imports Hal_Config
begin

text \<open>
  What the operations of the proxy leave alone: the framework's requests as one relation, the calls
  that neither move events nor touch the wake lock, and for each operation and thread step the
  members it keeps (\<open>same_plant\<close>) and the way it moves events (\<open>moves\<close>).
\<close>

subsection \<open>Calls that neither move events, touch the wake lock nor notify\<close>

definition quiet_call :: "ext_call \<Rightarrow> bool" where
  "quiet_call c =
     (case c of AcquireWakeLock \<Rightarrow> False | ReleaseWakeLock \<Rightarrow> False | EventQueueWrite _ \<Rightarrow> False
      | EventQueueWriteBlocking _ _ \<Rightarrow> False | NotifyEventQueueWriteCV \<Rightarrow> False
      | NotifyWakelockCV \<Rightarrow> False | _ \<Rightarrow> True)"

definition quiet :: "history \<Rightarrow> bool" where
  "quiet h \<longleftrightarrow> list_all (\<lambda>e. quiet_call (fst e)) h"

lemma quiet_simps [simp]:
  "quiet []" "quiet (e # h) \<longleftrightarrow> quiet_call (fst e) \<and> quiet h" "quiet (h @ h') \<longleftrightarrow> quiet h \<and> quiet h'"
  by (auto simp: quiet_def)

lemma quiet_calls: "quiet h \<longleftrightarrow> list_all quiet_call (map fst h)"
  by (simp add: quiet_def list_all_iff)

lemma quiet_settled: "quiet h \<Longrightarrow> settled h = []"
proof (induction h)
  case (Cons e h)
  then have "settled_by e = []"
    by (cases e rule: settled_by.cases) (auto simp: quiet_call_def)
  with Cons show ?case by simp
qed simp

lemma quiet_no_wakelock: "quiet h \<Longrightarrow> no_wakelock_call h"
  by (induction h) (auto simp: no_wakelock_call_def quiet_call_def)

subsection \<open>Requests of the framework\<close>

text \<open>One request, handled to its end.\<close>

inductive request :: "hal_env \<Rightarrow> hal_proxy \<Rightarrow> hal_proxy \<Rightarrow> bool" for E s where
  req_mode: "request E s (snd (setOperationMode E mode s))"
| req_activate: "request E s (snd (activate E h enabled s))"
| req_batch: "request E s (snd (batch E h period latency s))"
| req_flush: "request E s (snd (flush E h s))"
| req_inject: "request E s (snd (injectSensorData E event s))"
| req_inject_2_1: "request E s (snd (injectSensorData_2_1 E event s))"
| req_register: "request E s (snd (registerDirectChannel E mem s))"
| req_unregister: "request E s (snd (unregisterDirectChannel E ch s))"
| req_config: "request E s (snd (configDirectReport E h ch rate s))"
| req_debug: "request E s (debug E fds s)"

inductive_cases requestE: "request E s s'"

text \<open>What a request may change: the mode and, by quiet calls, the history.\<close>

definition quiet_change :: "hal_proxy \<Rightarrow> hal_proxy \<Rightarrow> bool" where
  "quiet_change s s' \<longleftrightarrow>
     (\<exists>m h. s' = s\<lparr>mCurrentOperationMode := m, hist := hist s @ h\<rparr> \<and> quiet h)"

lemma quiet_changeI: "s' = s\<lparr>hist := hist s @ h\<rparr> \<Longrightarrow> quiet h \<Longrightarrow> quiet_change s s'"
  unfolding quiet_change_def by (intro exI [of _ "mCurrentOperationMode s"] exI [of _ h]) (cases s, simp)

lemma quiet_change_refl: "quiet_change s s"
  by (rule quiet_changeI [of _ _ "[]"]) simp_all

lemma call_quiet:
  "quiet_call c \<Longrightarrow> quiet_change s (snd (call_result E c s))"
  "quiet_call c \<Longrightarrow> quiet_change s (snd (call_channel E c s))"
  by (auto simp: ext_defs Let_def intro!: quiet_changeI)

lemma quiet_mode_calls: "quiet (mode_calls m is)"
  by (auto simp: mode_calls_def quiet_def quiet_call_def list_all_iff)

lemma setOperationMode_quiet: "quiet_change s (snd (setOperationMode E mode s))"
proof -
  obtain r k s1 where fw: "setOperationMode_forward E mode 0 (length (mSubHalList s)) s = (r, k, s1)"
    by (metis prod_cases3)
  note t = forward_trace [OF fw]
  let ?h = "mode_calls mode [0..<k] @ (if r = OK then [] else [(SubSetOperationMode k mode, AResult r)])"
  have h: "quiet ?h" by (simp add: quiet_mode_calls quiet_call_def)
  have s1: "s1 = s\<lparr>hist := hist s @ ?h\<rparr>" using t by simp
  show ?thesis
  proof (cases "r = OK")
    case True
    have "snd (setOperationMode E mode s) = s1\<lparr>mCurrentOperationMode := mode\<rparr>"
      using True by (simp add: setOperationMode_def fw)
    also have "\<dots> = s\<lparr>mCurrentOperationMode := mode, hist := hist s @ ?h\<rparr>"
      unfolding s1 by (cases s) simp
    finally show ?thesis unfolding quiet_change_def using h by blast
  next
    case False
    obtain rs where "setOperationMode_rollback E 0 k s1 = s1\<lparr>hist := hist s1 @
        map2 (\<lambda>j r. (SubSetOperationMode j (mCurrentOperationMode s1), AResult r)) [0..<k] rs\<rparr>" (is "_ = s1\<lparr>hist := hist s1 @ ?h'\<rparr>")
      using rollback_trace by blast
    moreover have "quiet ?h'" by (auto simp: quiet_def list_all_iff quiet_call_def)
    ultimately show ?thesis
      using False s1 h
      by (intro quiet_changeI [of _ _ "?h @ ?h'"]) (simp_all add: setOperationMode_def fw)
  qed
qed

lemma debug_quiet: "quiet_change s (debug E fds s)"
proof -
  have subs: "\<exists>h. snd (debug_sub_hals E fd is stream t) = t\<lparr>hist := hist t @ h\<rparr> \<and> quiet h" for fd "is" stream t
  proof -
    obtain h stream' where h: "debug_sub_hals E fd is stream t = (stream', t\<lparr>hist := hist t @ h\<rparr>)"
      "filter (\<lambda>c. \<not> is_write c) (map fst h) = concat (map (\<lambda>i. [SubGetName i, SubDebug i]) is)"
      using debug_sub_hals_trace by blast
    have "quiet_call c" if "c \<in> set (map fst h)" for c
    proof (cases "is_write c")
      case True
      then show ?thesis by (auto simp: is_write_def quiet_call_def split: ext_call.splits)
    next
      case False
      with that have "c \<in> set (filter (\<lambda>c. \<not> is_write c) (map fst h))" by simp
      then show ?thesis unfolding h(2) by (auto simp: quiet_call_def)
    qed
    then have "quiet h" by (simp add: quiet_calls list_all_iff)
    with h(1) show ?thesis by auto
  qed
  show ?thesis
  proof (cases fds)
    case None
    then show ?thesis by (simp add: debug_def quiet_change_refl)
  next
    case (Some ds)
    show ?thesis
    proof (cases ds)
      case Nil
      with Some show ?thesis by (simp add: debug_def quiet_change_refl)
    next
      case (Cons fd rest)
      let ?now = "ansTime E (hist s)"
      let ?s1 = "s\<lparr>hist := hist s @ [(GetTimeNow, ATime ?now)]\<rparr>"
      let ?r = "debug_sub_hals E fd [0..<length (mSubHalList s)] (debug_header ?now ?s1) ?s1"
      obtain h where h: "snd ?r = ?s1\<lparr>hist := hist ?s1 @ h\<rparr>" "quiet h" using subs by blast
      have "debug E fds s = do_call (WriteStringToFd fd (fst ?r)) (snd ?r)"
        by (simp add: debug_def Some Cons getTimeNow_def Let_def case_prod_beta)
      with h show ?thesis
        by (intro quiet_changeI [of _ _ "(GetTimeNow, ATime ?now) # h @ [(WriteStringToFd fd (fst ?r), ANone)]"])
           (simp_all add: do_call_def quiet_call_def)
    qed
  qed
qed

lemma request_quiet: "request E s s' \<Longrightarrow> quiet_change s s'"
proof (erule requestE; hypsubst)
  have calls: "quiet_call (SubActivate i h en)" "quiet_call (SubBatch i h x y)" "quiet_call (SubFlush i h)"
    "quiet_call (SubInjectSensorData i e)" "quiet_call (SubRegisterDirectChannel i x)"
    "quiet_call (SubUnregisterDirectChannel i h)" "quiet_call (SubConfigDirectReport i h h' rate)"
    for i h en x y e h' rate by (simp_all add: quiet_call_def)
  note quiet = call_quiet quiet_change_refl calls
  show "quiet_change s (snd (setOperationMode E mode s))" for mode by (rule setOperationMode_quiet)
  show "quiet_change s (snd (activate E h enabled s))" for h enabled
    by (simp add: activate_def quiet)
  show "quiet_change s (snd (batch E h period latency s))" for h period latency
    by (simp add: batch_def quiet)
  show "quiet_change s (snd (flush E h s))" for h by (simp add: flush_def quiet)
  show inject: "quiet_change s (snd (injectSensorData E event s))" for event
    by (simp add: injectSensorData_def quiet Let_def)
  show "quiet_change s (snd (injectSensorData_2_1 E event s))" for event
    by (simp add: injectSensorData_2_1_def inject)
  show "quiet_change s (snd (registerDirectChannel E mem s))" for mem
    by (simp add: registerDirectChannel_def quiet split: option.split)
  show "quiet_change s (snd (unregisterDirectChannel E ch s))" for ch
    by (simp add: unregisterDirectChannel_def quiet split: option.split)
  show "quiet_change s (snd (configDirectReport E h ch rate s))" for h ch rate
    by (simp add: configDirectReport_def quiet Let_def split: option.split)
  show "quiet_change s (debug E fds s)" for fds by (rule debug_quiet)
qed

subsection \<open>What the other operations keep\<close>

text \<open>Everything the invariants of the system depend on beside events and wake lock.\<close>

definition table_grows :: "sensor_map \<Rightarrow> sensor_map \<Rightarrow> bool" where
  "table_grows m m' \<longleftrightarrow> (map_ok m \<longrightarrow> map_ok m' \<and> map_find m \<subseteq>\<^sub>m map_find m')"

lemma table_grows_refl [simp]: "table_grows m m"
  by (simp add: table_grows_def)

lemma table_grows_trans: "table_grows m m' \<Longrightarrow> table_grows m' m'' \<Longrightarrow> table_grows m m''"
  by (auto simp: table_grows_def intro: map_le_trans)

lemma table_grows_put: "map_find m k = None \<Longrightarrow> table_grows m (map_put k v m)"
  by (auto simp: table_grows_def map_le_def table.ok_put)

definition same_plant :: "hal_proxy \<Rightarrow> hal_proxy \<Rightarrow> bool" where
  "same_plant s s' \<longleftrightarrow>
     mEventQueue s' = mEventQueue s \<and> mWakeLockQueue s' = mWakeLockQueue s
     \<and> (mPendingWritesThread s' = PwNone \<longleftrightarrow> mPendingWritesThread s = PwNone)
     \<and> (mWakelockThread s' = WlNone \<longleftrightarrow> mWakelockThread s = WlNone)
     \<and> mThreadsRun s' = mThreadsRun s \<and> mSubHalList s' = mSubHalList s
     \<and> mDirectChannelSubHal s' = mDirectChannelSubHal s
     \<and> mDynamicSensorsCallback s' = mDynamicSensorsCallback s
     \<and> table_grows (mSensors s) (mSensors s') \<and> mDynamicSensors s' = mDynamicSensors s"

lemma same_plant_threads: "same_plant s s' \<Longrightarrow> threads_ok s \<Longrightarrow> threads_ok s'"
  by (auto simp: same_plant_def threads_ok_def)

text \<open>Events move only forward: some of the pending ones become settled behind the settled ones, and
  new ones, \<open>acc\<close>, only join at the end.\<close>

definition moves :: "Event list \<Rightarrow> hal_proxy \<Rightarrow> hal_proxy \<Rightarrow> bool" where
  "moves acc s s' \<longleftrightarrow>
     (\<exists>d. settled (hist s') = settled (hist s) @ d)
     \<and> settled (hist s') @ pending_events s' = settled (hist s) @ pending_events s @ acc"

lemma moves_same:
  assumes "settled (hist s') = settled (hist s)"
    and "mPendingWriteEventsQueue s' = mPendingWriteEventsQueue s"
    and "mPendingWritesThread s' = mPendingWritesThread s"
    and "mSizePendingWriteEventsQueue s' = mSizePendingWriteEventsQueue s"
    and "mMostEventsObservedPendingWriteEventsQueue s' = mMostEventsObservedPendingWriteEventsQueue s"
  shows "moves [] s s'" "pending_inv E s' = pending_inv E s"
  using pending_cong [OF assms(2-5)] assms(1) by (simp_all add: moves_def)

lemma post_rest:
  assumes "postEventsToMessageQueue E evs w lk s = Some s'"
  shows "same_plant s s'" "wakelock_inv s \<Longrightarrow> (lk \<longrightarrow> increment_ok w s) \<Longrightarrow> wakelock_inv s'"
    "\<exists>d. settled (hist s') = settled (hist s) @ d"
proof -
  let ?s1 = "if lk then snd (incrementRefCountAndMaybeAcquireWakelock E w s) else s"
  obtain n s2 where d: "post_direct E evs ?s1 = Some (n, s2)" "s' = post_pending E evs w n s2"
    using assms by (auto simp: postEventsToMessageQueue_def Let_def split: option.splits)
  obtain h where h: "s2 = ?s1\<lparr>hist := hist ?s1 @ h\<rparr>" "no_wakelock_call h"
    using post_direct_effect [OF d(1)] by auto
  show "same_plant s s'"
    using h by (simp add: d(2) post_pending_def same_plant_def ext_defs Let_def)
  show "\<exists>d. settled (hist s') = settled (hist s) @ d"
    using h by (simp add: d(2) post_pending_def ext_defs Let_def)
  assume inv: "wakelock_inv s" "lk \<longrightarrow> increment_ok w s"
  have "wakelock_inv ?s1" using inv by (simp add: increment_inv)
  then have "wakelock_inv s2" using h by (simp add: wakelock_inv_def wakelock_held_append)
  then show "wakelock_inv s'" by (simp add: d(2) post_pending_def wakelock_inv_def ext_defs Let_def)
qed

lemma post_moves:
  assumes "pending_inv E s" "max_size_ok E" "vector_ok evs"
    and "postEventsToMessageQueue E evs w lk s = Some s'"
  shows "\<exists>n \<le> length evs. moves (take n evs) s s'"
proof -
  note e = post_effect(2) [OF assms]
  obtain n where "n \<le> length evs" "post_accepted E evs
      (if lk then snd (incrementRefCountAndMaybeAcquireWakelock E w s) else s) = take n evs"
    using post_accepted_prefix by blast
  with e post_rest(3) [OF assms(4)] show ?thesis by (auto simp: moves_def)
qed

lemma count_plant:
  "countNumWakeupEvents E evs n s = Some (c, s') \<Longrightarrow> table_grows (mSensors s) (mSensors s')"
  using count_loop [of "mSensors s" E "take (unat n) evs" 0]
  by (auto simp: countNumWakeupEvents_def table_grows_def map_le_def split: if_splits prod.splits)

lemma pw_step_plant: "pw_step E s = Some s' \<Longrightarrow> same_plant s s'"
proof (cases "mPendingWritesThread s")
  case (PwWriting n q w)
  assume step: "pw_step E s = Some s'"
  obtain evs w' rest where front: "mPendingWriteEventsQueue s = (evs, w') # rest"
    using step PwWriting by (auto simp: pw_step_def pw_write_def split: list.splits)
  let ?c = "EventQueueWriteBlocking (take (unat n) evs) (kPendingWriteTimeoutNs E)"
  let ?s1 = "s\<lparr>hist := hist s @ [(?c, ABool (ansBool E (hist s) ?c))]\<rparr>"
  obtain s2 where s2: "s' = s2\<lparr>mPendingWritesThread := PwWritten n q\<rparr>"
    "s2 = ?s1 \<or> (\<exists>c t. countNumWakeupEvents E evs q ?s1 = Some (c, t) \<and>
        s2 = decrementRefCountAndMaybeReleaseWakelock c (-1) t)
      \<or> s2 = decrementRefCountAndMaybeReleaseWakelock w (-1) ?s1"
    using step PwWriting front
    by (auto simp: pw_step_def pw_write_def ext_defs Let_def split: if_splits option.splits)
  show ?thesis
    using s2(2)
  proof (elim disjE exE conjE)
    fix c t
    assume count: "countNumWakeupEvents E evs q ?s1 = Some (c, t)"
      and dec: "s2 = decrementRefCountAndMaybeReleaseWakelock c (-1) t"
    obtain m where t: "t = ?s1\<lparr>mSensors := m\<rparr>" using count_frame [OF count] by blast
    have "table_grows (mSensors s) m" using count_plant [OF count] by (simp add: t)
    then show ?thesis by (simp add: same_plant_def s2(1) dec PwWriting t)
  qed (simp_all add: same_plant_def s2(1) PwWriting)
next
  case (PwWritten n q)
  assume "pw_step E s = Some s'"
  with PwWritten show ?thesis by (auto simp: pw_step_def pw_end_def same_plant_def split: list.splits)
qed (auto simp: pw_step_def pw_begin_def same_plant_def ext_defs Let_def split: if_splits list.splits)

lemma pw_step_moves: "pending_inv E s \<Longrightarrow> pw_step E s = Some s' \<Longrightarrow> moves [] s s'"
proof -
  assume inv: "pending_inv E s" and step: "pw_step E s = Some s'"
  have "\<exists>d. settled (hist s') = settled (hist s) @ d"
  proof (cases "mPendingWritesThread s")
    case (PwWriting n q w)
    then have "pw_write E n q w s = Some s'" using step by (simp add: pw_step_def)
    from pw_write_effect [OF this] show ?thesis by metis
  next
    case PwLoop
    with step have "pw_begin E s = Some s'" by (simp add: pw_step_def)
    from pw_begin_effect(2) [OF inv PwLoop this] show ?thesis by simp
  next
    case (PwWritten n q)
    with step have "pw_end n q s = Some s'" by (simp add: pw_step_def)
    from pw_end_effect(3) [OF inv PwWritten this] show ?thesis by simp
  qed (use step in \<open>simp_all add: pw_step_def\<close>)
  with pw_step_effect(2) [OF inv step] show "moves [] s s'" by (simp add: moves_def)
qed

lemma wl_step_plant: "wl_step E s = Some s' \<Longrightarrow> same_plant s s'"
proof (frule wl_step_frame, erule wl_step_cases)
  assume "wl_frame s s'"
  then have f: "same_plant s s' \<longleftrightarrow> (mWakelockThread s' = WlNone \<longleftrightarrow> mWakelockThread s = WlNone)"
    by (simp add: same_plant_def wl_frame_def)
  show "s' = s \<Longrightarrow> same_plant s s'" by (simp add: same_plant_def)
  show "s' = wl_begin E s \<Longrightarrow> mWakelockThread s = WlLoop \<Longrightarrow> same_plant s s'"
    by (simp add: same_plant_def wl_begin_unfold Let_def)
  show "\<And>t. wl_read E t s = Some s' \<Longrightarrow> mWakelockThread s = WlReading t \<Longrightarrow> same_plant s s'"
    unfolding f by (auto simp: wl_read_def ext_defs Let_def split: if_splits)
  show "\<And>r. s' = wl_end r s \<Longrightarrow> mWakelockThread s = WlRead r \<Longrightarrow> same_plant s s'"
    by (simp add: same_plant_def wl_end_def Let_def split: option.split)
qed

lemma wl_step_moves: "wl_step E s = Some s' \<Longrightarrow> moves [] s s' \<and> (pending_inv E s' \<longleftrightarrow> pending_inv E s)"
  using moves_same [of s' s] wl_step_frame [of E s s'] by (simp add: wl_frame_def)

lemma request_keeps:
  assumes "request E s s'"
  shows "same_plant s s'" "moves [] s s'" "pending_inv E s' = pending_inv E s" "wakelock_inv s' = wakelock_inv s"
proof -
  obtain m h where s': "s' = s\<lparr>mCurrentOperationMode := m, hist := hist s @ h\<rparr>" "quiet h"
    using request_quiet [OF assms] by (auto simp: quiet_change_def)
  show "same_plant s s'" by (simp add: s' same_plant_def)
  show "moves [] s s'" "pending_inv E s' = pending_inv E s"
    using moves_same [of s' s] quiet_settled [OF s'(2)] by (simp_all add: s'(1))
  show "wakelock_inv s' = wakelock_inv s"
    using quiet_no_wakelock [OF s'(2)] by (simp add: s'(1) wakelock_inv_def wakelock_held_append)
qed

end
