(* ===== verification/Step_Systems.thy ===== *)
theory Step_Systems
  imports Main
begin

text \<open>
  Interfaces of transition systems, for the step relations of the proxy: an invariant that steps keep
  holds along every run; a simulation carries runs of one system over to another, and with them the
  invariants of the other; and a system whose changes are determined has one end.
\<close>

locale step_invariant =
  fixes step :: "'s \<Rightarrow> 's \<Rightarrow> bool"
    and inv :: "'s \<Rightarrow> bool"
  assumes step_inv: "step x y \<Longrightarrow> inv x \<Longrightarrow> inv y"
begin

lemma steps_inv: "step\<^sup>*\<^sup>* x y \<Longrightarrow> inv x \<Longrightarrow> inv y"
  by (induction rule: rtranclp_induct) (auto intro: step_inv)

end

locale step_simulation =
  fixes step :: "'s \<Rightarrow> 's \<Rightarrow> bool"
    and spec :: "'t \<Rightarrow> 't \<Rightarrow> bool"
    and abs :: "'s \<Rightarrow> 't"
  assumes simulates: "step x y \<Longrightarrow> abs y = abs x \<or> spec (abs x) (abs y)"
begin

lemma steps_simulate: "step\<^sup>*\<^sup>* x y \<Longrightarrow> spec\<^sup>*\<^sup>* (abs x) (abs y)"
proof (induction rule: rtranclp_induct)
  case (step y z)
  with simulates [OF step(2)] show ?case by (auto intro: rtranclp.rtrancl_into_rtrancl)
qed simp

end

locale invariant_simulation =
  step_simulation step spec abs + spec: step_invariant spec spec_inv
  for step :: "'s \<Rightarrow> 's \<Rightarrow> bool" and spec :: "'t \<Rightarrow> 't \<Rightarrow> bool" and abs :: "'s \<Rightarrow> 't"
    and spec_inv :: "'t \<Rightarrow> bool"

sublocale invariant_simulation \<subseteq> step_invariant step "\<lambda>x. spec_inv (abs x)"
proof
  fix x y
  assume "step x y" "spec_inv (abs x)"
  with simulates [of x y] show "spec_inv (abs y)" by (auto intro: spec.step_inv)
qed

text \<open>A state may have a step to itself, but only one to another state.\<close>

locale determined_changes =
  fixes step :: "'s \<Rightarrow> 's \<Rightarrow> bool"
  assumes determined: "step x y \<Longrightarrow> step x z \<Longrightarrow> y \<noteq> x \<Longrightarrow> z \<noteq> x \<Longrightarrow> y = z"
begin

lemma first_change:
  assumes "step\<^sup>*\<^sup>* x z"
  shows "z = x \<or> (\<exists>x'. x' \<noteq> x \<and> step x x' \<and> step\<^sup>*\<^sup>* x' z)"
  using assms
proof (induction rule: converse_rtranclp_induct)
  case (step x y)
  then show ?case by (cases "y = x") auto
qed simp

lemma still_ahead:
  assumes "step\<^sup>*\<^sup>* x e" "\<And>w. \<not> step e w" "step\<^sup>*\<^sup>* x z"
  shows "step\<^sup>*\<^sup>* z e"
  using assms(1,3)
proof (induction arbitrary: z rule: converse_rtranclp_induct)
  case base
  with first_change assms(2) have "z = e" by blast
  then show ?case by simp
next
  case (step x x1)
  show ?case
  proof (cases "x1 = x \<or> z = x")
    case True
    with step.IH [of z] step.prems step.hyps show ?thesis
      using converse_rtranclp_into_rtranclp [of step x x1] by auto
  next
    case False
    with first_change [OF step.prems] determined [OF step.hyps(1)] have "step\<^sup>*\<^sup>* x1 z" by blast
    then show ?thesis by (rule step.IH)
  qed
qed

lemma one_end:
  assumes "step\<^sup>*\<^sup>* x e" "\<And>w. \<not> step e w" "step\<^sup>*\<^sup>* x e'" "\<And>w. \<not> step e' w"
  shows "e' = e"
  using still_ahead [OF assms(1-3)] assms(4) by (metis converse_rtranclpE)

end

end
