(* ===== verification/Hal_Restart.thy ===== *)
theory Hal_Restart
  imports Hal_Frames Step_Systems
begin

text \<open>
  \<open>initializeCommon\<close> as the rest of the system sees it: it holds no lock from its beginning to its
  end, so posts, thread steps and other calls may fall between its statements. \<open>phase_step\<close> is the
  same code cut into phases, at each of which the restarting caller may be interrupted. A join is two
  phases: entering it, and waiting until the thread has returned.

  Run without interruption by others, with the joined thread finishing, the phases do exactly what
  \<open>initializeCommon\<close> does (\<open>restart_uninterrupted\<close>).
\<close>

subsection \<open>The phases\<close>

datatype init_phase =
    PhSignal
  | PhJoinPw
  | PhJoiningPw
  | PhJoinWl
  | PhJoiningWl
  | PhReset
  | PhDisableStatic
  | PhDisableDynamic
  | PhClearQueue
  | PhClearSize
  | PhInstall
  | PhFlags
  | PhStart Result
  | PhSubHal nat Result
  | PhMode Result

text \<open>The queues and the callback the framework passed.\<close>

type_synonym init_args = "nat \<times> nat \<times> nat"

text \<open>\<open>Idle\<close> carries the answer of the last call, if there was one.\<close>

datatype restart = Idle "Result option" | Restarting init_phase init_args

text \<open>The first statement, \<open>mThreadsRun.store(false)\<close>.\<close>

definition restart_begin :: "hal_proxy \<Rightarrow> hal_proxy" where
  "restart_begin s = s\<lparr>mThreadsRun := False\<rparr>"

fun phase_step :: "hal_env \<Rightarrow> init_args \<Rightarrow> init_phase \<Rightarrow> hal_proxy \<Rightarrow> restart \<times> hal_proxy" where
  "phase_step E a PhSignal s =
     (Restarting PhJoinPw a, do_call NotifyEventQueueWriteCV (do_call NotifyWakelockCV
        (stop_wakelock_queue E (stop_event_queue E s))))"
| "phase_step E a PhJoinPw s =
     (if mPendingWritesThread s = PwNone then (Restarting PhJoinWl a, s)
      else (Restarting PhJoiningPw a, do_call JoinPendingWritesThread s))"
| "phase_step E a PhJoiningPw s =
     (if mPendingWritesThread s = PwExited then (Restarting PhJoinWl a, s\<lparr>mPendingWritesThread := PwNone\<rparr>)
      else (Restarting PhJoiningPw a, s))"
| "phase_step E a PhJoinWl s =
     (if mWakelockThread s = WlNone then (Restarting PhReset a, s)
      else (Restarting PhJoiningWl a, do_call JoinWakelockThread s))"
| "phase_step E a PhJoiningWl s =
     (if mWakelockThread s = WlExited then (Restarting PhReset a, s\<lparr>mWakelockThread := WlNone\<rparr>)
      else (Restarting PhJoiningWl a, s))"
| "phase_step E a PhReset s = (Restarting PhDisableStatic a, resetSharedWakelock E s)"
| "phase_step E a PhDisableStatic s =
     (Restarting PhDisableDynamic a, deactivate_each E (map_keys (mSensors s)) s)"
| "phase_step E a PhDisableDynamic s =
     (Restarting PhClearQueue a, deactivate_each E (map_keys (mDynamicSensors s)) s)"
| "phase_step E a PhClearQueue s = (Restarting PhClearSize a, s\<lparr>mPendingWriteEventsQueue := []\<rparr>)"
| "phase_step E a PhClearSize s = (Restarting PhInstall a, s\<lparr>mSizePendingWriteEventsQueue := 0\<rparr>)"
| "phase_step E a PhInstall s =
     (case a of (eventQueue, wakeLockQueue, sensorsCallback) \<Rightarrow>
       (Restarting PhFlags a, s\<lparr>mDynamicSensors := map_empty,
          mDynamicSensorsCallback := Some sensorsCallback,
          mEventQueue := Some eventQueue, mWakeLockQueue := Some wakeLockQueue\<rparr>))"
| "phase_step E a PhFlags s =
     (let (result, s1) = create_event_flags E s;
          result' = (if mDynamicSensorsCallback s1 = None \<or> mEventQueue s1 = None
                        \<or> mWakeLockQueue s1 = None \<or> \<not> mEventQueueFlag s1
                     then BAD_VALUE else result)
      in (Restarting (PhStart result') a, s1))"
| "phase_step E a (PhStart result) s =
     (Restarting (PhSubHal 0 result) a,
      (do_call StartThreads (s\<lparr>mThreadsRun := True\<rparr>))
        \<lparr>mPendingWritesThread := PwLoop, mWakelockThread := WlLoop\<rparr>)"
| "phase_step E a (PhSubHal i result) s =
     (if i < length (mSubHalList s) then
        let (currRes, s1) = call_result E (SubInitialize i (of_nat i)) s
        in (Restarting (PhSubHal (Suc i) (if currRes \<noteq> OK then currRes else result)) a, s1)
      else (Restarting (PhMode result) a, s))"
| "phase_step E a (PhMode result) s = (Idle (Some result), s\<lparr>mCurrentOperationMode := NORMAL\<rparr>)"

subsection \<open>Uninterrupted runs\<close>

text \<open>While the caller waits in a join, the thread it waits for moves.\<close>

inductive restart_run ::
  "hal_env \<Rightarrow> init_args \<Rightarrow> restart \<times> hal_proxy \<Rightarrow> restart \<times> hal_proxy \<Rightarrow> bool" for E a where
  run_phase: "phase_step E a ph s = x \<Longrightarrow> restart_run E a (Restarting ph a, s) x"
| run_pw: "pw_step E s = Some s' \<Longrightarrow>
     restart_run E a (Restarting PhJoiningPw a, s) (Restarting PhJoiningPw a, s')"
| run_wl: "wl_step E s = Some s' \<Longrightarrow>
     restart_run E a (Restarting PhJoiningWl a, s) (Restarting PhJoiningWl a, s')"

lemma run_phases:
  "phase_step E a ph s = (r, s') \<Longrightarrow> (restart_run E a)\<^sup>*\<^sup>* (r, s') y \<Longrightarrow>
     (restart_run E a)\<^sup>*\<^sup>* (Restarting ph a, s) y"
  by (rule converse_rtranclp_into_rtranclp [of "restart_run E a"]) (auto intro: run_phase)

lemma run_pws:
  "pw_step E s = Some s' \<Longrightarrow> (restart_run E a)\<^sup>*\<^sup>* (Restarting PhJoiningPw a, s') y \<Longrightarrow>
     (restart_run E a)\<^sup>*\<^sup>* (Restarting PhJoiningPw a, s) y"
  by (rule converse_rtranclp_into_rtranclp [of "restart_run E a"]) (auto intro: run_pw)

lemma run_wls:
  "wl_step E s = Some s' \<Longrightarrow> (restart_run E a)\<^sup>*\<^sup>* (Restarting PhJoiningWl a, s') y \<Longrightarrow>
     (restart_run E a)\<^sup>*\<^sup>* (Restarting PhJoiningWl a, s) y"
  by (rule converse_rtranclp_into_rtranclp [of "restart_run E a"]) (auto intro: run_wl)

lemma run_join_pw:
  assumes "pending_inv E s" "\<not> mThreadsRun s" "join_pending_writes E s = Some t"
  shows "(restart_run E a)\<^sup>*\<^sup>* (Restarting PhJoinPw a, s) (Restarting PhJoinWl a, t)"
proof (cases "mPendingWritesThread s = PwNone")
  case True
  with assms(3) have "phase_step E a PhJoinPw s = (Restarting PhJoinWl a, t)"
    by (simp add: join_pending_writes_def)
  then show ?thesis by (rule run_phases) simp
next
  case False
  let ?j = "do_call JoinPendingWritesThread s"
  have j: "pending_inv E ?j" "\<not> mThreadsRun ?j" "mPendingWritesThread ?j \<noteq> PwNone"
    using assms False pending_cong(1) [of ?j s E] by (simp_all add: ext_defs)
  obtain u where u: "pw_turn E ?j = Some u" "mPendingWritesThread u = PwExited"
    using pw_turn_stopped [OF j] by blast
  then have t: "t = u\<lparr>mPendingWritesThread := PwNone\<rparr>" using assms(3) False by (simp add: join_pending_writes_def)
  obtain s1 s2 where st: "pw_step E ?j = Some s1" "pw_step E s1 = Some s2" "pw_step E s2 = Some u"
    using u(1) by (auto simp: pw_turn_def bind_eq_Some_conv)
  note run = st [THEN run_pws [where a = a]]
  have "(restart_run E a)\<^sup>*\<^sup>* (Restarting PhJoiningPw a, u) (Restarting PhJoinWl a, t)"
    by (rule run_phases [of E a PhJoiningPw u "Restarting PhJoinWl a" t]) (simp_all add: t u(2))
  from run_phases [OF _ run(1) [OF run(2) [OF run(3) [OF this]]]] False show ?thesis by simp
qed

lemma run_join_wl:
  assumes "\<not> mThreadsRun s" "mWakelockThread s \<noteq> WlNone \<longrightarrow> mWakeLockQueue s \<noteq> None"
    and "join_wakelocks E s = Some t"
  shows "(restart_run E a)\<^sup>*\<^sup>* (Restarting PhJoinWl a, s) (Restarting PhReset a, t)"
proof (cases "mWakelockThread s = WlNone")
  case True
  with assms(3) have "phase_step E a PhJoinWl s = (Restarting PhReset a, t)"
    by (simp add: join_wakelocks_def)
  then show ?thesis by (rule run_phases) simp
next
  case False
  let ?j = "do_call JoinWakelockThread s"
  have j: "\<not> mThreadsRun ?j" "mWakelockThread ?j \<noteq> WlNone" "mWakeLockQueue ?j \<noteq> None"
    using assms False by (simp_all add: ext_defs)
  obtain u where u: "wl_turn E ?j = Some u" "mWakelockThread u = WlExited"
    using wl_turn_stopped [OF j] by blast
  then have t: "t = u\<lparr>mWakelockThread := WlNone\<rparr>" using assms(3) False by (simp add: join_wakelocks_def)
  obtain s1 s2 where st: "wl_step E ?j = Some s1" "wl_step E s1 = Some s2" "wl_step E s2 = Some u"
    using u(1) by (auto simp: wl_turn_def bind_eq_Some_conv)
  note run = st [THEN run_wls [where a = a]]
  have "(restart_run E a)\<^sup>*\<^sup>* (Restarting PhJoiningWl a, u) (Restarting PhReset a, t)"
    by (rule run_phases [of E a PhJoiningWl u "Restarting PhReset a" t]) (simp_all add: t u(2))
  from run_phases [OF _ run(1) [OF run(2) [OF run(3) [OF this]]]] False show ?thesis by simp
qed

lemma run_subhals:
  assumes "i \<le> n" "length (mSubHalList s) = n"
    and "initialize_subhals E [i..<n] r s = (r', s')"
  shows "(restart_run E a)\<^sup>*\<^sup>* (Restarting (PhSubHal i r) a, s) (Restarting (PhMode r') a, s')"
  using assms
proof (induction "n - i" arbitrary: i r s)
  case 0
  then have "phase_step E a (PhSubHal i r) s = (Restarting (PhMode r') a, s')" by simp
  then show ?case by (rule run_phases) simp
next
  case (Suc k)
  then have less: "i < n" and k: "k = n - Suc i" by simp_all
  let ?c = "call_result E (SubInitialize i (of_nat i)) s"
  have "mSubHalList (snd ?c) = mSubHalList s" by (simp add: ext_defs Let_def)
  with Suc.prems less k Suc.hyps(1) [OF k, of "snd ?c" "if fst ?c \<noteq> OK then fst ?c else r"]
  have "(restart_run E a)\<^sup>*\<^sup>* (Restarting (PhSubHal (Suc i) (if fst ?c \<noteq> OK then fst ?c else r)) a, snd ?c)
      (Restarting (PhMode r') a, s')"
    by (simp add: upt_conv_Cons case_prod_beta Let_def)
  then show ?case using less Suc.prems(2)
    by (intro run_phases [of E a "PhSubHal i r" s]) (simp_all add: case_prod_beta Let_def)
qed

lemma stop_unfold:
  "stopThreads E s = Option.bind (join_pending_writes E (stop_signalled E s)) (join_wakelocks E)"
  by (simp add: stopThreads_def stop_signalled_def Let_def)

lemma signal_phase: "phase_step E a PhSignal (restart_begin s) = (Restarting PhJoinPw a, stop_signalled E s)"
  by (simp add: restart_begin_def stop_signalled_def)

lemma run_stop:
  assumes "pending_inv E s" "threads_ok s" "stopThreads E s = Some u"
  shows "(restart_run E a)\<^sup>*\<^sup>* (Restarting PhSignal a, restart_begin s) (Restarting PhReset a, u)"
proof -
  note sig = stop_signalled_effect [where E = E and s = s]
  have stopped: "\<not> mThreadsRun (stop_signalled E s)" "pending_inv E (stop_signalled E s)"
    using sig(1,2) assms(1) by (simp_all add: stop_frame_def)
  obtain t where t: "join_pending_writes E (stop_signalled E s) = Some t" "join_wakelocks E t = Some u"
    using assms(3) by (auto simp: stop_unfold bind_eq_Some_conv)
  obtain t' where t': "join_pending_writes E (stop_signalled E s) = Some t'" "stop_frame (stop_signalled E s) t'"
    "mWakelockThread t' = mWakelockThread (stop_signalled E s)"
    using join_pending_writes_total [OF stopped(2,1)] by metis
  with t(1) have same: "t' = t" by simp
  have "\<not> mThreadsRun t" "mWakelockThread t \<noteq> WlNone \<longrightarrow> mWakeLockQueue t \<noteq> None"
    using stop_frame_trans [OF sig(1) t'(2)] t'(3) sig(4) assms(2)
    by (auto simp: same stop_frame_def threads_ok_def)
  from run_join_wl [OF this t(2)] run_join_pw [OF stopped(2,1) t(1)]
  have "(restart_run E a)\<^sup>*\<^sup>* (Restarting PhJoinPw a, stop_signalled E s) (Restarting PhReset a, u)"
    by (rule rtranclp_trans [rotated])
  then show ?thesis by (rule run_phases [OF signal_phase])
qed

lemma restart_as_phases:
  assumes "pending_inv E s" and "threads_ok s" and "initialize E q wq cb s = Some (r, s')"
  shows "(restart_run E (q, wq, cb))\<^sup>*\<^sup>*
    (Restarting PhSignal (q, wq, cb), restart_begin s) (Idle (Some r), s')"
proof -
  let ?a = "(q, wq, cb)"
  obtain u where u: "stopThreads E s = Some u" using stopThreads_total [OF assms(1,2)] by metis
  let ?s1 = "resetSharedWakelock E u"
  let ?s2 = "deactivate_each E (map_keys (mSensors ?s1)) ?s1"
  let ?s3 = "deactivate_each E (map_keys (mDynamicSensors ?s2)) ?s2"
  let ?s4 = "?s3\<lparr>mPendingWriteEventsQueue := []\<rparr>"
  let ?s5 = "?s4\<lparr>mSizePendingWriteEventsQueue := 0\<rparr>"
  let ?s6 = "?s5\<lparr>mDynamicSensors := map_empty, mDynamicSensorsCallback := Some cb,
          mEventQueue := Some q, mWakeLockQueue := Some wq\<rparr>"
  let ?f = "create_event_flags E ?s6"
  let ?s7 = "snd ?f"
  let ?r = "if mDynamicSensorsCallback ?s7 = None \<or> mEventQueue ?s7 = None
     \<or> mWakeLockQueue ?s7 = None \<or> \<not> mEventQueueFlag ?s7 then BAD_VALUE else fst ?f"
  let ?s8 = "(do_call StartThreads (?s7\<lparr>mThreadsRun := True\<rparr>))
        \<lparr>mPendingWritesThread := PwLoop, mWakelockThread := WlLoop\<rparr>"
  let ?i = "initialize_subhals E [0..<length (mSubHalList ?s8)] ?r ?s8"
  have result: "r = fst ?i" "s' = (snd ?i)\<lparr>mCurrentOperationMode := NORMAL\<rparr>"
    using assms(3)
    by (simp_all only: initialize_def initializeCommon_def u disableAllSensors_def case_prod_beta Let_def
        option.case option.distinct simp_thms if_False option.inject prod.inject fst_conv snd_conv)
  have last: "(restart_run E ?a)\<^sup>*\<^sup>* (Restarting (PhMode r) ?a, snd ?i) (Idle (Some r), s')"
    by (rule run_phases [OF _ rtranclp.rtrancl_refl]) (simp only: phase_step.simps result(2))
  have "(restart_run E ?a)\<^sup>*\<^sup>* (Restarting (PhSubHal 0 ?r) ?a, ?s8) (Restarting (PhMode r) ?a, snd ?i)"
    by (rule run_subhals [OF le0 refl]) (simp only: result(1) prod.collapse)
  note subs = rtranclp_trans [OF this last]
  have "(restart_run E ?a)\<^sup>*\<^sup>* (Restarting (PhStart ?r) ?a, ?s7) (Idle (Some r), s')"
    by (rule run_phases [OF _ subs]) (simp only: phase_step.simps)
  then have "(restart_run E ?a)\<^sup>*\<^sup>* (Restarting PhFlags ?a, ?s6) (Idle (Some r), s')"
    by (rule run_phases [rotated]) (simp only: phase_step.simps case_prod_beta Let_def)
  then have "(restart_run E ?a)\<^sup>*\<^sup>* (Restarting PhInstall ?a, ?s5) (Idle (Some r), s')"
    by (rule run_phases [rotated]) (simp only: phase_step.simps case_prod_conv)
  then have "(restart_run E ?a)\<^sup>*\<^sup>* (Restarting PhClearSize ?a, ?s4) (Idle (Some r), s')"
    by (rule run_phases [rotated]) (simp only: phase_step.simps case_prod_conv)
  then have "(restart_run E ?a)\<^sup>*\<^sup>* (Restarting PhClearQueue ?a, ?s3) (Idle (Some r), s')"
    by (rule run_phases [rotated]) (simp only: phase_step.simps case_prod_conv)
  then have "(restart_run E ?a)\<^sup>*\<^sup>* (Restarting PhDisableDynamic ?a, ?s2) (Idle (Some r), s')"
    by (rule run_phases [rotated]) (simp only: phase_step.simps case_prod_conv)
  then have "(restart_run E ?a)\<^sup>*\<^sup>* (Restarting PhDisableStatic ?a, ?s1) (Idle (Some r), s')"
    by (rule run_phases [rotated]) (simp only: phase_step.simps case_prod_conv)
  then have "(restart_run E ?a)\<^sup>*\<^sup>* (Restarting PhReset ?a, u) (Idle (Some r), s')"
    by (rule run_phases [rotated]) (simp only: phase_step.simps case_prod_conv)
  with run_stop [OF assms(1,2) u] show ?thesis by (rule rtranclp_trans)
qed

text \<open>A step that changes something is determined by the state, so a run has one end.\<close>

lemma restart_run_determined:
  "restart_run E a x y \<Longrightarrow> restart_run E a x z \<Longrightarrow> y \<noteq> x \<Longrightarrow> z \<noteq> x \<Longrightarrow> y = z"
proof -
  assume y: "restart_run E a x y" "y \<noteq> x" and z: "restart_run E a x z" "z \<noteq> x"
  obtain ph s where x: "x = (Restarting ph a, s)" using y(1) by cases auto
  have pw: "s' = s" if "mPendingWritesThread s = PwExited" "pw_step E s = Some s'" for s'
    using that by (simp add: pw_step_def)
  have wl: "s' = s" if "mWakelockThread s = WlExited" "wl_step E s = Some s'" for s'
    using that by (simp add: wl_step_def)
  have "w = (if ph = PhJoiningPw \<and> mPendingWritesThread s \<noteq> PwExited
             then (Restarting PhJoiningPw a, the (pw_step E s))
             else if ph = PhJoiningWl \<and> mWakelockThread s \<noteq> WlExited
             then (Restarting PhJoiningWl a, the (wl_step E s)) else phase_step E a ph s)"
    if "restart_run E a x w" "w \<noteq> x" for w
    using that(1)
  proof cases
    case (run_phase ph' s0)
    then show ?thesis using that(2) x by (cases ph') auto
  next
    case (run_pw s0 s1)
    then show ?thesis using that(2) x pw by (cases "mPendingWritesThread s = PwExited") auto
  next
    case (run_wl s0 s1)
    then show ?thesis using that(2) x wl by (cases "mWakelockThread s = WlExited") auto
  qed
  with y z show "y = z" by metis
qed

interpretation restart: determined_changes "restart_run E a" for E a
  by unfold_locales (rule restart_run_determined)

lemma restart_run_one_end:
  assumes "(restart_run E a)\<^sup>*\<^sup>* x (Idle r, s)" "(restart_run E a)\<^sup>*\<^sup>* x (Idle r', s')"
  shows "(Idle r', s') = (Idle r, s)"
proof -
  have idle: "\<not> restart_run E a (Idle t, u) w" for t u w by (auto elim: restart_run.cases)
  show ?thesis by (rule restart.one_end [OF assms(1) idle assms(2) idle])
qed

subsection \<open>Property\<close>

text \<open>
  C13: the phases are the code: from a state with the invariants of the event path, an \<open>initialize\<close> that
  nothing interrupts, with only the joined threads moving while it waits for them, can take the phases
  to an end, and every end it can reach is the answer and the state of \<open>initialize\<close>.
\<close>

theorem restart_uninterrupted:
  assumes "pending_inv E s" and "threads_ok s"
  shows "(restart_run E (q, wq, cb))\<^sup>*\<^sup>* (Restarting PhSignal (q, wq, cb), restart_begin s) (Idle res, t)
      \<longleftrightarrow> (\<exists>r. res = Some r \<and> initialize E q wq cb s = Some (r, t))"
    (is "?run res t \<longleftrightarrow> _")
proof -
  obtain r s1 s0 f f' h where
    "initializeCommon E (Some q) (Some wq) (Some cb) s = Some (r, s1)"
    by (rule initializeCommon_trace [OF assms])
  then have init: "initialize E q wq cb s = Some (r, s1)" by (simp add: initialize_def)
  note run = restart_as_phases [OF assms init]
  then have "?run res t \<longleftrightarrow> res = Some r \<and> t = s1" using restart_run_one_end [OF run] by blast
  with init show ?thesis by auto
qed

theorem restart_uninterrupted_witness:
  "\<exists>r t. initialize quiet_env 4 5 6 mid_write_proxy = Some (r, t)
    \<and> (restart_run quiet_env (4, 5, 6))\<^sup>*\<^sup>*
        (Restarting PhSignal (4, 5, 6), restart_begin mid_write_proxy) (Idle (Some r), t)"
proof -
  obtain r1 s1 s0 f f' h where
    "initializeCommon quiet_env (Some 4) (Some 5) (Some 6) mid_write_proxy = Some (r1, s1)"
    by (rule initializeCommon_trace [OF mid_write_proxy_ok(1,2)])
  then have init: "initialize quiet_env 4 5 6 mid_write_proxy = Some (r1, s1)" by (simp add: initialize_def)
  with restart_uninterrupted [OF mid_write_proxy_ok(1,2), of 4 5 6 "Some r1" s1] show ?thesis by auto
qed

end
