(* ===== verification/Hal_System.thy ===== *)
theory Hal_System
  imports Hal_Restart
begin

text \<open>
  The proxy as a system: the framework's requests, the sub-HALs' posts and announcements, the scoped
  wakelocks, restarts, and the steps of the two threads, in any interleaving. Each rule of
  \<open>sys_step\<close> is one piece of the code that its locks make atomic: the threads move in the steps of
  \<open>pw_step\<close> and \<open>wl_step\<close>, a restart in the phases of \<open>phase_step\<close>, and a post in two steps, the
  callback's work on the events, which holds no lock, and \<open>postEventsToMessageQueue\<close>. Between any two
  steps anything else may happen. A waiting thread looks at its condition in steps of its own;
  \<open>Hal_Waits\<close> replaces them by condition variables.

  Shown is that every step keeps the invariant of the system, and that on the way the event path makes
  only steps of a queue that may lose but never reorders, duplicates or invents events.
\<close>

subsection \<open>The system\<close>

text \<open>The members before construction: no threads, nothing pending, no wake lock.\<close>

definition initial_members :: "hal_proxy \<Rightarrow> bool" where
  "initial_members s \<longleftrightarrow> fresh_members s
     \<and> mPendingWriteEventsQueue s = [] \<and> mSizePendingWriteEventsQueue s = 0
     \<and> mPendingWritesThread s = PwNone \<and> mWakelockThread s = WlNone
     \<and> mWakelockRefCount s = 0 \<and> mDynamicSensors s = map_empty
     \<and> mEventQueue s = None \<and> mWakeLockQueue s = None"

text \<open>The three ways to make a proxy.\<close>

inductive constructed :: "hal_env \<Rightarrow> hal_proxy \<Rightarrow> bool" for E where
  from_2_0: "initial_members s0 \<Longrightarrow> constructed E (HalProxy_from_2_0 E subHalList s0)"
| from_2_0_and_2_1: "initial_members s0 \<Longrightarrow>
     constructed E (HalProxy_from_2_0_and_2_1 E subHalList subHalListV2_1 s0)"
| from_config: "initial_members s0 \<Longrightarrow> constructed E (HalProxy_default E configFiles s0)"

text \<open>
  \<open>posted\<close> are the events whose posts have reached \<open>postEventsToMessageQueue\<close>, \<open>in_flight\<close> the posts
  that have passed the callback's check but have not yet taken the lock: the processed events, the
  number of wake-up events among them and whether they come with a locked wakelock.
\<close>

type_synonym post = "Event list \<times> size_t \<times> bool"

record system =
  posted :: "Event list"
  in_flight :: "post list"
  restarting :: restart
  proxy :: hal_proxy

definition start :: "hal_proxy \<Rightarrow> system" where
  "start c = \<lparr>posted = [], in_flight = [], restarting = Idle None, proxy = c\<rparr>"

text \<open>The queue was emptied and its size counter not yet reset.\<close>

definition clearing :: "restart \<Rightarrow> bool" where
  "clearing r = (case r of Restarting PhClearSize _ \<Rightarrow> True | _ \<Rightarrow> False)"

text \<open>The mutexes of the proxy. The wakelock functions return before they lock when no threads run.\<close>

datatype mutex = EventQueueWriteMutex | WakelockMutex | DynamicSensorsMutex

definition refcount_locks :: "hal_proxy \<Rightarrow> mutex set" where
  "refcount_locks s = (if mThreadsRun s then {WakelockMutex} else {})"

fun phase_locks :: "init_phase \<Rightarrow> mutex set" where
  "phase_locks PhReset = {WakelockMutex}"
| "phase_locks PhDisableDynamic = {DynamicSensorsMutex}"
| "phase_locks _ = {}"

text \<open>
  What the callers do, with the mutexes each step holds. A post does not fall between the two
  assignments of \<open>clearing\<close>, for which \<open>initializeCommon\<close> relies on having disabled all sensors;
  \<open>Hal_Races\<close> shows what happens when one does. An increment of the wakelock count from zero is by
  at least one, as the assertions of \<open>postEvents\<close> demand, and does not overflow it.
\<close>

inductive env_step ::
  "hal_env \<Rightarrow> sub_hal_callback \<Rightarrow> system \<Rightarrow> mutex set \<Rightarrow> system \<Rightarrow> bool" for E CB x where
  step_post_begin: "evs \<noteq> [] \<Longrightarrow> vector_ok evs \<Longrightarrow> areThreadsRunning CB (proxy x) \<Longrightarrow>
     processEvents E CB i evs (proxy x) = ((w, out), s') \<Longrightarrow>
     env_step E CB x {} (x\<lparr>in_flight := in_flight x @ [(out, w, lk)], proxy := s'\<rparr>)"
| step_post_commit: "in_flight x = us @ (out, w, lk) # vs \<Longrightarrow> \<not> clearing (restarting x) \<Longrightarrow>
     (lk \<longrightarrow> increment_ok w (proxy x)) \<Longrightarrow> postEventsToMessageQueue E out w lk (proxy x) = Some s' \<Longrightarrow>
     env_step E CB x ({EventQueueWriteMutex} \<union> (if lk then refcount_locks (proxy x) else {}))
       (x\<lparr>posted := posted x @ out, in_flight := us @ vs, proxy := s'\<rparr>)"
| step_scope_created: "increment_ok 1 (proxy x) \<Longrightarrow>
     env_step E CB x (refcount_locks (proxy x))
       (x\<lparr>proxy := snd (incrementRefCountAndMaybeAcquireWakelock E 1 (proxy x))\<rparr>)"
| step_scope_destroyed:
     "env_step E CB x (refcount_locks (proxy x))
       (x\<lparr>proxy := decrementRefCountAndMaybeReleaseWakelock 1 created (proxy x)\<rparr>)"
| step_connected: "onDynamicSensorsConnected E added i (proxy x) = Some s' \<Longrightarrow>
     env_step E CB x {DynamicSensorsMutex} (x\<lparr>proxy := s'\<rparr>)"
| step_disconnected: "onDynamicSensorsDisconnected E hs i (proxy x) = Some s' \<Longrightarrow>
     env_step E CB x {DynamicSensorsMutex} (x\<lparr>proxy := s'\<rparr>)"
| step_request: "request E (proxy x) s' \<Longrightarrow> env_step E CB x {} (x\<lparr>proxy := s'\<rparr>)"
| step_restart: "restarting x = Idle r \<Longrightarrow>
     env_step E CB x {} (x\<lparr>restarting := Restarting PhSignal a, proxy := restart_begin (proxy x)\<rparr>)"
| step_phase: "restarting x = Restarting ph a \<Longrightarrow> phase_step E a ph (proxy x) = (r, s') \<Longrightarrow>
     env_step E CB x (phase_locks ph) (x\<lparr>restarting := r, proxy := s'\<rparr>)"

inductive sys_step :: "hal_env \<Rightarrow> sub_hal_callback \<Rightarrow> system \<Rightarrow> system \<Rightarrow> bool" for E CB x where
  step_env: "env_step E CB x L y \<Longrightarrow> sys_step E CB x y"
| step_pending_writes: "pw_step E (proxy x) = Some s' \<Longrightarrow> sys_step E CB x (x\<lparr>proxy := s'\<rparr>)"
| step_wakelocks: "wl_step E (proxy x) = Some s' \<Longrightarrow> sys_step E CB x (x\<lparr>proxy := s'\<rparr>)"

definition reachable :: "hal_env \<Rightarrow> sub_hal_callback \<Rightarrow> hal_proxy \<Rightarrow> system \<Rightarrow> bool" where
  "reachable E CB c x \<longleftrightarrow> constructed E c \<and> (sys_step E CB)\<^sup>*\<^sup>* (start c) x"

subsection \<open>The invariant\<close>

text \<open>What a restart has done to the threads when it stands at a phase.\<close>

fun phase_rank :: "init_phase \<Rightarrow> nat" where
  "phase_rank PhSignal = 0" | "phase_rank PhJoinPw = 1" | "phase_rank PhJoiningPw = 2"
| "phase_rank PhJoinWl = 3" | "phase_rank PhJoiningWl = 4" | "phase_rank PhReset = 5"
| "phase_rank PhDisableStatic = 6" | "phase_rank PhDisableDynamic = 7"
| "phase_rank PhClearQueue = 8" | "phase_rank PhClearSize = 9" | "phase_rank PhInstall = 10"
| "phase_rank PhFlags = 11" | "phase_rank (PhStart _) = 12" | "phase_rank (PhSubHal _ _) = 13"
| "phase_rank (PhMode _) = 14"

definition phase_inv :: "restart \<Rightarrow> hal_proxy \<Rightarrow> bool" where
  "phase_inv r s \<longleftrightarrow>
     (case r of Idle _ \<Rightarrow> True
      | Restarting ph a \<Rightarrow>
          (phase_rank ph \<le> 12 \<longrightarrow> \<not> mThreadsRun s)
          \<and> (3 \<le> phase_rank ph \<and> phase_rank ph \<le> 12 \<longrightarrow> mPendingWritesThread s = PwNone)
          \<and> (5 \<le> phase_rank ph \<and> phase_rank ph \<le> 12 \<longrightarrow> mWakelockThread s = WlNone)
          \<and> (ph = PhJoiningPw \<longrightarrow> mPendingWritesThread s \<noteq> PwNone)
          \<and> (ph = PhJoiningWl \<longrightarrow> mWakelockThread s \<noteq> WlNone)
          \<and> (11 \<le> phase_rank ph \<longrightarrow> mEventQueue s \<noteq> None \<and> mWakeLockQueue s \<noteq> None))"

definition pending_ok :: "hal_env \<Rightarrow> restart \<Rightarrow> hal_proxy \<Rightarrow> bool" where
  "pending_ok E r s \<longleftrightarrow>
     (if clearing r then mPendingWriteEventsQueue s = [] \<and> mPendingWritesThread s = PwNone
      else pending_inv E s)"

text \<open>The tables and the constants of a proxy that was constructed as \<open>c\<close>.\<close>

definition plant_ok :: "hal_proxy \<Rightarrow> hal_proxy \<Rightarrow> bool" where
  "plant_ok c s \<longleftrightarrow>
     map_ok (mSensors c) \<and> table_grows (mSensors c) (mSensors s)
     \<and> mSubHalList s = mSubHalList c \<and> mDirectChannelSubHal s = mDirectChannelSubHal c
     \<and> map_ok (mDynamicSensors s)
     \<and> (\<forall>k info. map_find (mDynamicSensors s) k = Some info \<longrightarrow> si_sensorHandle info = k)
     \<and> (mEventQueue s \<noteq> None \<longrightarrow> mDynamicSensorsCallback s \<noteq> None \<and> mWakeLockQueue s \<noteq> None)"

definition sys_inv :: "hal_env \<Rightarrow> hal_proxy \<Rightarrow> system \<Rightarrow> bool" where
  "sys_inv E c x \<longleftrightarrow>
     phase_inv (restarting x) (proxy x) \<and> pending_ok E (restarting x) (proxy x)
     \<and> wakelock_inv (proxy x) \<and> threads_ok (proxy x) \<and> plant_ok c (proxy x)
     \<and> list_all (\<lambda>p. vector_ok (fst p)) (in_flight x)
     \<and> subseq (settled (hist (proxy x)) @ pending_events (proxy x)) (posted x)"

text \<open>The queue the event path refines: settled and pending events.\<close>

definition channel :: "hal_proxy \<Rightarrow> Event list \<times> Event list" where
  "channel s = (settled (hist s), pending_events s)"

inductive chan_step :: "Event list \<Rightarrow> Event list \<times> Event list \<Rightarrow> Event list \<times> Event list \<Rightarrow> bool" for new where
  chan_accept: "subseq acc new \<Longrightarrow> chan_step new (out, q) (out, q @ acc)"
| chan_send: "chan_step new (out, q @ q') (out @ q, q')"
| chan_clear: "chan_step new (out, q) (out, [])"

lemma moves_refines:
  assumes "moves acc s s'" "subseq acc new"
  shows "(chan_step new)\<^sup>*\<^sup>* (channel s) (channel s')"
proof -
  obtain d where d: "settled (hist s') = settled (hist s) @ d" "d @ pending_events s' = pending_events s @ acc"
    using assms(1) by (auto simp: moves_def)
  have "chan_step new (channel s) (settled (hist s), pending_events s @ acc)"
    unfolding channel_def by (rule chan_accept [OF assms(2)])
  moreover have "chan_step new (settled (hist s), d @ pending_events s') (settled (hist s) @ d, pending_events s')"
    by (rule chan_send)
  ultimately show ?thesis using d by (simp add: channel_def converse_rtranclp_into_rtranclp)
qed

text \<open>A step is right when the invariant holds after it and the channel made steps of the queue.\<close>

definition step_ok :: "hal_env \<Rightarrow> hal_proxy \<Rightarrow> system \<Rightarrow> system \<Rightarrow> bool" where
  "step_ok E c x y \<longleftrightarrow> sys_inv E c y
     \<and> (\<exists>new. posted y = posted x @ new \<and> (chan_step new)\<^sup>*\<^sup>* (channel (proxy x)) (channel (proxy y)))"

text \<open>Most steps keep everything the invariant is about and only move events forward.\<close>

definition keeps :: "hal_env \<Rightarrow> hal_proxy \<Rightarrow> hal_proxy \<Rightarrow> bool" where
  "keeps E s s' \<longleftrightarrow> same_plant s s' \<and> (pending_inv E s \<longrightarrow> pending_inv E s')
     \<and> (pending_inv E s \<or> mPendingWritesThread s = PwNone \<longrightarrow>
          moves [] s s' \<and> (wakelock_inv s \<longrightarrow> wakelock_inv s'))
     \<and> (mPendingWritesThread s = PwNone \<longrightarrow> mPendingWriteEventsQueue s' = mPendingWriteEventsQueue s)"

lemma keeps_same:
  assumes "same_plant s s'" "settled (hist s') = settled (hist s)"
    and "wakelock_inv s \<Longrightarrow> wakelock_inv s'"
    and "mPendingWriteEventsQueue s' = mPendingWriteEventsQueue s"
    and "mPendingWritesThread s' = mPendingWritesThread s"
    and "mSizePendingWriteEventsQueue s' = mSizePendingWriteEventsQueue s"
    and "mMostEventsObservedPendingWriteEventsQueue s' = mMostEventsObservedPendingWriteEventsQueue s"
  shows "keeps E s s'"
  using moves_same [OF assms(2,4-7)] assms(1,3,4) by (simp add: keeps_def)

lemma plant_ok_plant: "plant_ok c s \<Longrightarrow> same_plant s s' \<Longrightarrow> plant_ok c s'"
  by (auto simp: plant_ok_def same_plant_def intro: table_grows_trans)

lemma plant_ok_find:
  "plant_ok c s \<Longrightarrow> map_find (mSensors c) k = Some info \<Longrightarrow> map_find (mSensors s) k = Some info"
  by (simp add: plant_ok_def table_grows_def map_le_def) (metis domI)

lemma phase_inv_plant: "phase_inv r s \<Longrightarrow> same_plant s s' \<Longrightarrow> phase_inv r s'"
  by (auto simp: phase_inv_def same_plant_def split: restart.splits)

lemma moves_sub:
  "moves acc s s' \<Longrightarrow> subseq acc new \<Longrightarrow> subseq (settled (hist s) @ pending_events s) p \<Longrightarrow>
     subseq (settled (hist s') @ pending_events s') (p @ new)"
  using list_emb_append_mono [of "(=)" "settled (hist s) @ pending_events s" p acc new] by (simp add: moves_def)

lemma step_okI:
  assumes "sys_inv E c x" and "moves acc (proxy x) (proxy y)" and "subseq acc new" and "posted y = posted x @ new"
    and "phase_inv (restarting y) (proxy y)" "pending_ok E (restarting y) (proxy y)"
    "wakelock_inv (proxy y)" "threads_ok (proxy y)" "plant_ok c (proxy y)"
    "list_all (\<lambda>p. vector_ok (fst p)) (in_flight y)"
  shows "step_ok E c x y"
  using assms moves_sub [OF assms(2,3), of "posted x"] moves_refines [OF assms(2,3)]
  by (auto simp: step_ok_def sys_inv_def)

lemma keeps_moves: "keeps E s s' \<Longrightarrow> pending_ok E r s \<Longrightarrow> moves [] s s'"
  by (auto simp: keeps_def pending_ok_def split: if_splits)

lemma keeps_step:
  assumes inv: "sys_inv E c x" and k: "keeps E (proxy x) (proxy y)"
    and y: "posted y = posted x" "clearing (restarting y) = clearing (restarting x)"
      "list_all (\<lambda>p. vector_ok (fst p)) (in_flight y)" "phase_inv (restarting y) (proxy y)"
  shows "step_ok E c x y"
proof -
  note I = inv [unfolded sys_inv_def]
  have plant: "same_plant (proxy x) (proxy y)" using k by (simp add: keeps_def)
  have "mPendingWritesThread (proxy y) = PwNone \<longleftrightarrow> mPendingWritesThread (proxy x) = PwNone"
    using plant by (simp add: same_plant_def)
  with k I y(2) have pend: "pending_ok E (restarting y) (proxy y)"
    by (auto simp: keeps_def pending_ok_def)
  have wl: "wakelock_inv (proxy y)" using k I by (auto simp: keeps_def pending_ok_def split: if_splits)
  show ?thesis
    by (rule step_okI [OF inv keeps_moves [OF k] _ _ y(4) pend wl _ _ y(3)])
       (use I plant y(1) in \<open>auto intro: same_plant_threads plant_ok_plant\<close>)
qed

subsection \<open>Steps that keep everything\<close>

lemma keeps_pw: "pw_step E s = Some s' \<Longrightarrow> keeps E s s'"
proof -
  assume step: "pw_step E s = Some s'"
  have "mPendingWritesThread s = PwNone \<Longrightarrow> s' = s" using step by (simp add: pw_step_def)
  then show ?thesis
    using pw_step_plant [OF step] pw_step_moves [OF _ step] pw_step_effect(1,3) [OF _ step]
    by (auto simp: keeps_def moves_def)
qed

lemma keeps_wl: "wl_step E s = Some s' \<Longrightarrow> keeps E s s'"
  using wl_step_plant wl_step_moves wl_step_inv wl_step_frame by (simp add: keeps_def wl_frame_def)

lemma keeps_request: "request E s s' \<Longrightarrow> keeps E s s'"
  using request_keeps [of E s s'] request_quiet [of E s s'] by (auto simp: keeps_def quiet_change_def)

lemma keeps_increment: "increment_ok d s \<Longrightarrow> keeps E s (snd (incrementRefCountAndMaybeAcquireWakelock E d s))"
  by (rule keeps_same) (simp_all add: increment_inv same_plant_def)

lemma keeps_decrement: "keeps E s (decrementRefCountAndMaybeReleaseWakelock d t s)"
  by (rule keeps_same) (simp_all add: decrement_inv same_plant_def)

lemma keeps_quiet:
  assumes "s' = s\<lparr>hist := hist s @ h\<rparr>" "quiet h"
  shows "keeps E s s'"
  using quiet_settled [OF assms(2)] quiet_no_wakelock [OF assms(2)]
  by (intro keeps_same) (simp_all add: assms(1) same_plant_def wakelock_inv_def wakelock_held_append)

lemma keeps_call:
  "quiet_call c \<Longrightarrow> keeps E s (do_call c s)"
  "quiet_call c \<Longrightarrow> keeps E s (snd (call_result E c s))"
  by (rule keeps_quiet [where h = "[(c, ANone)]"] keeps_quiet [where h = "[(c, AResult (ansResult E (hist s) c))]"];
      simp add: ext_defs Let_def)+

lemma keeps_deactivate: "keeps E s (deactivate_each E hs s)"
proof -
  obtain rs where "deactivate_each E hs s = s\<lparr>hist := hist s @
       map2 (\<lambda>h r. (deactivation E h, AResult r)) (filter (\<lambda>h. isSubHalIndexValid h s) hs) rs\<rparr>"
    using deactivate_trace by blast
  then show ?thesis
    by (rule keeps_quiet) (auto simp: quiet_def list_all_iff quiet_call_def deactivation_def)
qed

lemma keeps_reset: "keeps E s (resetSharedWakelock E s)"
  by (rule keeps_same) (simp_all add: reset_inv same_plant_def)

lemma stop_signal_calls:
  "\<exists>h. do_call NotifyEventQueueWriteCV (do_call NotifyWakelockCV
      (stop_wakelock_queue E (stop_event_queue E s)))
    = s\<lparr>hist := hist s @ h @ [(NotifyWakelockCV, ANone), (NotifyEventQueueWriteCV, ANone)]\<rparr> \<and> quiet h"
proof -
  have same: "\<exists>h. t = t\<lparr>hist := hist t @ h\<rparr> \<and> quiet h" for t :: hal_proxy
    by (rule exI [of _ "[]"]) (cases t, simp)
  have read: "\<exists>h. stop_event_queue E t = t\<lparr>hist := hist t @ h\<rparr> \<and> quiet h" for t
  proof (cases "mEventQueueFlag t \<and> mEventQueue t \<noteq> None")
    case False
    then have eq: "stop_event_queue E t = t" by (auto simp: stop_event_queue_def)
    show ?thesis unfolding eq by (rule same)
  qed (auto simp: stop_event_queue_def ext_defs Let_def quiet_call_def)
  have wrote: "\<exists>h. stop_wakelock_queue E t = t\<lparr>hist := hist t @ h\<rparr> \<and> quiet h" for t
  proof (cases "mWakelockQueueFlag t \<and> mWakeLockQueue t \<noteq> None")
    case False
    then have eq: "stop_wakelock_queue E t = t" by (auto simp: stop_wakelock_queue_def)
    show ?thesis unfolding eq by (rule same)
  qed (auto simp: stop_wakelock_queue_def ext_defs Let_def quiet_call_def)
  obtain h where h: "stop_event_queue E s = s\<lparr>hist := hist s @ h\<rparr>" "quiet h" using read by blast
  obtain h' where h': "stop_wakelock_queue E (stop_event_queue E s)
      = (stop_event_queue E s)\<lparr>hist := hist (stop_event_queue E s) @ h'\<rparr>" "quiet h'" using wrote by blast
  show ?thesis
    by (intro exI [of _ "h @ h'"]) (simp add: h(2) h'(2), simp only: h'(1), simp add: h(1) ext_defs)
qed

lemma keeps_stop_signal:
  "keeps E s (do_call NotifyEventQueueWriteCV (do_call NotifyWakelockCV
     (stop_wakelock_queue E (stop_event_queue E s))))"
  (is "keeps E s ?s'")
proof -
  obtain h where h: "?s' = s\<lparr>hist := hist s @ h @ [(NotifyWakelockCV, ANone), (NotifyEventQueueWriteCV, ANone)]\<rparr>"
    "quiet h"
    using stop_signal_calls by blast
  let ?h = "h @ [(NotifyWakelockCV, ANone), (NotifyEventQueueWriteCV, ANone)]"
  have "settled ?h = []" "no_wakelock_call ?h"
    using quiet_settled [OF h(2)] quiet_no_wakelock [OF h(2)] by (simp_all add: no_wakelock_call_def)
  then show ?thesis
    unfolding h(1) by (intro keeps_same)
      (simp_all del: append_assoc add: same_plant_def wakelock_inv_def wakelock_held_append)
qed

lemma processEvents_effect:
  assumes "callback_documented CB" and "processEvents E CB i evs s = ((w, out), s')"
  shows "out = map (framework_event i) evs" "\<exists>m. s' = s\<lparr>mSensors := m\<rparr> \<and> table_grows (mSensors s) m"
proof -
  have "snd (fst (processEvents_loop E CB i evs (n, ev) s)) = ev @ map (framework_event i) evs
    \<and> (\<exists>m. snd (processEvents_loop E CB i evs (n, ev) s) = s\<lparr>mSensors := m\<rparr> \<and> table_grows (mSensors s) m)" for n ev
  proof (induction evs arbitrary: n ev s)
    case Nil
    show ?case by (auto intro: exI [of _ "mSensors s"])
  next
    case (Cons e evs)
    let ?h = "callback_setSubHalIndex (ev_sensorHandle e) i"
    obtain info s1 where get: "getSensorInfo CB ?h s = (info, s1)" by fastforce
    have s1: "\<exists>m. s1 = s\<lparr>mSensors := m\<rparr> \<and> table_grows (mSensors s) m"
    proof (cases "map_find (mSensors s) ?h")
      case None
      then have "s1 = s \<or> s1 = s\<lparr>mSensors := map_put ?h info (mSensors s)\<rparr>"
        using get assms(1) unfolding callback_documented_def by blast
      with table_grows_put [OF None] show ?thesis by (auto intro: exI [of _ "mSensors s"])
    next
      case (Some info')
      then have "getSensorInfo CB ?h s = (info', s)" using assms(1) unfolding callback_documented_def by blast
      with get show ?thesis by (auto intro: exI [of _ "mSensors s"])
    qed
    then obtain m where m: "s1 = s\<lparr>mSensors := m\<rparr>" "table_grows (mSensors s) m" by blast
    let ?n = "if si_flags info AND WAKE_UP E \<noteq> 0 then n + 1 else n"
    have step: "processEvents_loop E CB i (e # evs) (n, ev) s =
        processEvents_loop E CB i evs (?n, ev @ [framework_event i e]) s1"
      using get by (simp add: framework_event_def Let_def)
    from Cons.IH [where s = s1 and n = ?n and ev = "ev @ [framework_event i e]"] obtain m' where
      "snd (processEvents_loop E CB i (e # evs) (n, ev) s) = s1\<lparr>mSensors := m'\<rparr>"
      "table_grows (mSensors s1) m'" unfolding step by blast
    with m Cons.IH [where s = s1 and n = ?n and ev = "ev @ [framework_event i e]"] show ?case
      unfolding step by (auto intro!: exI [of _ m'] intro: table_grows_trans)
  qed
  from this [of 0 "[]"] assms(2)
  show "out = map (framework_event i) evs" "\<exists>m. s' = s\<lparr>mSensors := m\<rparr> \<and> table_grows (mSensors s) m"
    by (auto simp: processEvents_def)
qed

lemma keeps_process:
  assumes "callback_documented CB" "processEvents E CB i evs s = ((w, out), s')"
  shows "keeps E s s'"
proof -
  obtain m where "s' = s\<lparr>mSensors := m\<rparr>" "table_grows (mSensors s) m"
    using processEvents_effect(2) [OF assms] by blast
  then show ?thesis by (intro keeps_same) (simp_all add: same_plant_def wakelock_inv_def)
qed

subsection \<open>Restarts\<close>

lemma clearing_simps [simp]:
  "\<not> clearing (Idle r)" "clearing (Restarting ph a) \<longleftrightarrow> ph = PhClearSize"
  by (auto simp: clearing_def split: init_phase.split)

lemma keeps_refl: "keeps E s s"
  by (rule keeps_same) (simp_all add: same_plant_def)

lemma keeps_flags: "keeps E s (snd (create_event_flags E s))"
proof -
  obtain h f f' where "snd (create_event_flags E s) =
      s\<lparr>hist := hist s @ h, mEventQueueFlag := f, mWakelockQueueFlag := f'\<rparr>"
    "list_all (\<lambda>e. flag_call (fst e)) h"
    using create_event_flags_trace by blast
  moreover have "quiet h" using calculation(2) unfolding quiet_def
    by (rule list.pred_mono_strong) (auto simp: flag_call_def quiet_call_def)
  ultimately show ?thesis
    using quiet_settled quiet_no_wakelock
    by (intro keeps_same) (simp_all add: same_plant_def wakelock_inv_def wakelock_held_append)
qed

lemma keeps_mode: "keeps E s (s\<lparr>mCurrentOperationMode := m\<rparr>)"
  by (rule keeps_same) (simp_all add: same_plant_def wakelock_inv_def)

text \<open>Phases that keep everything.\<close>

definition plain_phase :: "init_phase \<Rightarrow> bool" where
  "plain_phase ph \<longleftrightarrow> ph \<noteq> PhJoiningPw \<and> ph \<noteq> PhJoiningWl \<and> ph \<noteq> PhClearQueue \<and> ph \<noteq> PhClearSize
     \<and> ph \<noteq> PhInstall \<and> (\<forall>r. ph \<noteq> PhStart r)"

lemma plain_phase_keeps:
  assumes "plain_phase ph" "phase_step E a ph s = (r, s')"
  shows "keeps E s s' \<and> \<not> clearing r \<and> (phase_inv (Restarting ph a) s \<longrightarrow> phase_inv r s')"
proof -
  have keep: "keeps E s s'"
    using assms keeps_flags [of E s]
    by (cases ph)
       (auto simp: plain_phase_def keeps_refl keeps_mode keeps_stop_signal keeps_reset keeps_deactivate case_prod_beta Let_def
          quiet_call_def split: if_splits intro: keeps_call)
  moreover have r: "r = fst (phase_step E a ph s)" using assms(2) by simp
  have "phase_inv (Restarting ph a) s \<Longrightarrow> phase_inv r s"
    using assms(1) unfolding r by (cases ph) (auto simp: phase_inv_def plain_phase_def case_prod_beta Let_def)
  then have "phase_inv (Restarting ph a) s \<longrightarrow> phase_inv r s'"
    using phase_inv_plant [of r s s'] keep by (auto simp: keeps_def)
  moreover have "\<not> clearing r"
    using assms(1) unfolding r by (cases ph) (auto simp: plain_phase_def case_prod_beta Let_def)
  ultimately show ?thesis by simp
qed

text \<open>The phases that only make calls, or only create the event flags.\<close>

lemma phase_calls:
  assumes "phase_step E a ph s = (r, s')" "ph \<in> {PhSignal, PhDisableStatic, PhDisableDynamic, PhFlags}"
  obtains h f f' where "s' = s\<lparr>hist := h, mEventQueueFlag := f, mWakelockQueueFlag := f'\<rparr>"
proof -
  note goal = that
  have calls: thesis if "s' = s\<lparr>hist := h\<rparr>" for h
    using that by (intro goal [where h = h and f = "mEventQueueFlag s" and f' = "mWakelockQueueFlag s"]) simp
  from assms(2) consider "ph = PhSignal" | "ph = PhDisableStatic" | "ph = PhDisableDynamic" | "ph = PhFlags" by blast
  then show thesis
  proof cases
    case 1
    obtain h where "s' = s\<lparr>hist := h\<rparr>" using stop_signal_calls [of E s] assms(1) 1 by auto
    then show thesis by (rule calls)
  next
    case 2
    obtain h where "s' = s\<lparr>hist := h\<rparr>"
      using deactivate_trace [where E = E and hs = "map_keys (mSensors s)" and s = s] assms(1) 2 by auto
    then show thesis by (rule calls)
  next
    case 3
    obtain h where "s' = s\<lparr>hist := h\<rparr>"
      using deactivate_trace [where E = E and hs = "map_keys (mDynamicSensors s)" and s = s] assms(1) 3 by auto
    then show thesis by (rule calls)
  next
    case 4
    have "s' = snd (create_event_flags E s)" using assms(1) 4 by (auto simp: case_prod_beta Let_def)
    with create_event_flags_trace [of E s] that show thesis by metis
  qed
qed

text \<open>A phase that changes nothing the history tells and nothing but the given parts of the state.\<close>

lemma plant_ok_same:
  assumes "plant_ok c s" "mSensors s' = mSensors s" "mSubHalList s' = mSubHalList s"
    "mDirectChannelSubHal s' = mDirectChannelSubHal s" "mDynamicSensors s' = mDynamicSensors s"
    "mDynamicSensorsCallback s' = mDynamicSensorsCallback s" "mEventQueue s' = mEventQueue s"
    "mWakeLockQueue s' = mWakeLockQueue s"
  shows "plant_ok c s'"
  using assms by (simp add: plant_ok_def)

lemma joined_pw_step:
  assumes inv: "sys_inv E c x" and r: "restarting x = Restarting PhJoiningPw a"
    and ex: "mPendingWritesThread (proxy x) = PwExited"
    and y: "y = x\<lparr>restarting := Restarting PhJoinWl a, proxy := (proxy x)\<lparr>mPendingWritesThread := PwNone\<rparr>\<rparr>"
  shows "step_ok E c x y"
proof -
  note I = inv [unfolded sys_inv_def]
  have "pending_events ((proxy x)\<lparr>mPendingWritesThread := PwNone\<rparr>) = pending_events (proxy x)"
    using ex by (simp add: pending_events_def)
  then have "moves [] (proxy x) (proxy y)" by (simp add: y moves_def)
  then show ?thesis
    using I r
    by (intro step_okI [OF inv, of "[]" _ "[]"])
       (auto simp: y phase_inv_def pending_ok_def pending_inv_def pw_position_ok_def wakelock_inv_def
          threads_ok_def plant_ok_def)
qed

lemma joined_wl_step:
  assumes inv: "sys_inv E c x" and r: "restarting x = Restarting PhJoiningWl a"
    and y: "y = x\<lparr>restarting := Restarting PhReset a, proxy := (proxy x)\<lparr>mWakelockThread := WlNone\<rparr>\<rparr>"
  shows "step_ok E c x y"
proof -
  note I = inv [unfolded sys_inv_def]
  have "moves [] (proxy x) (proxy y)" "pending_inv E (proxy y) = pending_inv E (proxy x)"
    using moves_same [of "proxy y" "proxy x"] by (simp_all add: y)
  then show ?thesis
    using I r
    by (intro step_okI [OF inv, of "[]" _ "[]"])
       (auto simp: y phase_inv_def pending_ok_def wakelock_inv_def threads_ok_def plant_ok_def)
qed

lemma cleared_queue_step:
  assumes inv: "sys_inv E c x" and r: "restarting x = Restarting PhClearQueue a"
    and y: "y = x\<lparr>restarting := Restarting PhClearSize a, proxy := (proxy x)\<lparr>mPendingWriteEventsQueue := []\<rparr>\<rparr>"
  shows "step_ok E c x y"
proof -
  note I = inv [unfolded sys_inv_def]
  have none: "mPendingWritesThread (proxy x) = PwNone" using I r by (simp add: phase_inv_def)
  then have ev: "pending_events (proxy y) = []" by (simp add: y pending_events_def)
  have "subseq (settled (hist (proxy x))) (posted x)"
    using I by (meson list_emb_append2 subseq_order.order_trans subseq_rev_drop_many subseq_order.order_refl)
  then have "sys_inv E c y"
    using I r none ev by (auto simp: y sys_inv_def phase_inv_def pending_ok_def wakelock_inv_def threads_ok_def plant_ok_def)
  moreover have "(chan_step [])\<^sup>*\<^sup>* (channel (proxy x)) (channel (proxy y))"
    unfolding channel_def ev by (rule r_into_rtranclp) (simp add: y chan_clear)
  ultimately show ?thesis by (auto simp: step_ok_def y intro: exI [of _ "[]"])
qed

lemma cleared_size_step:
  assumes inv: "sys_inv E c x" and r: "restarting x = Restarting PhClearSize a"
    and y: "y = x\<lparr>restarting := Restarting PhInstall a, proxy := (proxy x)\<lparr>mSizePendingWriteEventsQueue := 0\<rparr>\<rparr>"
  shows "step_ok E c x y"
proof -
  note I = inv [unfolded sys_inv_def]
  have q: "mPendingWriteEventsQueue (proxy x) = []" "mPendingWritesThread (proxy x) = PwNone"
    using I r by (simp_all add: pending_ok_def)
  have "moves [] (proxy x) (proxy y)" by (simp add: y moves_def pending_events_def)
  then show ?thesis
    using I r q
    by (intro step_okI [OF inv, of "[]" _ "[]"])
       (auto simp: y phase_inv_def pending_ok_def pending_inv_def pw_position_ok_def wakelock_inv_def
          threads_ok_def plant_ok_def)
qed

lemma installed_step:
  assumes inv: "sys_inv E c x" and r: "restarting x = Restarting PhInstall a"
    and y: "y = x\<lparr>restarting := Restarting PhFlags a, proxy := (proxy x)\<lparr>mDynamicSensors := map_empty,
      mDynamicSensorsCallback := Some cb, mEventQueue := Some q, mWakeLockQueue := Some wq\<rparr>\<rparr>"
  shows "step_ok E c x y"
proof -
  note I = inv [unfolded sys_inv_def]
  have "moves [] (proxy x) (proxy y)" "pending_inv E (proxy y) = pending_inv E (proxy x)"
    using moves_same [of "proxy y" "proxy x"] by (simp_all add: y)
  then show ?thesis
    using I r
    by (intro step_okI [OF inv, of "[]" _ "[]"])
       (auto simp: y phase_inv_def pending_ok_def wakelock_inv_def threads_ok_def plant_ok_def)
qed

lemma started_step:
  assumes inv: "sys_inv E c x" and r: "restarting x = Restarting (PhStart res) a"
    and y: "y = x\<lparr>restarting := Restarting (PhSubHal 0 res) a, proxy :=
      (do_call StartThreads ((proxy x)\<lparr>mThreadsRun := True\<rparr>))\<lparr>mPendingWritesThread := PwLoop, mWakelockThread := WlLoop\<rparr>\<rparr>"
  shows "step_ok E c x y"
proof -
  note I = inv [unfolded sys_inv_def]
  have none: "mPendingWritesThread (proxy x) = PwNone" using I r by (simp add: phase_inv_def)
  have "moves [] (proxy x) (proxy y)" using none by (simp add: y moves_def pending_events_def ext_defs)
  then show ?thesis
    using I r
    by (intro step_okI [OF inv, of "[]" _ "[]"])
       (auto simp: y phase_inv_def pending_ok_def pending_inv_def pw_position_ok_def wakelock_inv_def
          threads_ok_def plant_ok_def ext_defs)
qed

lemma phase_step_ok:
  assumes inv: "sys_inv E c x" and r: "restarting x = Restarting ph a"
    and step: "phase_step E a ph (proxy x) = (r, s')"
  shows "step_ok E c x (x\<lparr>restarting := r, proxy := s'\<rparr>)" (is "step_ok E c x ?y")
proof (cases "plain_phase ph")
  case True
  note k = plain_phase_keeps [OF True step]
  have "\<not> clearing (restarting x)" using True by (auto simp: r plain_phase_def)
  with k inv r show ?thesis by (intro keeps_step) (auto simp: sys_inv_def)
next
  case False
  have wait: "step_ok E c x ?y" if "r = Restarting ph a" "s' = proxy x"
    using inv r that keeps_refl by (intro keeps_step) (auto simp: sys_inv_def)
  from False consider "ph = PhJoiningPw" | "ph = PhJoiningWl" | "ph = PhClearQueue" | "ph = PhClearSize"
    | "ph = PhInstall" | res where "ph = PhStart res"
    unfolding plain_phase_def by blast
  then show ?thesis
  proof cases
    case 1
    with step wait r show ?thesis by (auto split: if_splits intro: joined_pw_step [OF inv])
  next
    case 2
    with step wait r show ?thesis by (auto split: if_splits intro: joined_wl_step [OF inv])
  next
    case 3
    with step r show ?thesis by (auto intro: cleared_queue_step [OF inv])
  next
    case 4
    with step r show ?thesis by (auto intro: cleared_size_step [OF inv])
  next
    case 5
    obtain q wq cb where "a = (q, wq, cb)" by (cases a)
    with 5 step r show ?thesis by (auto intro: installed_step [OF inv])
  next
    case 6
    with step r show ?thesis by (auto intro: started_step [OF inv])
  qed
qed

subsection \<open>Dynamic sensors and posts\<close>

definition own_handles :: "sensor_map \<Rightarrow> bool" where
  "own_handles m \<longleftrightarrow> (\<forall>k info. map_find m k = Some info \<longrightarrow> si_sensorHandle info = k)"

lemma own_handles_put: "map_ok m \<Longrightarrow> own_handles m \<Longrightarrow>
    own_handles (fold (\<lambda>x. map_put (si_sensorHandle x) x) xs m)"
proof -
  assume m: "map_ok m" "own_handles m"
  have "si_sensorHandle info = k" if "map_find (fold (\<lambda>x. map_put (si_sensorHandle x) x) xs m) k = Some info" for k info
    using table.fold_put_Some [OF m(1) that] m(2) unfolding own_handles_def by blast
  then show ?thesis by (simp add: own_handles_def)
qed

lemma own_handles_erase: "map_ok m \<Longrightarrow> own_handles m \<Longrightarrow> own_handles (fold map_erase ks m)"
  by (simp add: own_handles_def table.find_fold_erase)

lemma connected_form:
  assumes "onDynamicSensorsConnected E added i s = Some s'" "map_ok (mDynamicSensors s)" "own_handles (mDynamicSensors s)"
  shows "\<exists>m x. s' = s\<lparr>mDynamicSensors := m, hist := hist s @ [(CbDynamicSensorsConnected x, ANone)]\<rparr>
    \<and> map_ok m \<and> own_handles m"
proof -
  let ?m = "fold (\<lambda>x. map_put (si_sensorHandle x) x) (accepted_sensors E i added) (mDynamicSensors s)"
  have "s' = s\<lparr>mDynamicSensors := ?m, hist := hist s @ [(CbDynamicSensorsConnected (accepted_sensors E i added), ANone)]\<rparr>"
    using assms(1)
    by (auto simp: onDynamicSensorsConnected_def addDynamicSensors_fold ext_defs Let_def split: option.splits)
  moreover have "map_ok ?m" by (rule table.ok_fold_put [OF assms(2)])
  ultimately show ?thesis using own_handles_put [OF assms(2,3)] by blast
qed

lemma disconnected_form:
  assumes "onDynamicSensorsDisconnected E hs i s = Some s'" "map_ok (mDynamicSensors s)" "own_handles (mDynamicSensors s)"
  shows "\<exists>m x. s' = s\<lparr>mDynamicSensors := m, hist := hist s @ [(CbDynamicSensorsDisconnected x, ANone)]\<rparr>
    \<and> map_ok m \<and> own_handles m"
proof -
  have "map_ok (fst (removeDynamicSensors E i hs (mDynamicSensors s, [])))"
    "own_handles (fst (removeDynamicSensors E i hs (mDynamicSensors s, [])))"
    using table.ok_fold_erase [OF assms(2)] own_handles_erase [OF assms(2,3)] by (simp_all add: removeDynamicSensors_map)
  with assms(1) show ?thesis
    by (auto simp: onDynamicSensorsDisconnected_def ext_defs Let_def case_prod_beta split: option.splits)
qed

lemma dynamic_step:
  assumes inv: "sys_inv E c x"
    and s': "s' = (proxy x)\<lparr>mDynamicSensors := m, hist := hist (proxy x) @ [(cl, a)]\<rparr>" "map_ok m" "own_handles m"
    and cl: "cl \<in> {CbDynamicSensorsConnected y, CbDynamicSensorsDisconnected z}"
  shows "step_ok E c x (x\<lparr>proxy := s'\<rparr>)"
proof -
  note I = inv [unfolded sys_inv_def]
  have c: "cl \<noteq> AcquireWakeLock" "cl \<noteq> ReleaseWakeLock" "settled_by (cl, a) = []" using cl by auto
  have same: "moves [] (proxy x) s'" "pending_inv E s' = pending_inv E (proxy x)"
    using moves_same [of s' "proxy x"] c(3) by (simp_all add: s'(1))
  have "wakelock_inv s' = wakelock_inv (proxy x)"
    using c(1,2) by (auto simp: s'(1) wakelock_inv_def)
  with I same s'(2,3) show ?thesis
    by (intro step_okI [OF inv, of "[]" _ "[]"])
       (auto simp: s'(1) phase_inv_def pending_ok_def threads_ok_def plant_ok_def own_handles_def split: restart.splits)
qed

lemma post_step:
  assumes inv: "sys_inv E c x" and size: "max_size_ok E"
    and fl: "in_flight x = us @ (out, w, lk) # vs" and clear: "\<not> clearing (restarting x)"
    and ok: "lk \<longrightarrow> increment_ok w (proxy x)"
    and post: "postEventsToMessageQueue E out w lk (proxy x) = Some s'"
  shows "step_ok E c x (x\<lparr>posted := posted x @ out, in_flight := us @ vs, proxy := s'\<rparr>)"
proof -
  note I = inv [unfolded sys_inv_def]
  have p: "pending_inv E (proxy x)" "vector_ok out" using I clear fl by (simp_all add: pending_ok_def)
  note rest = post_rest [OF post]
  obtain n where n: "moves (take n out) (proxy x) s'" using post_moves [OF p(1) size p(2) post] by blast
  have sub: "subseq (take n out) out" by (simp add: prefix_imp_subseq take_is_prefix)
  have "pending_inv E s'" by (rule post_effect(1) [OF p(1) size p(2) post])
  then show ?thesis
    using I rest ok clear fl
    by (intro step_okI [OF inv, of "take n out" _ out])
       (auto simp: n sub pending_ok_def intro: phase_inv_plant same_plant_threads plant_ok_plant)
qed

subsection \<open>All steps\<close>

lemma env_step_effect:
  assumes step: "env_step E CB x L y"
    and env: "callback_documented CB" "max_size_ok E" and inv: "sys_inv E c x"
  shows "step_ok E c x y"
proof -
  note I = inv [unfolded sys_inv_def]
  have kept: "step_ok E c x (x\<lparr>in_flight := fl, proxy := s'\<rparr>)"
    if "keeps E (proxy x) s'" "list_all (\<lambda>p. vector_ok (fst p)) fl" for fl s'
    using that I by (intro keeps_step [OF inv]) (auto simp: keeps_def intro: phase_inv_plant)
  have kept': "step_ok E c x (x\<lparr>proxy := s'\<rparr>)" if "keeps E (proxy x) s'" for s'
    using that I by (intro keeps_step [OF inv]) (auto simp: keeps_def intro: phase_inv_plant)
  have own: "map_ok (mDynamicSensors (proxy x))" "own_handles (mDynamicSensors (proxy x))"
    using I by (simp_all add: plant_ok_def own_handles_def)
  from step show ?thesis
  proof cases
    case (step_post_begin evs i w out s' lk)
    have "vector_ok out"
      using processEvents_effect(1) [OF env(1) step_post_begin(6)] step_post_begin(4) by (simp add: vector_ok_def)
    with step_post_begin kept keeps_process [OF env(1)] I show ?thesis by simp
  next
    case step_post_commit
    then show ?thesis using post_step [OF inv env(2)] by blast
  next
    case (step_connected added i s')
    from connected_form [OF step_connected(3) own] obtain m z where
      "s' = (proxy x)\<lparr>mDynamicSensors := m, hist := hist (proxy x) @ [(CbDynamicSensorsConnected z, ANone)]\<rparr>"
      "map_ok m" "own_handles m" by blast
    from dynamic_step [OF inv this] show ?thesis by (simp add: step_connected(2))
  next
    case (step_disconnected hs i s')
    from disconnected_form [OF step_disconnected(3) own] obtain m z where
      "s' = (proxy x)\<lparr>mDynamicSensors := m, hist := hist (proxy x) @ [(CbDynamicSensorsDisconnected z, ANone)]\<rparr>"
      "map_ok m" "own_handles m" by blast
    from dynamic_step [OF inv this] show ?thesis by (simp add: step_disconnected(2))
  next
    case (step_restart r a)
    have "keeps E (proxy x) (proxy x)" by (rule keeps_refl)
    let ?s = "restart_begin (proxy x)"
    have same: "moves [] (proxy x) ?s" "pending_inv E ?s = pending_inv E (proxy x)"
      using moves_same [of ?s "proxy x"] by (simp_all add: restart_begin_def)
    with step_restart I show ?thesis
      by (intro step_okI [OF inv, of "[]" _ "[]"])
         (auto simp: restart_begin_def phase_inv_def pending_ok_def wakelock_inv_def threads_ok_def plant_ok_def)
  next
    case step_phase
    then show ?thesis using phase_step_ok [OF inv] by blast
  qed (auto intro: kept' keeps_increment keeps_decrement keeps_request)
qed

lemma sys_step_effect:
  assumes step: "sys_step E CB x y"
    and env: "callback_documented CB" "max_size_ok E" and inv: "sys_inv E c x"
  shows "step_ok E c x y"
proof -
  have kept: "step_ok E c x (x\<lparr>proxy := s'\<rparr>)" if "keeps E (proxy x) s'" for s'
    using that inv by (intro keeps_step [OF inv]) (auto simp: sys_inv_def keeps_def intro: phase_inv_plant)
  from step show ?thesis
    by cases (auto intro: kept keeps_pw keeps_wl env_step_effect [OF _ env inv])
qed

interpretation sys: step_invariant "sys_step E CB"
  "\<lambda>x. sys_inv E c x \<and> callback_documented CB \<and> max_size_ok E" for E CB c
  by unfold_locales (use sys_step_effect in \<open>auto simp: step_ok_def\<close>)

text \<open>The steps of an uninterrupted restart are steps of the system.\<close>

lemma run_step:
  assumes "restart_run E a p q"
  shows "sys_step E CB (x\<lparr>restarting := fst p, proxy := snd p\<rparr>) (x\<lparr>restarting := fst q, proxy := snd q\<rparr>)"
    (is "sys_step E CB (?x p) (?x q)")
  using assms
proof cases
  case (run_phase ph s)
  then show ?thesis
    using sys_step.step_env [OF env_step.step_phase [of "?x p" ph a E "fst q" "snd q" CB]] by simp
next
  case (run_pw s s')
  then show ?thesis using sys_step.step_pending_writes [of E "?x p" s' CB] by simp
next
  case (run_wl s s')
  then show ?thesis using sys_step.step_wakelocks [of E "?x p" s' CB] by simp
qed

interpretation run: step_simulation "restart_run E a" "sys_step E CB"
  "\<lambda>p. x\<lparr>restarting := fst p, proxy := snd p\<rparr>" for E a CB x
  by unfold_locales (simp add: run_step)

end
