(* ===== verification/Hal_Reachable.thy ===== *)
theory Hal_Reachable
  imports Hal_System
begin

text \<open>
  The reachable states of the system of \<open>Hal_System\<close>: the constructors establish the invariant, every
  step keeps it, and a restart on its own comes to an end. From this the properties of the whole
  proxy follow.
\<close>

subsection \<open>The constructed system\<close>

definition init_frame :: "hal_proxy \<Rightarrow> hal_proxy \<Rightarrow> bool" where
  "init_frame s s' \<longleftrightarrow>
     mPendingWriteEventsQueue s' = mPendingWriteEventsQueue s
     \<and> mSizePendingWriteEventsQueue s' = mSizePendingWriteEventsQueue s
     \<and> mPendingWritesThread s' = mPendingWritesThread s \<and> mWakelockThread s' = mWakelockThread s
     \<and> mWakelockRefCount s' = mWakelockRefCount s \<and> mDynamicSensors s' = mDynamicSensors s
     \<and> mEventQueue s' = mEventQueue s \<and> mWakeLockQueue s' = mWakeLockQueue s"

lemma addSensor_frame: "init_frame s (addSensor E i x s)"
  by (simp add: init_frame_def addSensor_def setDirectChannelFlags_def Let_def)

lemma addSensors_init_frame: "init_frame s (fold (addSensor E i) xs s)"
proof (induction xs arbitrary: s)
  case (Cons x xs)
  from Cons.IH [of "addSensor E i x s"] addSensor_frame [of s E i x] show ?case
    by (simp add: init_frame_def)
qed (simp add: init_frame_def)

lemma initializeSensorList_from_frame: "init_frame s (initializeSensorList_from E i n s)"
proof (induction E i n s rule: initializeSensorList_from.induct)
  case (1 E i n s)
  let ?r = "ansSensors E (hist s) (SubGetSensorsList i)"
  let ?s1 = "s\<lparr>hist := hist s @ [(SubGetSensorsList i, ASensors (fst ?r) (snd ?r))]\<rparr>"
  let ?s2 = "fold (addSensor E i) (fst ?r) ?s1"
  show ?case
  proof (cases "i < n")
    case True
    have call: "call_sensors E (SubGetSensorsList i) s = (?r, ?s1)" by (simp add: ext_defs Let_def)
    have "initializeSensorList_from E i n s = initializeSensorList_from E (Suc i) n ?s2"
      using True by (subst initializeSensorList_from.simps) (simp add: call case_prod_beta)
    moreover have "init_frame ?s2 (initializeSensorList_from E (Suc i) n ?s2)"
      using "1.IH" [OF True, of "(?r, ?s1)" ?r ?s1 "fst ?r" "snd ?r"] call by simp
    ultimately show ?thesis using addSensors_init_frame [of ?s1 E i "fst ?r"] by (simp add: init_frame_def)
  next
    case False
    then show ?thesis by (subst initializeSensorList_from.simps) (simp add: init_frame_def)
  qed
qed

text \<open>The three constructors start from members \<open>initial_members\<close> and end in \<open>hal_init\<close>; the one that
  reads the configuration file has called the dynamic linker before.\<close>

definition loader_call :: "ext_call \<Rightarrow> bool" where
  "loader_call c = (case c of DlOpen _ \<Rightarrow> True | DlSym _ _ \<Rightarrow> True | GetSubHal _ _ \<Rightarrow> True | _ \<Rightarrow> False)"

definition loads :: "hal_proxy \<Rightarrow> hal_proxy \<Rightarrow> bool" where
  "loads s s' \<longleftrightarrow> (\<exists>l h. s' = s\<lparr>mSubHalList := l, hist := hist s @ h\<rparr> \<and> list_all loader_call (map fst h))"

lemma loads_refl: "loads s s"
  unfolding loads_def by (intro exI [of _ "mSubHalList s"] exI [of _ "[]"]) simp

lemma loads_trans:
  assumes "loads s t" "loads t u"
  shows "loads s u"
proof -
  obtain l h l' h' where "t = s\<lparr>mSubHalList := l, hist := hist s @ h\<rparr>"
    "u = t\<lparr>mSubHalList := l', hist := hist t @ h'\<rparr>"
    and calls: "list_all loader_call (map fst h)" "list_all loader_call (map fst h')"
    using assms by (auto simp: loads_def)
  then have "u = s\<lparr>mSubHalList := l', hist := hist s @ h @ h'\<rparr>" by simp
  with calls show ?thesis unfolding loads_def by (intro exI [of _ l'] exI [of _ "h @ h'"]) simp
qed

lemma loads_call:
  assumes "loader_call c"
  shows "loads s (snd (call_handle E c s))" "loads s (snd (call_subhal E c s))"
  using assms unfolding loads_def
  by (auto simp: ext_defs Let_def intro!: exI [of _ "mSubHalList s"])

lemma loads_subhals: "loads s t \<Longrightarrow> loads s (t\<lparr>mSubHalList := l\<rparr>)"
proof -
  assume "loads s t"
  then obtain l' h where t: "t = s\<lparr>mSubHalList := l', hist := hist s @ h\<rparr>" "list_all loader_call (map fst h)"
    by (auto simp: loads_def)
  then have "t\<lparr>mSubHalList := l\<rparr> = s\<lparr>mSubHalList := l, hist := hist s @ h\<rparr>" by simp
  with t(2) show ?thesis unfolding loads_def by blast
qed

lemma loader_calls: "loader_call (DlOpen f)" "loader_call (DlSym n f)" "loader_call (GetSubHal n f)"
  by (simp_all add: loader_call_def)

lemma open_loads: "loads s (snd (open_in_locations E dirs lib s))"
proof (induction dirs arbitrary: s)
  case (Cons dir dirs)
  have "loads s (snd (call_handle E (DlOpen (dir @ lib)) s))" by (rule loads_call(1) [OF loader_calls(1)])
  from loads_trans [OF this Cons.IH] this show ?case by (simp add: case_prod_beta Let_def)
qed (simp add: loads_refl)

lemma load_sub_hal_loads: "loads s (load_sub_hal E lib s)"
proof -
  note call = loads_call [OF loader_calls(2)] loads_call [OF loader_calls(3)]
  have step: "loads s (snd (call_handle E (DlSym n f) t))" "loads s (snd (call_subhal E (GetSubHal n f) t))"
    if "loads s t" for n f t
    using that call loads_trans by blast+
  show ?thesis
    using open_loads [of s E kSubHalShareObjectLocations lib]
    unfolding load_sub_hal_def getHandleForSubHalSharedObject_def
    by (auto simp: case_prod_beta Let_def loads_subhals step split: option.split prod.splits)
qed

lemma config_loads: "loads s (initializeSubHalListFromConfigFile E files path s)"
proof -
  have "loads s (fold (load_sub_hal E) libs s)" for libs
  proof (induction libs arbitrary: s)
    case (Cons lib libs)
    from loads_trans [OF load_sub_hal_loads Cons.IH] show ?case by simp
  qed (simp add: loads_refl)
  then show ?thesis
    by (simp add: initializeSubHalListFromConfigFile_def loads_refl split: option.split)
qed

lemma loader_only:
  assumes "list_all loader_call (map fst h)"
  shows "quiet h" "reported h = {}"
proof -
  show "quiet h" unfolding quiet_calls
    using assms by (rule list.pred_mono_strong) (auto simp: loader_call_def quiet_call_def split: ext_call.splits)
  have "SubGetSensorsList i \<notin> set (map fst h)" for i
    using assms by (force simp: list_all_iff loader_call_def)
  then show "reported h = {}" unfolding reported_def by force
qed

lemma direct_in_range:
  assumes "i \<le> n" "\<forall>d. mDirectChannelSubHal s = Some d \<longrightarrow> d < n"
  shows "\<forall>d. mDirectChannelSubHal (initializeSensorList_from E i n s) = Some d \<longrightarrow> d < n"
  using assms
proof (induction E i n s rule: initializeSensorList_from.induct)
  case (1 E i n s)
  let ?r = "ansSensors E (hist s) (SubGetSensorsList i)"
  let ?s1 = "s\<lparr>hist := hist s @ [(SubGetSensorsList i, ASensors (fst ?r) (snd ?r))]\<rparr>"
  let ?s2 = "fold (addSensor E i) (fst ?r) ?s1"
  show ?case
  proof (cases "i < n")
    case True
    have add: "\<forall>d. mDirectChannelSubHal (fold (addSensor E i) xs t) = Some d \<longrightarrow> d < n"
      if "\<forall>d. mDirectChannelSubHal t = Some d \<longrightarrow> d < n" for xs t
      using that
    proof (induction xs arbitrary: t)
      case (Cons x xs)
      have "\<forall>d. mDirectChannelSubHal (addSensor E i x t) = Some d \<longrightarrow> d < n"
        using Cons.prems True by (simp add: addSensor_def setDirectChannelFlags_def Let_def)
      from Cons.IH [OF this] show ?case by simp
    qed simp
    have call: "call_sensors E (SubGetSensorsList i) s = (?r, ?s1)" by (simp add: ext_defs Let_def)
    have "initializeSensorList_from E i n s = initializeSensorList_from E (Suc i) n ?s2"
      using True by (subst initializeSensorList_from.simps) (simp add: call case_prod_beta)
    moreover have "\<forall>d. mDirectChannelSubHal ?s2 = Some d \<longrightarrow> d < n" using add [of ?s1] 1(3) by simp
    ultimately show ?thesis
      using "1.IH" [OF True, of "(?r, ?s1)" ?r ?s1 "fst ?r" "snd ?r"] call True by simp
  next
    case False
    then show ?thesis using 1(3) by (subst initializeSensorList_from.simps) simp
  qed
qed

text \<open>What holds of a constructed proxy.\<close>

lemma hal_init_effect:
  assumes s0: "initial_members s0" and s: "loads s0 s" and c: "c = hal_init E s"
  shows "sys_inv E c (start c)" "table_inv E (reported (hist c)) c"
    "\<forall>d. mDirectChannelSubHal c = Some d \<longrightarrow> d < length (mSubHalList c)"
    "\<forall>(i, z) \<in> reported (hist c). i < length (mSubHalList c)"
proof -
  obtain l h where h: "s = s0\<lparr>mSubHalList := l, hist := hist s0 @ h\<rparr>" "list_all loader_call (map fst h)"
    using s by (auto simp: loads_def)
  note fresh = s0 [unfolded initial_members_def fresh_members_def]
  have "table_inv E (reported (hist s)) s"
    using fresh loader_only(2) [OF h(2)] by (simp add: h(1) table_inv_def)
  note t = initializeSensorList_from_inv [OF this, of 0 "length (mSubHalList s)"]
  then show table: "table_inv E (reported (hist c)) c"
    by (simp add: c hal_init_def initializeSensorList_def)
  have lists: "map fst (hist c) = map fst h @ map SubGetSensorsList [0..<length l]" "mSubHalList c = l"
    using t fresh by (simp_all add: c hal_init_def initializeSensorList_def h(1))
  have "i < length l" if "(i, z) \<in> reported (hist c)" for i z
  proof -
    from that have "SubGetSensorsList i \<in> set (map fst (hist c))" by (force simp: reported_def)
    moreover have "SubGetSensorsList i \<notin> set (map fst h)"
      using h(2) by (force simp: list_all_iff loader_call_def)
    ultimately show ?thesis by (auto simp: lists(1))
  qed
  then show "\<forall>(i, z) \<in> reported (hist c). i < length (mSubHalList c)" by (auto simp: lists(2))
  show "\<forall>d. mDirectChannelSubHal c = Some d \<longrightarrow> d < length (mSubHalList c)"
  proof -
    have "mSubHalList s = l" "mDirectChannelSubHal s = None" using fresh by (simp_all add: h(1))
    moreover from this have "c = initializeSensorList_from E 0 (length l) s"
      by (simp add: c hal_init_def initializeSensorList_def)
    ultimately show ?thesis using direct_in_range [of 0 "length l" s E] unfolding lists(2) by simp
  qed
  have "init_frame s c"
    by (simp add: c hal_init_def initializeSensorList_def initializeSensorList_from_frame)
  then have f: "mPendingWriteEventsQueue c = []" "mSizePendingWriteEventsQueue c = 0"
    "mPendingWritesThread c = PwNone" "mWakelockThread c = WlNone" "mWakelockRefCount c = 0"
    "mDynamicSensors c = map_empty" "mEventQueue c = None"
    using s0 by (simp_all add: init_frame_def initial_members_def h(1))
  have "quiet (hist c)" unfolding quiet_calls lists(1)
    using loader_only(1) [OF h(2)] by (auto simp: quiet_calls list_all_iff quiet_call_def)
  then have "settled (hist c) = []" "\<not> wakelock_held (hist c)"
    using quiet_settled wakelock_held_append [OF quiet_no_wakelock, of "hist c" "[]"] by simp_all
  then show "sys_inv E c (start c)"
    using f table
    by (simp add: sys_inv_def start_def phase_inv_def pending_ok_def pending_inv_def pw_position_ok_def
        wakelock_inv_def threads_ok_def pending_events_def plant_ok_def table_inv_def)
qed

lemma constructed_hal_init:
  assumes "constructed E c"
  obtains s0 s where "initial_members s0" "loads s0 s" "c = hal_init E s"
  using assms
proof cases
  case (from_2_0 s0 l)
  with that [OF from_2_0(2) loads_subhals [OF loads_refl]] show ?thesis by (simp add: HalProxy_from_2_0_def)
next
  case (from_2_0_and_2_1 s0 l20 l21)
  with that [OF from_2_0_and_2_1(2) loads_subhals [OF loads_refl]] show ?thesis
    by (simp add: HalProxy_from_2_0_and_2_1_def Let_def)
next
  case (from_config s0 files)
  with that [OF from_config(2) config_loads] show ?thesis by (simp add: HalProxy_default_def)
qed

lemma constructed_effect:
  assumes "constructed E c"
  shows "sys_inv E c (start c)" "table_inv E (reported (hist c)) c"
    "\<forall>d. mDirectChannelSubHal c = Some d \<longrightarrow> d < length (mSubHalList c)"
    "\<forall>(i, z) \<in> reported (hist c). i < length (mSubHalList c)"
  using constructed_hal_init [OF assms] hal_init_effect by metis+

lemma reachable_inv:
  assumes "reachable E CB c x" and "callback_documented CB" and "max_size_ok E"
  shows "sys_inv E c x"
  using sys.steps_inv [of E CB "start c" x c] constructed_effect(1) assms by (auto simp: reachable_def)

lemma pw_step_total: "pending_inv E s \<Longrightarrow> threads_ok s \<Longrightarrow> pw_step E s \<noteq> None"
proof (cases "mPendingWritesThread s")
  case PwLoop
  assume "threads_ok s"
  with PwLoop show ?thesis
    by (auto simp: pw_step_def pw_begin_def threads_ok_def ext_defs Let_def split: list.split)
next
  case (PwWriting n q w)
  assume "pending_inv E s"
  from pw_write_defined [OF this PwWriting] PwWriting show ?thesis by (simp add: pw_step_def)
next
  case (PwWritten n q)
  assume "pending_inv E s"
  from pw_step_finish [OF this PwWritten] show ?thesis by fastforce
qed (simp_all add: pw_step_def)

lemma wl_step_total: "threads_ok s \<Longrightarrow> wl_step E s \<noteq> None"
  by (auto simp: wl_step_def wl_read_def threads_ok_def ext_defs Let_def split: wl_thread.split)

subsection \<open>Restarts come to an end\<close>

lemma run_steps:
  assumes "(restart_run E a)\<^sup>*\<^sup>* (restarting x, proxy x) p"
  shows "(sys_step E CB)\<^sup>*\<^sup>* x (x\<lparr>restarting := fst p, proxy := snd p\<rparr>)"
  using run.steps_simulate [OF assms, of CB x] by simp

definition past :: "init_phase \<Rightarrow> init_args \<Rightarrow> restart \<Rightarrow> bool" where
  "past ph a r \<longleftrightarrow> (\<exists>res. r = Idle (Some res)) \<or> (\<exists>ph'. r = Restarting ph' a \<and> phase_rank ph < phase_rank ph')"

lemma phase_advances:
  assumes pw: "ph = PhJoiningPw \<Longrightarrow> pending_inv E s \<and> \<not> mThreadsRun s \<and> mPendingWritesThread s \<noteq> PwNone"
    and wl: "ph = PhJoiningWl \<Longrightarrow> \<not> mThreadsRun s \<and> mWakelockThread s \<noteq> WlNone \<and> mWakeLockQueue s \<noteq> None"
  shows "\<exists>p. (restart_run E a)\<^sup>*\<^sup>* (Restarting ph a, s) p \<and> past ph a (fst p)"
proof -
  have one: ?thesis if "past ph a (fst (phase_step E a ph s))"
    using that run_phases [of E a ph s _ _ "phase_step E a ph s"] by (metis prod.collapse rtranclp.rtrancl_refl)
  consider "ph = PhJoiningPw" | "ph = PhJoiningWl" | i r where "ph = PhSubHal i r"
    | "ph \<noteq> PhJoiningPw" "ph \<noteq> PhJoiningWl" "\<And>i r. ph \<noteq> PhSubHal i r" by blast
  then show ?thesis
  proof cases
    case 1
    have j: "pending_inv E s" "\<not> mThreadsRun s" "mPendingWritesThread s \<noteq> PwNone"
      using pw [OF 1] by simp_all
    obtain u s1 s2 where u: "mPendingWritesThread u = PwExited"
      and st: "pw_step E s = Some s1" "pw_step E s1 = Some s2" "pw_step E s2 = Some u"
      using pw_turn_stopped [OF j] by (auto simp: pw_turn_def bind_eq_Some_conv)
    note run = st [THEN run_pws [where a = a]]
    have "(restart_run E a)\<^sup>*\<^sup>* (Restarting PhJoiningPw a, u) (Restarting PhJoinWl a, u\<lparr>mPendingWritesThread := PwNone\<rparr>)"
      by (rule run_phases [OF _ rtranclp.rtrancl_refl]) (simp add: u)
    from run(1) [OF run(2) [OF run(3) [OF this]]] show ?thesis by (auto simp: 1 past_def)
  next
    case 2
    have j: "\<not> mThreadsRun s" "mWakelockThread s \<noteq> WlNone" "mWakeLockQueue s \<noteq> None"
      using wl [OF 2] by simp_all
    obtain u s1 s2 where u: "mWakelockThread u = WlExited"
      and st: "wl_step E s = Some s1" "wl_step E s1 = Some s2" "wl_step E s2 = Some u"
      using wl_turn_stopped [OF j, of E] by (auto simp: wl_turn_def bind_eq_Some_conv)
    note run = st [THEN run_wls [where a = a]]
    have "(restart_run E a)\<^sup>*\<^sup>* (Restarting PhJoiningWl a, u) (Restarting PhReset a, u\<lparr>mWakelockThread := WlNone\<rparr>)"
      by (rule run_phases [OF _ rtranclp.rtrancl_refl]) (simp add: u)
    from run(1) [OF run(2) [OF run(3) [OF this]]] show ?thesis by (auto simp: 2 past_def)
  next
    case 3
    show ?thesis
    proof (cases "i \<le> length (mSubHalList s)")
      case True
      obtain r' s' where "initialize_subhals E [i..<length (mSubHalList s)] r s = (r', s')" by fastforce
      from run_subhals [OF True refl this, of a] show ?thesis
        by (intro exI [of _ "(Restarting (PhMode r') a, s')"]) (simp add: 3 past_def)
    next
      case False
      then show ?thesis by (intro one) (simp add: 3 past_def)
    qed
  next
    case 4
    then show ?thesis by (intro one; cases ph) (auto simp: past_def case_prod_beta Let_def)
  qed
qed

lemma restart_finishes:
  assumes "callback_documented CB" "max_size_ok E"
  shows "sys_inv E c x \<Longrightarrow> restarting x = Restarting ph a \<Longrightarrow>
    \<exists>res s. (restart_run E a)\<^sup>*\<^sup>* (Restarting ph a, proxy x) (Idle (Some res), s)"
proof (induction "14 - phase_rank ph" arbitrary: x ph rule: less_induct)
  case less
  have inv: "phase_inv (Restarting ph a) (proxy x)" "pending_ok E (Restarting ph a) (proxy x)" "threads_ok (proxy x)"
    using less.prems by (simp_all add: sys_inv_def)
  have "ph = PhJoiningPw \<Longrightarrow> pending_inv E (proxy x) \<and> \<not> mThreadsRun (proxy x) \<and> mPendingWritesThread (proxy x) \<noteq> PwNone"
    "ph = PhJoiningWl \<Longrightarrow> \<not> mThreadsRun (proxy x) \<and> mWakelockThread (proxy x) \<noteq> WlNone \<and> mWakeLockQueue (proxy x) \<noteq> None"
    using inv by (simp_all add: phase_inv_def pending_ok_def threads_ok_def)
  from phase_advances [OF this] obtain p where
    p: "(restart_run E a)\<^sup>*\<^sup>* (Restarting ph a, proxy x) p" "past ph a (fst p)" by blast
  let ?y = "x\<lparr>restarting := fst p, proxy := snd p\<rparr>"
  have "(sys_step E CB)\<^sup>*\<^sup>* x ?y" using run_steps [of E a x p CB] p(1) less.prems(2) by simp
  with less.prems(1) assms have inv': "sys_inv E c ?y" using sys.steps_inv [of E CB x ?y c] by blast
  from p(2) consider res where "fst p = Idle (Some res)"
    | ph' where "fst p = Restarting ph' a" "phase_rank ph < phase_rank ph'"
    by (auto simp: past_def)
  then show ?case
  proof cases
    case 1
    with p(1) show ?thesis by (metis prod.collapse)
  next
    case 2
    have "phase_rank ph' \<le> 14" by (cases ph') simp_all
    with 2(2) have "14 - phase_rank ph' < 14 - phase_rank ph" by simp
    from less.hyps [OF this inv'] 2(1) obtain res s where
      "(restart_run E a)\<^sup>*\<^sup>* (Restarting ph' a, snd p) (Idle (Some res), s)" by auto
    with p(1) 2(1) show ?thesis by (metis prod.collapse rtranclp_trans)
  qed
qed

subsection \<open>A run\<close>

text \<open>Construction from one 2.0 and one 2.1 sub-HAL, a first \<open>initialize\<close>, a scoped wakelock.\<close>

lemma max_size_sensors: "max_size_ok sensors_env"
  using max_size_quiet by (simp add: sensors_env_def max_size_ok_def)

lemma constructed_built: "constructed sensors_env built_proxy"
  unfolding built_proxy_def
  by (rule constructed.from_2_0_and_2_1)
     (simp add: initial_members_def fresh_members_def empty_proxy_def)

lemma built_inv: "pending_inv sensors_env built_proxy" "threads_ok built_proxy"
  using constructed_effect(1) [OF constructed_built] by (simp_all add: sys_inv_def start_def pending_ok_def)

definition started_proxy :: hal_proxy where
  "started_proxy = snd (the (initialize sensors_env 1 2 3 built_proxy))"

definition scoped_proxy :: hal_proxy where
  "scoped_proxy = snd (incrementRefCountAndMaybeAcquireWakelock sensors_env 1 started_proxy)"

definition scoped_system :: "Result \<Rightarrow> system" where
  "scoped_system r = \<lparr>posted = [], in_flight = [], restarting = Idle (Some r), proxy = scoped_proxy\<rparr>"

lemma started_count: "mWakelockRefCount started_proxy = 0" "mThreadsRun started_proxy"
proof -
  obtain r1 s1 s0 f f' h where t:
    "initializeCommon sensors_env (Some 1) (Some 2) (Some 3) built_proxy = Some (r1, s1)"
    "stop_frame (built_proxy\<lparr>mThreadsRun := False\<rparr>) s0"
    "s1 = after_initialize 1 2 3 f f' h (resetSharedWakelock sensors_env s0)"
    by (rule initializeCommon_trace [OF built_inv])
  have s1: "started_proxy = s1" using t(1) by (simp add: started_proxy_def initialize_def)
  have "mWakelockRefCount (resetSharedWakelock sensors_env s0) = mWakelockRefCount built_proxy"
    using t(2) reset_stopped [of s0 sensors_env] by (simp add: stop_frame_def)
  moreover have "mWakelockRefCount built_proxy = 0"
    using initializeSensorList_from_frame
    by (auto simp: built_proxy_def HalProxy_from_2_0_and_2_1_def hal_init_def initializeSensorList_def
        Let_def init_frame_def empty_proxy_def)
  ultimately show "mWakelockRefCount started_proxy = 0" "mThreadsRun started_proxy"
    by (simp_all add: s1 t(3) after_initialize_def)
qed

lemma started_run:
  "\<exists>r. (restart_run sensors_env (1, 2, 3))\<^sup>*\<^sup>*
     (Restarting PhSignal (1, 2, 3), restart_begin built_proxy) (Idle (Some r), started_proxy)"
proof -
  obtain r1 s1 s0 f f' h where t:
    "initializeCommon sensors_env (Some 1) (Some 2) (Some 3) built_proxy = Some (r1, s1)"
    by (rule initializeCommon_trace [OF built_inv])
  then have "initialize sensors_env 1 2 3 built_proxy = Some (r1, started_proxy)"
    by (simp add: initialize_def started_proxy_def)
  from restart_as_phases [OF built_inv this] show ?thesis by blast
qed

definition stopping_system :: system where
  "stopping_system = (start built_proxy)\<lparr>restarting := Restarting PhSignal (1, 2, 3),
     proxy := restart_begin built_proxy\<rparr>"

lemma stopping_reachable: "reachable sensors_env header_callback built_proxy stopping_system"
proof -
  have "sys_step sensors_env header_callback (start built_proxy) stopping_system"
    using sys_step.step_env [OF env_step.step_restart [of "start built_proxy" None sensors_env header_callback "(1, 2, 3)"]]
    by (simp add: stopping_system_def start_def)
  then show ?thesis by (simp add: reachable_def constructed_built r_into_rtranclp)
qed

lemma scoped_reachable: "\<exists>r. reachable sensors_env header_callback built_proxy (scoped_system r)"
proof -
  obtain r where run: "(restart_run sensors_env (1, 2, 3))\<^sup>*\<^sup>*
     (Restarting PhSignal (1, 2, 3), restart_begin built_proxy) (Idle (Some r), started_proxy)"
    using started_run by blast
  let ?y = "stopping_system\<lparr>restarting := Idle (Some r), proxy := started_proxy\<rparr>"
  have 1: "(sys_step sensors_env header_callback)\<^sup>*\<^sup>* stopping_system ?y"
    using run_steps [of sensors_env "(1, 2, 3)" stopping_system "(Idle (Some r), started_proxy)" header_callback] run
    by (simp add: stopping_system_def)
  have 2: "sys_step sensors_env header_callback ?y (scoped_system r)"
    using sys_step.step_env [OF env_step.step_scope_created [of ?y sensors_env header_callback]]
    by (simp add: scoped_system_def scoped_proxy_def stopping_system_def start_def increment_ok_def started_count)
  from stopping_reachable rtranclp.rtrancl_into_rtrancl [OF 1 2] show ?thesis
    unfolding reachable_def by (metis rtranclp_trans)
qed

lemma scoped_count: "mWakelockRefCount scoped_proxy \<noteq> 0"
  using started_count by (simp add: scoped_proxy_def incrementRefCountAndMaybeAcquireWakelock_def ext_defs Let_def)

subsection \<open>Properties\<close>





text \<open>
  C3: in no reachable state does a step of either thread read a missing element or follow a null
  pointer. Once queues are installed, neither does an announcement of dynamic sensors, nor, while
  the event flag exists, a post.
\<close>

theorem threads_never_fault:
  assumes "reachable E CB c x" and "callback_documented CB" and "max_size_ok E"
  shows "pw_step E (proxy x) \<noteq> None \<and> wl_step E (proxy x) \<noteq> None
    \<and> (mEventQueue (proxy x) \<noteq> None \<longrightarrow>
        onDynamicSensorsConnected E added i (proxy x) \<noteq> None
        \<and> onDynamicSensorsDisconnected E hs i (proxy x) \<noteq> None
        \<and> (mEventQueueFlag (proxy x) \<longrightarrow> postEventsToMessageQueue E out w lk (proxy x) \<noteq> None))"
proof -
  let ?s = "proxy x"
  note I = reachable_inv [OF assms, unfolded sys_inv_def]
  have "pw_step E ?s \<noteq> None"
  proof (cases "clearing (restarting x)")
    case True
    then have "mPendingWritesThread ?s = PwNone" using I by (simp add: pending_ok_def)
    then show ?thesis by (simp add: pw_step_def)
  next
    case False
    then show ?thesis using I by (intro pw_step_total) (simp_all add: pending_ok_def)
  qed
  moreover have "onDynamicSensorsConnected E added i ?s \<noteq> None"
    "onDynamicSensorsDisconnected E hs i ?s \<noteq> None" if "mEventQueue ?s \<noteq> None"
    using that I
    by (auto simp: plant_ok_def onDynamicSensorsConnected_def onDynamicSensorsDisconnected_def
        addDynamicSensors_fold ext_defs Let_def case_prod_beta)
  moreover have "postEventsToMessageQueue E out w lk ?s \<noteq> None" if "mEventQueue ?s \<noteq> None" "mEventQueueFlag ?s"
    using that by (auto simp: postEventsToMessageQueue_def post_direct_def ext_defs Let_def)
  ultimately show ?thesis using wl_step_total I by simp
qed

theorem threads_never_fault_witness:
  "wl_step sensors_env scoped_proxy \<noteq> None \<and> pw_step sensors_env scoped_proxy \<noteq> None"
proof -
  obtain r where r: "reachable sensors_env header_callback built_proxy (scoped_system r)"
    using scoped_reachable by blast
  from threads_never_fault [OF r header_callback_documented max_size_sensors]
  show ?thesis by (simp add: scoped_system_def)
qed

text \<open>
  C12: well-typed states: whatever happened since construction, every sensor collected then is still
  in \<open>mSensors\<close> unchanged and under its own handle, every dynamic sensor is under its own handle, the
  sub-HAL list is the same and the direct channel index is within it, a thread runs only on an
  installed queue, and an installed event queue comes with the framework's callback.
\<close>

theorem reachable_well_typed:
  assumes "reachable E CB c x" and "callback_documented CB" and "max_size_ok E"
  shows "(\<forall>k info. map_find (mSensors c) k = Some info \<longrightarrow>
        map_find (mSensors (proxy x)) k = Some info \<and> si_sensorHandle info = k)
    \<and> (\<forall>k info. map_find (mDynamicSensors (proxy x)) k = Some info \<longrightarrow> si_sensorHandle info = k)
    \<and> mSubHalList (proxy x) = mSubHalList c
    \<and> (\<forall>d. mDirectChannelSubHal (proxy x) = Some d \<longrightarrow> d < length (mSubHalList (proxy x)))
    \<and> (mPendingWritesThread (proxy x) \<noteq> PwNone \<longrightarrow> mEventQueue (proxy x) \<noteq> None)
    \<and> (mWakelockThread (proxy x) \<noteq> WlNone \<longrightarrow> mWakeLockQueue (proxy x) \<noteq> None)
    \<and> (mEventQueue (proxy x) \<noteq> None \<longrightarrow> mDynamicSensorsCallback (proxy x) \<noteq> None)"
proof -
  have plant: "plant_ok c (proxy x)" "threads_ok (proxy x)"
    using reachable_inv [OF assms] by (simp_all add: sys_inv_def)
  note C = constructed_effect [of E c]
  have c: "constructed E c" using assms(1) by (simp add: reachable_def)
  have "map_find (mSensors (proxy x)) k = Some info \<and> si_sensorHandle info = k"
    if "map_find (mSensors c) k = Some info" for k info
  proof
    show "map_find (mSensors (proxy x)) k = Some info" by (rule plant_ok_find [OF plant(1) that])
    show "si_sensorHandle info = k"
      using C(2) [OF c] that by (fastforce simp: table_inv_def published_def)
  qed
  with plant C(3) [OF c] show ?thesis by (simp add: plant_ok_def threads_ok_def)
qed

theorem reachable_well_typed_witness:
  "map_find (mSensors scoped_proxy) 0x01000004 \<noteq> None \<and> length (mSubHalList scoped_proxy) = 2"
proof -
  obtain r where r: "reachable sensors_env header_callback built_proxy (scoped_system r)"
    using scoped_reachable by blast
  note t = reachable_well_typed [OF r header_callback_documented max_size_sensors]
  have "map_find (mSensors built_proxy) 0x01000004 = Some (direct_sensor 0x01000004\<lparr>si_flags := 1\<rparr>)"
    by (simp add: built_proxy_sensors map_find_def)
  with t have "map_find (mSensors scoped_proxy) 0x01000004 \<noteq> None" by (auto simp: scoped_system_def)
  with t show ?thesis by (simp add: scoped_system_def built_proxy_sensors numeral_2_eq_2)
qed

text \<open>
  C5: end to end: in every reachable state, a sensor the proxy published when it was constructed is
  still published, and enabling, batching or flushing it is one call of the sub-HAL that reported it,
  on the handle under which it reported it, whose answer is returned.
\<close>

theorem published_sensor_requests_routed:
  assumes "reachable E CB c x" and "callback_documented CB" and "max_size_ok E"
    and "mask_documented E" and "length (mSubHalList c) \<le> 128"
    and "info \<in> set (getSensorsList_2_1 c)"
  shows "info \<in> set (getSensorsList_2_1 (proxy x))
    \<and> (\<exists>i z. (i, z) \<in> reported (hist c) \<and> si_name z = si_name info
        \<and> (\<forall>en. activate E (si_sensorHandle info) en (proxy x)
                 = call_result E (SubActivate i (si_sensorHandle z) en) (proxy x))
        \<and> (\<forall>period latency. batch E (si_sensorHandle info) period latency (proxy x)
                 = call_result E (SubBatch i (si_sensorHandle z) period latency) (proxy x))
        \<and> flush E (si_sensorHandle info) (proxy x)
                 = call_result E (SubFlush i (si_sensorHandle z)) (proxy x))"
proof -
  have plant: "plant_ok c (proxy x)" using reachable_inv [OF assms(1-3)] by (simp add: sys_inv_def)
  have c: "constructed E c" using assms(1) by (simp add: reachable_def)
  note table = constructed_effect(2) [OF c, unfolded table_inv_def]
  obtain k where k: "map_find (mSensors c) k = Some info"
    using assms(6) table by (auto simp: getSensorsList_2_1_def map_values_find)
  then obtain i z where iz: "(i, z) \<in> reported (hist c)" "published E (mDirectChannelSubHal c) i z k info"
    using table by fastforce
  have subs: "mSubHalList (proxy x) = mSubHalList c" using plant by (simp add: plant_ok_def)
  have "i < length (mSubHalList c)" using constructed_effect(4) [OF c] iz(1) by auto
  with assms(5) have "length (mSubHalList (proxy x)) \<le> 128" "i < length (mSubHalList (proxy x))"
    by (simp_all add: subs)
  note owner = entry_owner [OF assms(4) this iz(2)]
  have "map_ok (mSensors (proxy x))" "map_find (mSensors (proxy x)) k = Some info"
    using plant plant_ok_find [OF plant k] by (simp_all add: plant_ok_def table_grows_def)
  then have "info \<in> set (getSensorsList_2_1 (proxy x))"
    by (auto simp: getSensorsList_2_1_def map_values_find)
  moreover have "si_name z = si_name info" using iz(2) by (auto simp: published_def)
  ultimately show ?thesis using owner iz assms(4)
    by (intro conjI exI [of _ i] exI [of _ z])
       (simp_all add: activate_def batch_def flush_def published_def mask_documented_def)
qed

theorem published_sensor_requests_routed_witness:
  "\<exists>i z. (i, z) \<in> reported (hist built_proxy)
    \<and> activate sensors_env 4 True scoped_proxy
        = call_result sensors_env (SubActivate i (si_sensorHandle z) True) scoped_proxy"
proof -
  obtain r where r: "reachable sensors_env header_callback built_proxy (scoped_system r)"
    using scoped_reachable by blast
  have "direct_sensor 4 \<in> set (getSensorsList_2_1 built_proxy)"
    by (simp add: getSensorsList_2_1_def map_values_def built_proxy_sensors)
  moreover have "mask_documented sensors_env" "length (mSubHalList built_proxy) \<le> 128"
    by (simp_all add: mask_documented_def sensors_env_def quiet_env_def built_proxy_sensors)
  ultimately show ?thesis
    using published_sensor_requests_routed [OF r header_callback_documented max_size_sensors, of "direct_sensor 4"]
    by (auto simp: direct_sensor_def no_sensor_def scoped_system_def)
qed

end
