(* ===== verification/Hal_Ledger.thy ===== *)
theory Hal_Ledger
  imports Hal_Reachable
begin

text \<open>
  The ledger of the shared wake lock: every step of the system is booked by what it does to
  \<open>mWakelockRefCount\<close>, so that the count, and with it the kernel's wake lock, can be read off the
  bookings of a run, whatever its interleaving. The count is raised by posts that bring a locked
  wakelock and by scoped wakelocks, lowered by the framework's acknowledgements, by scoped wakelocks
  that end and by events that were dropped, and made void by the time-out. While the threads are
  stopped nothing is booked: the functions return before they touch the count.
\<close>

subsection \<open>Bookings\<close>

datatype booking = Raise nat | Lower nat | Void | Keep

text \<open>What a booking does to the count.\<close>

fun settle :: "booking \<Rightarrow> nat \<Rightarrow> nat" where
  "settle (Raise d) n = n + d"
| "settle (Lower d) n = n - d"
| "settle Void n = 0"
| "settle Keep n = n"

abbreviation refs :: "system \<Rightarrow> nat" where
  "refs x \<equiv> unat (mWakelockRefCount (proxy x))"

text \<open>A booking that counts only while the threads run.\<close>

definition if_running :: "hal_proxy \<Rightarrow> booking \<Rightarrow> booking" where
  "if_running s b = (if mThreadsRun s then b else Keep)"

text \<open>
  The blocking write of the pending-writes thread failed, with a batch that has wake-up events: what it
  takes back is \<open>failed_decrement\<close>, the wake-up events among those it dropped, or all the batch had.
\<close>

definition write_failed :: "hal_env \<Rightarrow> size_t \<Rightarrow> Event list \<Rightarrow> size_t \<Rightarrow> hal_proxy \<Rightarrow> bool" where
  "write_failed E n evs w s \<longleftrightarrow> w > 0 \<and>
     \<not> ansBool E (hist s) (EventQueueWriteBlocking (take (unat n) evs) (kPendingWriteTimeoutNs E))"

inductive booked :: "hal_env \<Rightarrow> sub_hal_callback \<Rightarrow> system \<Rightarrow> booking \<Rightarrow> system \<Rightarrow> bool" for E CB x where
  booked_post: "in_flight x = us @ (out, w, lk) # vs \<Longrightarrow> \<not> clearing (restarting x) \<Longrightarrow>
     (lk \<longrightarrow> increment_ok w (proxy x)) \<Longrightarrow> postEventsToMessageQueue E out w lk (proxy x) = Some s' \<Longrightarrow>
     booked E CB x (if lk then if_running (proxy x) (Raise (unat w)) else Keep)
       (x\<lparr>posted := posted x @ out, in_flight := us @ vs, proxy := s'\<rparr>)"
| booked_scope: "increment_ok 1 (proxy x) \<Longrightarrow>
     booked E CB x (if_running (proxy x) (Raise 1))
       (x\<lparr>proxy := snd (incrementRefCountAndMaybeAcquireWakelock E 1 (proxy x))\<rparr>)"
| booked_scope_end:
     "booked E CB x
       (if created \<noteq> -1 \<and> created < mWakelockTimeoutResetTime (proxy x) then Keep
        else if_running (proxy x) (Lower 1))
       (x\<lparr>proxy := decrementRefCountAndMaybeReleaseWakelock 1 created (proxy x)\<rparr>)"
| booked_drop: "pw_step E (proxy x) = Some s' \<Longrightarrow> mPendingWritesThread (proxy x) = PwWriting n q w \<Longrightarrow>
     mPendingWriteEventsQueue (proxy x) = (evs, w') # rest \<Longrightarrow> write_failed E n evs w (proxy x) \<Longrightarrow>
     booked E CB x (if_running (proxy x) (Lower (unat (failed_decrement E q evs w (proxy x)))))
       (x\<lparr>proxy := s'\<rparr>)"
| booked_acknowledged: "wl_step E (proxy x) = Some s' \<Longrightarrow> mWakelockThread (proxy x) = WlRead (Some n) \<Longrightarrow>
     booked E CB x (if_running (proxy x) (Lower (unat n))) (x\<lparr>proxy := s'\<rparr>)"
| booked_time_out: "wl_step E (proxy x) = Some s' \<Longrightarrow> mWakelockThread (proxy x) = WlLoop \<Longrightarrow>
     mThreadsRun (proxy x) \<Longrightarrow> wl_ready (proxy x) \<Longrightarrow> wl_timed_out E (proxy x) \<Longrightarrow>
     booked E CB x Void (x\<lparr>proxy := s'\<rparr>)"
| booked_other: "sys_step E CB x y \<Longrightarrow> mWakelockRefCount (proxy y) = mWakelockRefCount (proxy x) \<Longrightarrow>
     booked E CB x Keep y"

text \<open>The bookings of a run, in order.\<close>

inductive accounts :: "hal_env \<Rightarrow> sub_hal_callback \<Rightarrow> system \<Rightarrow> booking list \<Rightarrow> system \<Rightarrow> bool" for E CB x where
  accounts_Nil: "accounts E CB x [] x"
| accounts_snoc: "accounts E CB x bs y \<Longrightarrow> booked E CB y b z \<Longrightarrow> accounts E CB x (bs @ [b]) z"

fun raised :: "booking \<Rightarrow> nat" where
  "raised (Raise d) = d"
| "raised _ = 0"

fun lowered :: "booking \<Rightarrow> nat" where
  "lowered (Lower d) = d"
| "lowered _ = 0"

subsection \<open>The bookings are steps, and every step is booked\<close>

lemma booked_sys_step: "booked E CB x b y \<Longrightarrow> sys_step E CB x y"
proof (induction rule: booked.induct)
  case (booked_post us out w lk vs s')
  then show ?case by (intro sys_step.step_env [OF env_step.step_post_commit])
next
  case booked_scope
  then show ?case by (intro sys_step.step_env [OF env_step.step_scope_created])
next
  case booked_scope_end
  show ?case by (intro sys_step.step_env [OF env_step.step_scope_destroyed])
qed (auto intro: sys_step.step_pending_writes sys_step.step_wakelocks)

lemma same_count_phase:
  assumes "phase_inv (Restarting ph a) s" "phase_step E a ph s = (r, s')"
  shows "mWakelockRefCount s' = mWakelockRefCount s"
proof (cases "ph \<in> {PhSignal, PhDisableStatic, PhDisableDynamic, PhFlags}")
  case True
  from phase_calls [OF assms(2) this] obtain h f f'
    where "s' = s\<lparr>hist := h, mEventQueueFlag := f, mWakelockQueueFlag := f'\<rparr>" .
  then show ?thesis by simp
next
  case False
  with assms show ?thesis
    by (cases ph) (auto simp: phase_inv_def resetSharedWakelock_def decrement_stopped ext_defs
        case_prod_beta Let_def split: if_splits)
qed

lemma post_count:
  assumes "postEventsToMessageQueue E out w lk s = Some s'"
  shows "mWakelockRefCount s' = mWakelockRefCount
    (if lk then snd (incrementRefCountAndMaybeAcquireWakelock E w s) else s)"
proof -
  let ?s1 = "if lk then snd (incrementRefCountAndMaybeAcquireWakelock E w s) else s"
  obtain n s2 where d: "post_direct E out ?s1 = Some (n, s2)" "s' = post_pending E out w n s2"
    using assms by (auto simp: postEventsToMessageQueue_def Let_def split: option.splits)
  obtain h where "s2 = ?s1\<lparr>hist := hist ?s1 @ h\<rparr>" using post_direct_effect [OF d(1)] by auto
  then show ?thesis by (simp add: d(2) post_pending_def ext_defs Let_def)
qed

text \<open>What the threads do to the count.\<close>

lemma pw_write_count:
  assumes "pw_step E s = Some s'" "mPendingWritesThread s = PwWriting n q w" "map_ok (mSensors s)"
    and front: "mPendingWriteEventsQueue s = (evs, w') # rest" "vector_ok evs"
  shows "unat (mWakelockRefCount s') = unat (mWakelockRefCount s)
     - (if write_failed E n evs w s \<and> mThreadsRun s then unat (failed_decrement E q evs w s) else 0)"
proof -
  let ?c = "EventQueueWriteBlocking (take (unat n) evs) (kPendingWriteTimeoutNs E)"
  let ?s1 = "s\<lparr>hist := hist s @ [(?c, ABool (ansBool E (hist s) ?c))]\<rparr>"
  have written: "pw_write E n q w s = Some s'" using assms(1,2) by (simp add: pw_step_def)
  have lowered: "unat (mWakelockRefCount (decrementRefCountAndMaybeReleaseWakelock d (-1) t))
      = unat (mWakelockRefCount s) - (if mThreadsRun s then unat d else 0)"
    if "mWakelockRefCount t = mWakelockRefCount s" "mThreadsRun t = mThreadsRun s" for d t
    using that by (cases "mThreadsRun s") (simp_all add: decrement_default_count decrement_stopped)
  show ?thesis
  proof (cases "write_failed E n evs w s \<and> q < vsize evs")
    case True
    then have "unat q \<le> length evs" using front(2) by (simp add: word_less_nat_alt unat_vsize)
    then obtain m where m:
      "countNumWakeupEvents E evs q ?s1 = Some (failed_decrement E q evs w s, ?s1\<lparr>mSensors := m\<rparr>)"
      using count_loop [OF assms(3), of E "take (unat q) evs" 0] True
      by (auto simp: countNumWakeupEvents_def case_prod_beta Let_def failed_decrement_def)
    have "s' = (decrementRefCountAndMaybeReleaseWakelock (failed_decrement E q evs w s) (-1) (?s1\<lparr>mSensors := m\<rparr>))
        \<lparr>mPendingWritesThread := PwWritten n q\<rparr>"
      using written front True m by (simp add: pw_write_def ext_defs Let_def write_failed_def)
    with True lowered [of "?s1\<lparr>mSensors := m\<rparr>"] show ?thesis by simp
  next
    case False
    then have "s' = (if write_failed E n evs w s
        then decrementRefCountAndMaybeReleaseWakelock (failed_decrement E q evs w s) (-1) ?s1 else ?s1)
        \<lparr>mPendingWritesThread := PwWritten n q\<rparr>"
      using written front by (auto simp: pw_write_def ext_defs Let_def write_failed_def failed_decrement_def)
    then show ?thesis using lowered [of ?s1] by simp
  qed
qed

lemma pw_step_count:
  assumes "pw_step E s = Some s'" "\<And>n q w. mPendingWritesThread s \<noteq> PwWriting n q w"
  shows "mWakelockRefCount s' = mWakelockRefCount s"
  using assms
  by (auto simp: pw_step_def pw_begin_def pw_end_def ext_defs Let_def split: pw_thread.splits if_splits list.splits)

lemma wl_end_count:
  "unat (mWakelockRefCount (wl_end (Some n) s))
     = unat (mWakelockRefCount s) - (if mThreadsRun s then unat n else 0)"
  by (cases "mThreadsRun s")
     (simp_all add: wl_end_def decrement_default_count decrement_stopped unat_ucast_32_64)

lemma wl_begin_count:
  "mWakelockRefCount (wl_begin E s) =
     (if mThreadsRun s \<and> wl_ready s \<and> wl_timed_out E s then 0 else mWakelockRefCount s)"
proof (cases "mThreadsRun s")
  case True
  then show ?thesis
    by (auto simp: wl_begin_unfold wl_ready_def wl_timed_out_def Let_def word_gt_0 reset_count)
qed (simp add: wl_begin_unfold resetSharedWakelock_def decrement_stopped ext_defs Let_def)

lemma writing_front:
  assumes "sys_inv E c x" "mPendingWritesThread (proxy x) = PwWriting n q w"
  obtains evs w' rest where "mPendingWriteEventsQueue (proxy x) = (evs, w') # rest" "vector_ok evs"
    "map_ok (mSensors (proxy x))"
  using assms
  by (auto simp: sys_inv_def pending_ok_def plant_ok_def table_grows_def pending_inv_def pw_position_ok_def
      split: if_splits list.splits)

lemma booked_pw:
  assumes "pw_step E (proxy x) = Some s'" "sys_inv E c x"
  shows "\<exists>b. booked E CB x b (x\<lparr>proxy := s'\<rparr>)"
proof (cases "mWakelockRefCount s' = mWakelockRefCount (proxy x)")
  case True
  with booked_other [of E CB x "x\<lparr>proxy := s'\<rparr>"] sys_step.step_pending_writes [OF assms(1)] show ?thesis by auto
next
  case False
  then obtain n q w where pos: "mPendingWritesThread (proxy x) = PwWriting n q w"
    using pw_step_count [OF assms(1)] by blast
  obtain evs w' rest where front: "mPendingWriteEventsQueue (proxy x) = (evs, w') # rest" "vector_ok evs"
    "map_ok (mSensors (proxy x))" by (rule writing_front [OF assms(2) pos])
  have "write_failed E n evs w (proxy x)"
    using pw_write_count [OF assms(1) pos front(3,1,2)] False by (auto simp: word_unat_eq_iff split: if_splits)
  from booked_drop [OF assms(1) pos front(1) this] show ?thesis by blast
qed

text \<open>The pending-writes thread never raises the count.\<close>

lemma pw_lowers:
  assumes "pw_step E (proxy x) = Some s'" "sys_inv E c x"
  shows "unat (mWakelockRefCount s') \<le> refs x"
proof (cases "\<exists>n q w. mPendingWritesThread (proxy x) = PwWriting n q w")
  case True
  then obtain n q w where pos: "mPendingWritesThread (proxy x) = PwWriting n q w" by blast
  show ?thesis
  proof (rule writing_front [OF assms(2) pos])
    fix evs w' rest
    assume "mPendingWriteEventsQueue (proxy x) = (evs, w') # rest" "vector_ok evs" "map_ok (mSensors (proxy x))"
    from pw_write_count [OF assms(1) pos this(3,1,2)] show ?thesis by simp
  qed
next
  case False
  then show ?thesis using pw_step_count [OF assms(1)] by simp
qed

lemma booked_wl:
  assumes "wl_step E (proxy x) = Some s'"
  shows "\<exists>b. booked E CB x b (x\<lparr>proxy := s'\<rparr>)"
proof (cases "mWakelockRefCount s' = mWakelockRefCount (proxy x)")
  case True
  with booked_other [of E CB x "x\<lparr>proxy := s'\<rparr>"] sys_step.step_wakelocks [OF assms(1)] show ?thesis by auto
next
  case changed: False
  from assms show ?thesis
  proof (cases rule: wl_step_cases)
    case 2
    with changed have "mThreadsRun (proxy x)" "wl_ready (proxy x)" "wl_timed_out E (proxy x)"
      by (auto simp: wl_begin_count split: if_splits)
    from booked_time_out [OF assms 2(2) this] show ?thesis by blast
  next
    case (3 t)
    with changed show ?thesis by (auto simp: wl_read_def ext_defs Let_def split: if_splits)
  next
    case (4 r)
    with changed obtain n where "r = Some n" by (cases r) (auto simp: wl_end_def)
    with 4 booked_acknowledged [OF assms] show ?thesis by blast
  qed (use changed in simp)
qed

lemma booked_env:
  assumes step: "env_step E CB x L y" and inv: "sys_inv E c x" and cb: "callback_documented CB"
  shows "\<exists>b. booked E CB x b y"
proof -
  note I = inv [unfolded sys_inv_def]
  have other: ?thesis if "mWakelockRefCount (proxy y) = mWakelockRefCount (proxy x)"
    using booked_other [OF sys_step.step_env [OF step] that] by blast
  have own: "map_ok (mDynamicSensors (proxy x))" "own_handles (mDynamicSensors (proxy x))"
    using I by (simp_all add: plant_ok_def own_handles_def)
  from step show ?thesis
  proof cases
    case (step_post_begin evs i w out s' lk)
    with processEvents_effect(2) [OF cb] show ?thesis by (intro other) fastforce
  next
    case (step_post_commit us out w lk vs s')
    from booked_post [OF step_post_commit(3-6)] show ?thesis unfolding step_post_commit(2) by blast
  next
    case step_scope_created
    from booked_scope [OF step_scope_created(3)] show ?thesis unfolding step_scope_created(2) by blast
  next
    case (step_scope_destroyed created)
    from booked_scope_end show ?thesis unfolding step_scope_destroyed(2) by blast
  next
    case (step_connected added i s')
    from connected_form [OF step_connected(3) own] step_connected(2) show ?thesis by (intro other) auto
  next
    case (step_disconnected hs i s')
    from disconnected_form [OF step_disconnected(3) own] step_disconnected(2) show ?thesis by (intro other) auto
  next
    case (step_request s')
    from request_quiet [OF step_request(3)] step_request(2) show ?thesis
      by (intro other) (auto simp: quiet_change_def)
  next
    case step_restart
    then show ?thesis by (intro other) (simp add: restart_begin_def)
  next
    case (step_phase ph a r s')
    from same_count_phase [OF _ step_phase(4)] I step_phase show ?thesis by (intro other) simp
  qed
qed

lemma step_booked:
  assumes step: "sys_step E CB x y" and inv: "sys_inv E c x" and cb: "callback_documented CB"
  shows "\<exists>b. booked E CB x b y"
  using step by cases (use booked_env [OF _ inv cb] booked_pw [OF _ inv] booked_wl in auto)

subsection \<open>What a booking does\<close>

lemma booked_count:
  assumes "booked E CB x b y" "sys_inv E c x"
  shows "refs y = settle b (refs x)"
  using assms(1)
proof cases
  case (booked_post us out w lk vs s')
  have "\<not> mThreadsRun (proxy x) \<Longrightarrow> snd (incrementRefCountAndMaybeAcquireWakelock E w (proxy x)) = proxy x"
    by (simp add: wakelock_defs)
  with booked_post post_count [OF booked_post(6)] increment_count [of "proxy x" w E] show ?thesis
    by (auto simp: if_running_def)
next
  case booked_scope
  have "\<not> mThreadsRun (proxy x) \<Longrightarrow> snd (incrementRefCountAndMaybeAcquireWakelock E 1 (proxy x)) = proxy x"
    by (simp add: wakelock_defs)
  with booked_scope increment_count [of "proxy x" 1 E] show ?thesis by (auto simp: if_running_def)
next
  case (booked_scope_end created)
  then show ?thesis
    by (cases "mThreadsRun (proxy x)") (simp_all add: if_running_def decrement_count decrement_stopped)
next
  case (booked_drop s' n q w evs w' rest)
  obtain "map_ok (mSensors (proxy x))" "vector_ok evs"
    using writing_front [OF assms(2) booked_drop(4)] booked_drop(5) by auto
  from pw_write_count [OF booked_drop(3,4) this(1) booked_drop(5) this(2)] booked_drop show ?thesis
    by (simp add: if_running_def)
next
  case (booked_acknowledged s' n)
  then have "s' = wl_end (Some n) (proxy x)" by (simp add: wl_step_def)
  with booked_acknowledged show ?thesis by (simp add: wl_end_count if_running_def)
next
  case (booked_time_out s')
  then have "s' = wl_begin E (proxy x)" by (simp add: wl_step_def)
  with booked_time_out show ?thesis by (simp add: wl_begin_count)
qed simp

lemma accounts_steps: "accounts E CB x bs y \<Longrightarrow> (sys_step E CB)\<^sup>*\<^sup>* x y"
  by (induction rule: accounts.induct) (auto intro: rtranclp.rtrancl_into_rtrancl booked_sys_step)

lemma steps_accounted:
  assumes "(sys_step E CB)\<^sup>*\<^sup>* x y" "sys_inv E c x" "callback_documented CB" "max_size_ok E"
  shows "\<exists>bs. accounts E CB x bs y"
  using assms(1)
proof (induction rule: rtranclp_induct)
  case base
  show ?case using accounts_Nil by blast
next
  case (step y z)
  have "sys_inv E c y" using sys.steps_inv [OF step(1)] assms(2-4) by blast
  with step_booked [OF step(2)] step.IH assms(3) show ?case using accounts_snoc by blast
qed

lemma accounts_count:
  assumes "accounts E CB x bs y" "sys_inv E c x" "callback_documented CB" "max_size_ok E"
  shows "refs y = fold settle bs (refs x)"
  using assms(1)
proof (induction rule: accounts.induct)
  case (accounts_snoc bs y b z)
  have "sys_inv E c y" using sys.steps_inv [OF accounts_steps [OF accounts_snoc(1)]] assms(2-4) by blast
  with booked_count [OF accounts_snoc(2)] accounts_snoc.IH show ?case by simp
qed simp

text \<open>Without a time-out the count is at least what was raised less what was lowered.\<close>

lemma settle_bound:
  "Void \<notin> set bs \<Longrightarrow> n + sum_list (map raised bs) \<le> fold settle bs n + sum_list (map lowered bs)"
proof (induction bs arbitrary: n)
  case (Cons b bs)
  have "n + raised b \<le> settle b n + lowered b" using Cons.prems by (cases b) auto
  with Cons.IH [of "settle b n"] Cons.prems show ?case by simp
qed simp

subsection \<open>A run\<close>

text \<open>The scoped wakelock of \<open>scoped_system\<close> ends, at once or after another was created.\<close>

lemma scoped_counts: "refs (scoped_system r) = 1" "mThreadsRun (proxy (scoped_system r))"
  using started_count scoped.inc_count [of started_proxy 1 sensors_env]
  by (simp_all add: scoped_system_def scoped_proxy_def scoped.inc_frame increment_ok_def)

lemma scope_accounts:
  "\<exists>y. accounts sensors_env header_callback (scoped_system r) [Lower 1] y"
  "\<exists>y. accounts sensors_env header_callback (scoped_system r) [Raise 1, Lower 1] y"
proof -
  have lower: "\<exists>z. booked sensors_env header_callback y (Lower 1) z" if "mThreadsRun (proxy y)" for y
    using booked_scope_end [of sensors_env header_callback y "-1"] that by (auto simp: if_running_def)
  from lower [OF scoped_counts(2)] accounts_snoc [OF accounts_Nil]
  show "\<exists>y. accounts sensors_env header_callback (scoped_system r) [Lower 1] y" by fastforce
  let ?y = "(scoped_system r)\<lparr>proxy := snd (incrementRefCountAndMaybeAcquireWakelock sensors_env 1 (proxy (scoped_system r)))\<rparr>"
  have "increment_ok 1 (proxy (scoped_system r))" using scoped_counts(1) by (simp add: increment_ok_def)
  from booked_scope [OF this, of sensors_env header_callback]
  have "accounts sensors_env header_callback (scoped_system r) [Raise 1] ?y"
    using scoped_counts(2) accounts_snoc [OF accounts_Nil] by (fastforce simp: if_running_def)
  from accounts_snoc [OF this] lower [of ?y] scoped_counts(2)
  show "\<exists>y. accounts sensors_env header_callback (scoped_system r) [Raise 1, Lower 1] y"
    by (auto simp: scoped.inc_frame)
qed

subsection \<open>Properties\<close>

text \<open>
  C10: the ledger of the wake lock: the runs of the system from a reachable state are exactly those
  that can be booked. The reference count is what the bookings of a run make of it, every raise by the wake-up
  events of a locked post or by one for a scoped wakelock, every lowering by an acknowledgement, a
  fresh scoped wakelock that ends or the wake-up events of a dropped batch, and nothing while the
  threads are stopped; the kernel wake lock is held exactly while that is positive. As long as the
  time-out has not voided the count and less was lowered than raised, it is held.
\<close>

theorem wakelock_ledger:
  assumes "reachable E CB c x" and "callback_documented CB" and "max_size_ok E"
  shows "((sys_step E CB)\<^sup>*\<^sup>* x y \<longleftrightarrow> (\<exists>bs. accounts E CB x bs y))
    \<and> (\<forall>bs. accounts E CB x bs y \<longrightarrow>
        refs y = fold settle bs (refs x)
        \<and> (wakelock_held (hist (proxy y)) \<longleftrightarrow> 0 < fold settle bs (refs x))
        \<and> (Void \<notin> set bs \<and> sum_list (map lowered bs) < refs x + sum_list (map raised bs) \<longrightarrow>
             wakelock_held (hist (proxy y))))"
proof -
  note inv = reachable_inv [OF assms]
  have "refs y = fold settle bs (refs x)
      \<and> (wakelock_held (hist (proxy y)) \<longleftrightarrow> 0 < fold settle bs (refs x))
      \<and> (Void \<notin> set bs \<and> sum_list (map lowered bs) < refs x + sum_list (map raised bs) \<longrightarrow>
           wakelock_held (hist (proxy y)))"
    if run: "accounts E CB x bs y" for bs
  proof -
    have count: "refs y = fold settle bs (refs x)" by (rule accounts_count [OF run inv assms(2,3)])
    have "sys_inv E c y" using sys.steps_inv [OF accounts_steps [OF run]] inv assms(2,3) by blast
    then have "wakelock_held (hist (proxy y)) \<longleftrightarrow> 0 < refs y"
      by (simp add: sys_inv_def wakelock_inv_def unat_gt_0)
    with count settle_bound [of bs "refs x"] show ?thesis by auto
  qed
  with accounts_steps steps_accounted [OF _ inv assms(2,3)] show ?thesis by blast
qed

theorem wakelock_ledger_witness:
  "\<exists>r y z. accounts sensors_env header_callback (scoped_system r) [Lower 1] y
    \<and> \<not> wakelock_held (hist (proxy y))
    \<and> accounts sensors_env header_callback (scoped_system r) [Raise 1, Lower 1] z
    \<and> wakelock_held (hist (proxy z))"
proof -
  obtain r where r: "reachable sensors_env header_callback built_proxy (scoped_system r)"
    using scoped_reachable by blast
  obtain y z where run: "accounts sensors_env header_callback (scoped_system r) [Lower 1] y"
    "accounts sensors_env header_callback (scoped_system r) [Raise 1, Lower 1] z"
    using scope_accounts by blast
  note ledger = wakelock_ledger [OF r header_callback_documented max_size_sensors]
  have "\<not> wakelock_held (hist (proxy y))" using ledger [of y] run(1) scoped_counts(1) [of r] by force
  moreover have "wakelock_held (hist (proxy z))" using ledger [of z] run(2) scoped_counts(1) [of r] by force
  ultimately show ?thesis using run by blast
qed

end
