(* ===== verification/Hal_Waits.thy ===== *)
theory Hal_Waits
  imports Hal_Ledger
begin

text \<open>
  The condition variables \<open>mEventQueueWriteCV\<close> and \<open>mWakelockCV\<close>. In \<open>Hal_System\<close> a waiting thread looks
  at its condition again and again. Here it does what \<open>std::condition_variable::wait\<close> does: it looks
  once under its mutex, then blocks, which gives up the mutex, and looks again only when it has been
  notified. A notification that finds nobody blocked has no effect.

  Every step is one of \<open>Hal_System\<close> or changes nothing in it, so all its invariants hold here too. Shown
  are that no post and no increment can be missed, because they notify under the mutex, and that a
  restart whose stop was not missed can always finish. \<open>Hal_Stops\<close> shows that a stop can be missed.
\<close>

subsection \<open>Threads in a wait\<close>

text \<open>
  A thread in \<open>Deciding\<close> has found its condition false and is about to block; it holds its mutex.
\<close>

datatype waiting = Awake | Deciding | Blocked

record waits =
  pw_cv :: waiting
  wl_cv :: waiting

definition both_awake :: waits where
  "both_awake = \<lparr>pw_cv = Awake, wl_cv = Awake\<rparr>"

definition holds :: "waits \<Rightarrow> mutex set" where
  "holds v = (if pw_cv v = Deciding then {EventQueueWriteMutex} else {})
     \<union> (if wl_cv v = Deciding then {WakelockMutex} else {})"

definition wake :: "waiting \<Rightarrow> waiting" where
  "wake w = (if w = Blocked then Awake else w)"

text \<open>\<open>notify_one\<close>: each variable has at most one waiter.\<close>

definition notified :: "ext_call set \<Rightarrow> waits \<Rightarrow> waits" where
  "notified C v =
     \<lparr>pw_cv = (if NotifyEventQueueWriteCV \<in> C then wake (pw_cv v) else pw_cv v),
      wl_cv = (if NotifyWakelockCV \<in> C then wake (wl_cv v) else wl_cv v)\<rparr>"

text \<open>The calls a step made.\<close>

definition calls_made :: "hal_proxy \<Rightarrow> hal_proxy \<Rightarrow> ext_call set" where
  "calls_made s s' = fst ` set (drop (length (hist s)) (hist s'))"

text \<open>Where a thread that looks at its condition goes to sleep.\<close>

definition pw_waits :: "hal_proxy \<Rightarrow> bool" where
  "pw_waits s \<longleftrightarrow> mPendingWritesThread s = PwLoop \<and> \<not> pw_ready s"

definition wl_waits :: "hal_proxy \<Rightarrow> bool" where
  "wl_waits s \<longleftrightarrow> mWakelockThread s = WlLoop \<and> \<not> wl_ready s"

text \<open>The mutex of the other thread a step of the pending-writes thread needs: after a failed write of
  wake-up events it lowers the wakelock count.\<close>

definition pw_locks :: "hal_env \<Rightarrow> hal_proxy \<Rightarrow> mutex set" where
  "pw_locks E s =
     (case (mPendingWritesThread s, mPendingWriteEventsQueue s) of
        (PwWriting n q w, (evs, _) # _) \<Rightarrow>
          if \<not> ansBool E (hist s) (EventQueueWriteBlocking (take (unat n) evs) (kPendingWriteTimeoutNs E))
             \<and> w > 0 then refcount_locks s else {}
      | _ \<Rightarrow> {})"

text \<open>\<open>spurious\<close> says whether a wait may also return without a notification, which C++ permits.\<close>

inductive wait_step ::
  "bool \<Rightarrow> hal_env \<Rightarrow> sub_hal_callback \<Rightarrow> system \<times> waits \<Rightarrow> system \<times> waits \<Rightarrow> bool"
  for spurious E CB where
  wait_env: "env_step E CB x L y \<Longrightarrow> L \<inter> holds v = {} \<Longrightarrow>
     wait_step spurious E CB (x, v) (y, notified (calls_made (proxy x) (proxy y)) v)"
| wait_pw: "pw_cv v = Awake \<Longrightarrow> \<not> pw_waits (proxy x) \<Longrightarrow> pw_locks E (proxy x) \<inter> holds v = {} \<Longrightarrow>
     pw_step E (proxy x) = Some s' \<Longrightarrow> wait_step spurious E CB (x, v) (x\<lparr>proxy := s'\<rparr>, v)"
| wait_pw_decides: "pw_cv v = Awake \<Longrightarrow> pw_waits (proxy x) \<Longrightarrow>
     wait_step spurious E CB (x, v) (x, v\<lparr>pw_cv := Deciding\<rparr>)"
| wait_pw_blocks: "pw_cv v = Deciding \<Longrightarrow> wait_step spurious E CB (x, v) (x, v\<lparr>pw_cv := Blocked\<rparr>)"
| wait_wl: "wl_cv v = Awake \<Longrightarrow> \<not> wl_waits (proxy x) \<Longrightarrow> wl_step E (proxy x) = Some s' \<Longrightarrow>
     wait_step spurious E CB (x, v) (x\<lparr>proxy := s'\<rparr>, v)"
| wait_wl_decides: "wl_cv v = Awake \<Longrightarrow> wl_waits (proxy x) \<Longrightarrow>
     wait_step spurious E CB (x, v) (x, v\<lparr>wl_cv := Deciding\<rparr>)"
| wait_wl_blocks: "wl_cv v = Deciding \<Longrightarrow> wait_step spurious E CB (x, v) (x, v\<lparr>wl_cv := Blocked\<rparr>)"
| wait_pw_spurious: "spurious \<Longrightarrow> pw_cv v = Blocked \<Longrightarrow> wait_step spurious E CB (x, v) (x, v\<lparr>pw_cv := Awake\<rparr>)"
| wait_wl_spurious: "spurious \<Longrightarrow> wl_cv v = Blocked \<Longrightarrow> wait_step spurious E CB (x, v) (x, v\<lparr>wl_cv := Awake\<rparr>)"

definition wait_reachable ::
  "bool \<Rightarrow> hal_env \<Rightarrow> sub_hal_callback \<Rightarrow> hal_proxy \<Rightarrow> system \<times> waits \<Rightarrow> bool" where
  "wait_reachable spurious E CB c z \<longleftrightarrow>
     constructed E c \<and> (wait_step spurious E CB)\<^sup>*\<^sup>* (start c, both_awake) z"

lemma both_awake_simps [simp]:
  "pw_cv both_awake = Awake" "wl_cv both_awake = Awake" "holds both_awake = {}"
  "notified C both_awake = both_awake"
  by (simp_all add: both_awake_def holds_def notified_def wake_def)

lemma wake_simps [simp]: "wake Blocked = Awake" "wake Awake = Awake" "wake Deciding = Deciding"
  by (simp_all add: wake_def)

subsection \<open>The system underneath\<close>

lemma wait_step_projects: "wait_step sp E CB z z' \<Longrightarrow> fst z' = fst z \<or> sys_step E CB (fst z) (fst z')"
  by (erule wait_step.cases) (auto intro: sys_step.intros)

interpretation waits: invariant_simulation "wait_step sp E CB" "sys_step E CB" fst
  "\<lambda>x. sys_inv E c x \<and> callback_documented CB \<and> max_size_ok E" for sp E CB c
  by unfold_locales (rule wait_step_projects)

lemma wait_reachable_system: "wait_reachable sp E CB c (x, v) \<Longrightarrow> reachable E CB c x"
  using waits.steps_simulate [of sp E CB "(start c, both_awake)" "(x, v)"]
  by (simp add: wait_reachable_def reachable_def)

subsection \<open>What the other steps do to a waiting thread\<close>

text \<open>A step that a waiting thread need not be told of.\<close>

definition calm :: "hal_proxy \<Rightarrow> hal_proxy \<Rightarrow> bool" where
  "calm s s' \<longleftrightarrow>
     (mPendingWritesThread s = PwLoop \<longrightarrow>
        mPendingWritesThread s' = PwLoop \<and> mPendingWriteEventsQueue s' = mPendingWriteEventsQueue s)
     \<and> (mWakelockThread s = WlLoop \<longrightarrow>
        mWakelockThread s' = WlLoop \<and> (mWakelockRefCount s = 0 \<longrightarrow> mWakelockRefCount s' = 0))"

lemma calm_same:
  assumes "mPendingWritesThread s' = mPendingWritesThread s"
    "mPendingWriteEventsQueue s' = mPendingWriteEventsQueue s"
    "mWakelockThread s' = mWakelockThread s"
    "mWakelockRefCount s' = mWakelockRefCount s"
  shows "calm s s'"
  using assms by (auto simp: calm_def)

lemma decrement_members:
  "mPendingWritesThread (decrementRefCountAndMaybeReleaseWakelock d t s) = mPendingWritesThread s"
  "mPendingWriteEventsQueue (decrementRefCountAndMaybeReleaseWakelock d t s) = mPendingWriteEventsQueue s"
  "mWakelockThread (decrementRefCountAndMaybeReleaseWakelock d t s) = mWakelockThread s"
  "mWakelockRefCount s = 0 \<Longrightarrow> mWakelockRefCount (decrementRefCountAndMaybeReleaseWakelock d t s) = 0"
  by (simp_all add: wakelock_defs ext_defs Let_def)

lemma calm_decrement: "calm s (decrementRefCountAndMaybeReleaseWakelock d t s)"
  by (simp add: calm_def decrement_members)

lemma calm_reset: "calm s (resetSharedWakelock E s)"
  by (simp add: calm_def resetSharedWakelock_def decrement_members ext_defs Let_def)

lemma calm_phase:
  assumes "phase_inv (Restarting ph a) s" "phase_step E a ph s = (r, s')"
  shows "calm s s'"
proof (cases "ph \<in> {PhSignal, PhDisableStatic, PhDisableDynamic, PhFlags}")
  case True
  from phase_calls [OF assms(2) this] obtain h f f'
    where "s' = s\<lparr>hist := h, mEventQueueFlag := f, mWakelockQueueFlag := f'\<rparr>" .
  then show ?thesis by (simp add: calm_def)
next
  case False
  with assms calm_reset show ?thesis
    by (cases ph) (auto simp: calm_def phase_inv_def ext_defs case_prod_beta Let_def split: if_splits)
qed

lemma calls_made_append [simp]: "hist s' = hist s @ h \<Longrightarrow> calls_made s s' = fst ` set h"
  by (simp add: calls_made_def)

text \<open>A post tells the waiting thread when it puts something into the queue, an increment when it
  raises the count from zero.\<close>

lemma increment_tells:
  assumes "s' = snd (incrementRefCountAndMaybeAcquireWakelock E d s)"
  shows "mPendingWritesThread s' = mPendingWritesThread s"
    "mPendingWriteEventsQueue s' = mPendingWriteEventsQueue s" "mWakelockThread s' = mWakelockThread s"
    "\<exists>h. hist s' = hist s @ h \<and> (mWakelockRefCount s = 0 \<longrightarrow> mWakelockRefCount s' \<noteq> 0 \<longrightarrow>
        mThreadsRun s \<and> NotifyWakelockCV \<in> fst ` set h)"
  by (simp_all add: assms wakelock_defs ext_defs Let_def)

lemma post_tells:
  assumes "postEventsToMessageQueue E evs w lk s = Some s'"
  shows "mPendingWritesThread s' = mPendingWritesThread s" "mWakelockThread s' = mWakelockThread s"
    "mPendingWriteEventsQueue s' = mPendingWriteEventsQueue s \<or> NotifyEventQueueWriteCV \<in> calls_made s s'"
    "mWakelockRefCount s = 0 \<Longrightarrow> mWakelockRefCount s' = 0
      \<or> lk \<and> mThreadsRun s \<and> NotifyWakelockCV \<in> calls_made s s'"
proof -
  let ?s1 = "if lk then snd (incrementRefCountAndMaybeAcquireWakelock E w s) else s"
  obtain n s2 where d: "post_direct E evs ?s1 = Some (n, s2)" "s' = post_pending E evs w n s2"
    using assms by (auto simp: postEventsToMessageQueue_def Let_def split: option.splits)
  obtain h where h: "s2 = ?s1\<lparr>hist := hist ?s1 @ h\<rparr>"
    using post_direct_effect [OF d(1)] by auto
  obtain h1 where h1: "hist ?s1 = hist s @ h1" "mWakelockRefCount s = 0 \<longrightarrow> mWakelockRefCount ?s1 \<noteq> 0 \<longrightarrow>
        lk \<and> mThreadsRun s \<and> NotifyWakelockCV \<in> fst ` set h1"
  proof (cases lk)
    case True
    with that increment_tells(4) [OF refl, of E w s] show thesis by auto
  next
    case False
    with that [of "[]"] show thesis by simp
  qed
  have s1: "mPendingWritesThread ?s1 = mPendingWritesThread s" "mWakelockThread ?s1 = mWakelockThread s"
    "mPendingWriteEventsQueue ?s1 = mPendingWriteEventsQueue s"
    using increment_tells(1-3) [OF refl, of E w s] by simp_all
  have p: "mPendingWritesThread s' = mPendingWritesThread s2" "mWakelockThread s' = mWakelockThread s2"
    "mWakelockRefCount s' = mWakelockRefCount s2"
    "hist s' = hist s2 \<and> mPendingWriteEventsQueue s' = mPendingWriteEventsQueue s2
      \<or> hist s' = hist s2 @ [(NotifyEventQueueWriteCV, ANone)]"
    by (simp_all add: d(2) post_pending_def ext_defs Let_def)
  show "mPendingWritesThread s' = mPendingWritesThread s" "mWakelockThread s' = mWakelockThread s"
    using p(1,2) s1 by (simp_all add: h)
  obtain h2 where h2: "hist s' = hist s @ h1 @ h @ h2" "h2 = [] \<longrightarrow> mPendingWriteEventsQueue s' = mPendingWriteEventsQueue s"
    "h2 \<noteq> [] \<longrightarrow> NotifyEventQueueWriteCV \<in> fst ` set h2"
    using p(4) h1(1) s1(3) by (auto simp: h)
  then show "mPendingWriteEventsQueue s' = mPendingWriteEventsQueue s \<or> NotifyEventQueueWriteCV \<in> calls_made s s'"
    by (auto simp: image_Un)
  assume "mWakelockRefCount s = 0"
  with h1(2) p(3) show "mWakelockRefCount s' = 0 \<or> lk \<and> mThreadsRun s \<and> NotifyWakelockCV \<in> calls_made s s'"
    using h2(1) by (auto simp: h image_Un)
qed

definition tells :: "mutex set \<Rightarrow> hal_proxy \<Rightarrow> hal_proxy \<Rightarrow> bool" where
  "tells L s s' \<longleftrightarrow>
     (mPendingWritesThread s = PwLoop \<longrightarrow>
        mPendingWritesThread s' = PwLoop
        \<and> (mPendingWriteEventsQueue s' = mPendingWriteEventsQueue s
           \<or> EventQueueWriteMutex \<in> L \<and> NotifyEventQueueWriteCV \<in> calls_made s s'))
     \<and> (mWakelockThread s = WlLoop \<and> mWakelockRefCount s = 0 \<longrightarrow>
        mWakelockThread s' = WlLoop
        \<and> (mWakelockRefCount s' = 0 \<or> WakelockMutex \<in> L \<and> NotifyWakelockCV \<in> calls_made s s'))"

lemma calm_tells: "calm s s' \<Longrightarrow> tells L s s'"
  by (simp add: calm_def tells_def)

lemma env_step_tells:
  assumes step: "env_step E CB x L y" and inv: "sys_inv E c x" and CB: "callback_documented CB"
  shows "tells L (proxy x) (proxy y)"
proof -
  note I = inv [unfolded sys_inv_def]
  have own: "map_ok (mDynamicSensors (proxy x))" "own_handles (mDynamicSensors (proxy x))"
    using I by (simp_all add: plant_ok_def own_handles_def)
  have calm_dynamic: "calm s (s\<lparr>mDynamicSensors := m, hist := h\<rparr>)" for s :: hal_proxy and m h
    by (simp add: calm_def)
  from step show ?thesis
  proof cases
    case (step_post_begin evs i w out s' lk)
    obtain m where "s' = (proxy x)\<lparr>mSensors := m\<rparr>"
      using processEvents_effect(2) [OF CB step_post_begin(6)] by blast
    then show ?thesis by (intro calm_tells) (simp add: step_post_begin(2) calm_def)
  next
    case (step_post_commit us out w lk vs s')
    from post_tells [OF step_post_commit(6)] show ?thesis
      by (auto simp: step_post_commit(1,2) tells_def refcount_locks_def)
  next
    case step_scope_created
    let ?s = "snd (incrementRefCountAndMaybeAcquireWakelock E 1 (proxy x))"
    note t = increment_tells [of ?s, OF refl]
    obtain h where h: "hist ?s = hist (proxy x) @ h"
      "mWakelockRefCount (proxy x) = 0 \<longrightarrow> mWakelockRefCount ?s \<noteq> 0 \<longrightarrow>
         mThreadsRun (proxy x) \<and> NotifyWakelockCV \<in> fst ` set h"
      using t(4) by blast
    have y: "proxy y = ?s" "L = refcount_locks (proxy x)" using step_scope_created by simp_all
    show ?thesis unfolding y tells_def calls_made_append [OF h(1)] using t(1-3) h(2)
      by (auto simp: refcount_locks_def)
  next
    case (step_connected added i s')
    from connected_form [OF step_connected(3) own] show ?thesis
      by (auto simp: step_connected(2) intro!: calm_tells calm_dynamic)
  next
    case (step_disconnected hs i s')
    from disconnected_form [OF step_disconnected(3) own] show ?thesis
      by (auto simp: step_disconnected(2) intro!: calm_tells calm_dynamic)
  next
    case (step_request s')
    obtain m h where "s' = (proxy x)\<lparr>mCurrentOperationMode := m, hist := h\<rparr>"
      using request_quiet [OF step_request(3)] by (auto simp: quiet_change_def)
    then show ?thesis by (intro calm_tells) (simp add: step_request(2) calm_def)
  next
    case (step_restart r a)
    then show ?thesis by (intro calm_tells) (simp add: restart_begin_def calm_def)
  next
    case (step_phase ph a r s')
    then show ?thesis using I calm_phase [of ph a "proxy x" E r s'] by (intro calm_tells) simp
  qed (auto intro: calm_tells calm_decrement)
qed

subsection \<open>Nobody sleeps over work\<close>

definition waits_inv :: "system \<times> waits \<Rightarrow> bool" where
  "waits_inv z \<longleftrightarrow>
     (pw_cv (snd z) \<noteq> Awake \<longrightarrow>
        mPendingWritesThread (proxy (fst z)) = PwLoop \<and> mPendingWriteEventsQueue (proxy (fst z)) = [])
     \<and> (wl_cv (snd z) \<noteq> Awake \<longrightarrow>
        mWakelockThread (proxy (fst z)) = WlLoop \<and> mWakelockRefCount (proxy (fst z)) = 0)"

lemma notified_waits:
  assumes "waits_inv (x, v)" "tells L (proxy x) (proxy y)" "L \<inter> holds v = {}"
  shows "waits_inv (y, notified (calls_made (proxy x) (proxy y)) v)"
proof -
  have pw: "mPendingWritesThread (proxy y) = PwLoop \<and> mPendingWriteEventsQueue (proxy y) = []"
    if "(if NotifyEventQueueWriteCV \<in> calls_made (proxy x) (proxy y) then wake (pw_cv v) else pw_cv v) \<noteq> Awake"
    using that assms by (cases "pw_cv v") (auto simp: waits_inv_def tells_def holds_def split: if_splits)
  have wl: "mWakelockThread (proxy y) = WlLoop \<and> mWakelockRefCount (proxy y) = 0"
    if "(if NotifyWakelockCV \<in> calls_made (proxy x) (proxy y) then wake (wl_cv v) else wl_cv v) \<noteq> Awake"
    using that assms by (cases "wl_cv v") (auto simp: waits_inv_def tells_def holds_def split: if_splits)
  from pw wl show ?thesis by (simp add: waits_inv_def notified_def)
qed

lemma wait_step_inv:
  assumes "wait_step sp E CB z z'" "waits_inv z" "sys_inv E c (fst z)" "callback_documented CB"
  shows "waits_inv z'"
  using assms(1)
proof cases
  case (wait_env x L y v)
  have "tells L (proxy x) (proxy y)"
    using env_step_tells [OF wait_env(3) _ assms(4)] assms(3) wait_env(1) by simp
  from notified_waits [OF _ this wait_env(4)] assms(2) wait_env(1,2) show ?thesis by simp
next
  case (wait_pw v x s')
  have "unat (mWakelockRefCount s') \<le> refs x" using pw_lowers [OF wait_pw(6)] assms(3) wait_pw(1) by simp
  then have "mWakelockRefCount (proxy x) = 0 \<longrightarrow> mWakelockRefCount s' = 0" by (simp add: word_unat_eq_iff)
  with assms(2) wait_pw pw_step_keeps_wl [OF wait_pw(6)] show ?thesis by (auto simp: waits_inv_def)
next
  case (wait_wl v x s')
  with assms(2) wl_step_frame [OF wait_wl(5)] show ?thesis by (auto simp: waits_inv_def wl_frame_def)
qed (use assms(2) in \<open>auto simp: waits_inv_def pw_waits_def pw_ready_def wl_waits_def wl_ready_def word_gt_0\<close>)

interpretation sleep: step_invariant "wait_step sp E CB"
  "\<lambda>z. waits_inv z \<and> sys_inv E c (fst z) \<and> callback_documented CB \<and> max_size_ok E" for sp E CB c
  by unfold_locales (use wait_step_inv waits.step_inv in blast)

lemma wait_reachable_inv:
  assumes "wait_reachable sp E CB c z" "callback_documented CB" "max_size_ok E"
  shows "waits_inv z \<and> sys_inv E c (fst z)"
  using sleep.steps_inv [of sp E CB "(start c, both_awake)" z c] constructed_effect(1) [of E c] assms
  by (auto simp: wait_reachable_def waits_inv_def)

subsection \<open>Restarts that can finish\<close>

text \<open>While both threads are awake, a wait is no different from looking again and again.\<close>

lemma run_waits:
  assumes "callback_documented CB" "max_size_ok E" "sys_inv E c x"
    and "(restart_run E a)\<^sup>*\<^sup>* (restarting x, proxy x) p"
  shows "(wait_step sp E CB)\<^sup>*\<^sup>* (x, both_awake) (x\<lparr>restarting := fst p, proxy := snd p\<rparr>, both_awake)"
  using assms(4)
proof induction
  case (step p q)
  let ?x = "\<lambda>p. x\<lparr>restarting := fst p, proxy := snd p\<rparr>"
  have "(sys_step E CB)\<^sup>*\<^sup>* x (?x p)" by (rule run_steps [OF step.hyps(1)])
  then have inv: "phase_inv (fst p) (snd p)"
    using sys.steps_inv [of E CB x "?x p" c] assms(1-3) by (simp add: sys_inv_def)
  from step.hyps(2) have "wait_step sp E CB (?x p, both_awake) (?x q, both_awake)"
  proof cases
    case (run_phase ph s)
    then have "env_step E CB (?x p) (phase_locks ph) (?x q)"
      using env_step.step_phase [of "?x p" ph a E "fst q" "snd q" CB] by simp
    from wait_env [OF this, of both_awake] show ?thesis by simp
  next
    case (run_pw s s')
    have "\<not> pw_waits s" using inv run_pw(1) by (simp add: phase_inv_def pw_waits_def pw_ready_def)
    then show ?thesis using wait_pw [of both_awake "?x p" E s' sp CB] run_pw by simp
  next
    case (run_wl s s')
    have "\<not> wl_waits s" using inv run_wl(1) by (simp add: phase_inv_def wl_waits_def wl_ready_def)
    then show ?thesis using wait_wl [of both_awake "?x p" E s' sp CB] run_wl by simp
  qed
  with step.IH show ?case by simp
qed simp

lemma awake_restart_finishes:
  assumes "callback_documented CB" "max_size_ok E" "sys_inv E c x" "restarting x = Restarting ph a"
  shows "\<exists>y res. (wait_step sp E CB)\<^sup>*\<^sup>* (x, both_awake) (y, both_awake) \<and> restarting y = Idle (Some res)"
proof -
  obtain res s where "(restart_run E a)\<^sup>*\<^sup>* (Restarting ph a, proxy x) (Idle (Some res), s)"
    using restart_finishes [OF assms] by blast
  then have "(restart_run E a)\<^sup>*\<^sup>* (restarting x, proxy x) (Idle (Some res), s)" by (simp add: assms(4))
  from run_waits [OF assms(1-3) this, of sp] show ?thesis
    by (intro exI [of _ "x\<lparr>restarting := Idle (Some res), proxy := s\<rparr>"] exI [of _ res]) simp
qed

text \<open>A thread about to block may block, and the signal of a stop wakes both.\<close>

lemma pw_blocked:
  "\<exists>v'. (wait_step sp E CB)\<^sup>*\<^sup>* (x, v) (x, v') \<and> pw_cv v' \<noteq> Deciding \<and> wl_cv v' = wl_cv v"
proof (cases "pw_cv v = Deciding")
  case True
  from wait_pw_blocks [OF this, of sp E CB x] show ?thesis
    by (intro exI [of _ "v\<lparr>pw_cv := Blocked\<rparr>"]) (simp add: r_into_rtranclp)
qed auto

lemma all_blocked:
  "\<exists>v'. (wait_step sp E CB)\<^sup>*\<^sup>* (x, v) (x, v') \<and> pw_cv v' \<noteq> Deciding \<and> wl_cv v' \<noteq> Deciding"
proof -
  have wl: "\<exists>v'. (wait_step sp E CB)\<^sup>*\<^sup>* (x, v) (x, v') \<and> pw_cv v' = pw_cv v \<and> wl_cv v' \<noteq> Deciding" for v
  proof (cases "wl_cv v = Deciding")
    case True
    from wait_wl_blocks [OF this, of sp E CB x] show ?thesis
      by (intro exI [of _ "v\<lparr>wl_cv := Blocked\<rparr>"]) (simp add: r_into_rtranclp)
  qed auto
  obtain v1 where v1: "(wait_step sp E CB)\<^sup>*\<^sup>* (x, v) (x, v1)" "pw_cv v1 \<noteq> Deciding"
    using pw_blocked [of sp E CB x v] by blast
  obtain v2 where "(wait_step sp E CB)\<^sup>*\<^sup>* (x, v1) (x, v2)" "pw_cv v2 = pw_cv v1" "wl_cv v2 \<noteq> Deciding"
    using wl by blast
  with v1 show ?thesis by (metis rtranclp_trans)
qed

lemma signal_wakes:
  assumes "pw_cv v \<noteq> Deciding" "wl_cv v \<noteq> Deciding"
  shows "notified (calls_made s (snd (phase_step E a PhSignal s))) v = both_awake"
proof -
  obtain h where "snd (phase_step E a PhSignal s) =
      s\<lparr>hist := hist s @ h @ [(NotifyWakelockCV, ANone), (NotifyEventQueueWriteCV, ANone)]\<rparr>"
    using stop_signal_calls [of E s] by auto
  then have "{NotifyWakelockCV, NotifyEventQueueWriteCV} \<subseteq> calls_made s (snd (phase_step E a PhSignal s))"
    by (simp add: image_Un)
  then show ?thesis using assms
    by (cases "pw_cv v"; cases "wl_cv v") (auto simp: notified_def both_awake_def)
qed

subsection \<open>Properties\<close>

text \<open>
  C4: with the condition variables as they are, still no work is missed: in every reachable state a
  thread that sleeps, or has just decided to, has nothing to do: for the pending-writes thread the
  queue is empty, for the wakelock thread the count is zero and the wake lock not held. Everything
  reachable here is reachable in the system without condition variables, whose invariants hold too.
\<close>

theorem no_lost_wakeup:
  assumes "wait_reachable sp E CB c (x, v)" and "callback_documented CB" and "max_size_ok E"
  shows "reachable E CB c x
    \<and> (pw_cv v \<noteq> Awake \<longrightarrow> mPendingWritesThread (proxy x) = PwLoop
          \<and> mPendingWriteEventsQueue (proxy x) = [] \<and> pending_events (proxy x) = [])
    \<and> (wl_cv v \<noteq> Awake \<longrightarrow> mWakelockThread (proxy x) = WlLoop
          \<and> mWakelockRefCount (proxy x) = 0 \<and> \<not> wakelock_held (hist (proxy x)))"
proof -
  have "waits_inv (x, v)" "wakelock_inv (proxy x)"
    using wait_reachable_inv [OF assms] by (simp_all add: sys_inv_def)
  then show ?thesis
    using wait_reachable_system [OF assms(1)] by (auto simp: waits_inv_def wakelock_inv_def pending_events_def)
qed

text \<open>The started system, with its threads awake.\<close>

definition started_system :: "Result \<Rightarrow> system" where
  "started_system r = stopping_system\<lparr>restarting := Idle (Some r), proxy := started_proxy\<rparr>"

lemma stopping_waits:
  "wait_reachable sp sensors_env header_callback built_proxy (stopping_system, both_awake)"
proof -
  have "env_step sensors_env header_callback (start built_proxy) {} stopping_system"
    using env_step.step_restart [of "start built_proxy" None sensors_env header_callback "(1, 2, 3)"]
    by (simp add: stopping_system_def start_def)
  from wait_env [OF this, of both_awake sp] show ?thesis
    by (simp add: wait_reachable_def constructed_built r_into_rtranclp)
qed

lemma started_waits:
  "\<exists>r. wait_reachable sp sensors_env header_callback built_proxy (started_system r, both_awake)"
proof -
  obtain r where "(restart_run sensors_env (1, 2, 3))\<^sup>*\<^sup>*
     (Restarting PhSignal (1, 2, 3), restart_begin built_proxy) (Idle (Some r), started_proxy)"
    using started_run by blast
  then have run: "(restart_run sensors_env (1, 2, 3))\<^sup>*\<^sup>*
     (restarting stopping_system, proxy stopping_system) (Idle (Some r), started_proxy)"
    by (simp add: stopping_system_def)
  have inv: "sys_inv sensors_env built_proxy stopping_system"
    by (rule reachable_inv [OF stopping_reachable header_callback_documented max_size_sensors])
  from run_waits [OF header_callback_documented max_size_sensors inv run, of sp] stopping_waits [of sp]
  have "wait_reachable sp sensors_env header_callback built_proxy (started_system r, both_awake)"
    by (auto simp: wait_reachable_def started_system_def)
  then show ?thesis by blast
qed

lemma started_waiting: "pw_waits started_proxy" "wl_waits started_proxy"
proof -
  obtain r1 s1 s0 f f' h where t:
    "initializeCommon sensors_env (Some 1) (Some 2) (Some 3) built_proxy = Some (r1, s1)"
    "s1 = after_initialize 1 2 3 f f' h (resetSharedWakelock sensors_env s0)"
    by (rule initializeCommon_trace [OF built_inv])
  then have eq: "started_proxy = after_initialize 1 2 3 f f' h (resetSharedWakelock sensors_env s0)"
    by (simp add: started_proxy_def initialize_def)
  have "mPendingWritesThread started_proxy = PwLoop" "mPendingWriteEventsQueue started_proxy = []"
    "mWakelockThread started_proxy = WlLoop" by (simp_all add: eq after_initialize_def)
  then show "pw_waits started_proxy" "wl_waits started_proxy"
    using started_count by (simp_all add: pw_waits_def pw_ready_def wl_waits_def wl_ready_def)
qed

theorem no_lost_wakeup_witness:
  "\<exists>r. wait_reachable False sensors_env header_callback built_proxy
      (started_system r, both_awake\<lparr>wl_cv := Deciding\<rparr>) \<and> \<not> wakelock_held (hist started_proxy)"
proof -
  obtain r where r: "wait_reachable False sensors_env header_callback built_proxy (started_system r, both_awake)"
    using started_waits by blast
  have "wl_waits (proxy (started_system r))" using started_waiting(2) by (simp add: started_system_def)
  from wait_wl_decides [OF both_awake_simps(2) this] r
  have d: "wait_reachable False sensors_env header_callback built_proxy
      (started_system r, both_awake\<lparr>wl_cv := Deciding\<rparr>)"
    unfolding wait_reachable_def by (metis rtranclp.rtrancl_into_rtrancl)
  from no_lost_wakeup [OF d header_callback_documented max_size_sensors] d show ?thesis
    by (auto simp: started_system_def)
qed

text \<open>
  C6: a restart that was not missed never gets stuck: from every reachable state in which it has not
  yet signalled its stop, or has signalled it and both threads are awake, whatever happened so far
  and wherever the threads stand, it can be taken to its end without any further post, request, or
  answer of a special kind from the environment.
\<close>

theorem restart_can_finish:
  assumes "wait_reachable sp E CB c (x, v)" and "callback_documented CB" and "max_size_ok E"
    and "restarting x = Restarting ph a" and "ph = PhSignal \<or> v = both_awake"
  shows "\<exists>y u res. (wait_step sp E CB)\<^sup>*\<^sup>* (x, v) (y, u) \<and> restarting y = Idle (Some res)"
proof -
  have inv: "sys_inv E c x" using wait_reachable_inv [OF assms(1-3)] by simp
  show ?thesis
  proof (cases "v = both_awake")
    case True
    with awake_restart_finishes [OF assms(2,3) inv assms(4)] show ?thesis by blast
  next
    case False
    with assms(4,5) have ph: "restarting x = Restarting PhSignal a" by simp
    obtain v1 where v1: "(wait_step sp E CB)\<^sup>*\<^sup>* (x, v) (x, v1)" "pw_cv v1 \<noteq> Deciding" "wl_cv v1 \<noteq> Deciding"
      using all_blocked by blast
    let ?s = "snd (phase_step E a PhSignal (proxy x))"
    let ?y = "x\<lparr>restarting := Restarting PhJoinPw a, proxy := ?s\<rparr>"
    have "env_step E CB x (phase_locks PhSignal) ?y"
      using env_step.step_phase [OF ph, of E "Restarting PhJoinPw a" ?s CB] by simp
    from wait_env [OF this, of v1 sp] have "wait_step sp E CB (x, v1) (?y, both_awake)"
      using v1(2,3) signal_wakes [of v1 "proxy x" E a] by simp
    with v1(1) have xy: "(wait_step sp E CB)\<^sup>*\<^sup>* (x, v) (?y, both_awake)"
      by (rule rtranclp.rtrancl_into_rtrancl)
    have "sys_inv E c ?y" using waits.steps_inv [OF xy, of c] inv assms(2,3) by simp
    then obtain z res where "(wait_step sp E CB)\<^sup>*\<^sup>* (?y, both_awake) (z, both_awake)" "restarting z = Idle (Some res)"
      using awake_restart_finishes [OF assms(2,3), of c ?y PhJoinPw a sp] by auto
    with rtranclp_trans [OF xy] show ?thesis by blast
  qed
qed

theorem restart_can_finish_witness:
  "\<exists>y u res. (wait_step False sensors_env header_callback)\<^sup>*\<^sup>* (stopping_system, both_awake) (y, u)
    \<and> restarting y = Idle (Some res)"
  by (rule restart_can_finish [OF stopping_waits header_callback_documented max_size_sensors])
     (simp_all add: stopping_system_def)

end
