(* ===== verification/Hal_Stops.thy ===== *)
theory Hal_Stops
  imports Hal_Waits
begin

text \<open>
  Stops that are missed. \<open>stopThreads\<close> clears \<open>mThreadsRun\<close> and notifies the condition variables without
  holding the mutexes under which the threads look at it. When both fall between a thread's look and
  its sleep, the thread sleeps on, the join in \<open>initialize\<close> waits for it, and nobody is left to wake
  it. Shown for either thread: the state cannot be left, and it can be entered from every reachable
  idle state in which the thread is about to look.
\<close>

subsection \<open>States that cannot be left\<close>

text \<open>The restart waits for a thread that sleeps, and nobody is left to wake it.\<close>

definition lost_pw :: "init_args \<Rightarrow> system \<times> waits \<Rightarrow> bool" where
  "lost_pw a z \<longleftrightarrow> restarting (fst z) = Restarting PhJoiningPw a \<and> pw_cv (snd z) = Blocked
     \<and> in_flight (fst z) = [] \<and> \<not> mThreadsRun (proxy (fst z))
     \<and> mPendingWritesThread (proxy (fst z)) = PwLoop"

definition lost_wl :: "init_args \<Rightarrow> system \<times> waits \<Rightarrow> bool" where
  "lost_wl a z \<longleftrightarrow> restarting (fst z) = Restarting PhJoiningWl a \<and> wl_cv (snd z) = Blocked
     \<and> in_flight (fst z) = [] \<and> \<not> mThreadsRun (proxy (fst z))
     \<and> mWakelockThread (proxy (fst z)) = WlLoop"

text \<open>While the threads are stopped, nothing is being posted and a join does not return, no caller changes
  any of this or notifies a thread.\<close>

definition still_joining :: "system \<Rightarrow> system \<Rightarrow> bool" where
  "still_joining x y \<longleftrightarrow> restarting y = restarting x \<and> in_flight y = [] \<and> \<not> mThreadsRun (proxy y)
     \<and> mPendingWritesThread (proxy y) = mPendingWritesThread (proxy x)
     \<and> mWakelockThread (proxy y) = mWakelockThread (proxy x)
     \<and> calls_made (proxy x) (proxy y) \<inter> {NotifyEventQueueWriteCV, NotifyWakelockCV} = {}"

lemma env_step_joining:
  assumes step: "env_step E CB x L y" and inv: "sys_inv E c x" and CB: "callback_documented CB"
    and x: "in_flight x = []" "\<not> mThreadsRun (proxy x)"
      "restarting x = Restarting PhJoiningPw a \<and> mPendingWritesThread (proxy x) \<noteq> PwExited
       \<or> restarting x = Restarting PhJoiningWl a \<and> mWakelockThread (proxy x) \<noteq> WlExited"
  shows "still_joining x y"
proof -
  have own: "map_ok (mDynamicSensors (proxy x))" "own_handles (mDynamicSensors (proxy x))"
    using inv by (simp_all add: sys_inv_def plant_ok_def own_handles_def)
  from step show ?thesis
  proof cases
    case (step_post_begin evs i w out s' lk)
    then show ?thesis using x(2) CB by (simp add: callback_documented_def)
  next
    case step_scope_created
    then show ?thesis using x
      by (simp add: incrementRefCountAndMaybeAcquireWakelock_def calls_made_def still_joining_def)
  next
    case step_scope_destroyed
    then show ?thesis using x by (simp add: decrement_stopped calls_made_def still_joining_def)
  next
    case (step_connected added i s')
    from connected_form [OF step_connected(3) own] x show ?thesis
      by (auto simp: step_connected(2) still_joining_def)
  next
    case (step_disconnected hs i s')
    from disconnected_form [OF step_disconnected(3) own] x show ?thesis
      by (auto simp: step_disconnected(2) still_joining_def)
  next
    case (step_request s')
    obtain m h where s': "s' = (proxy x)\<lparr>mCurrentOperationMode := m, hist := hist (proxy x) @ h\<rparr>" "quiet h"
      using request_quiet [OF step_request(3)] by (auto simp: quiet_change_def)
    have "fst ` set h \<inter> {NotifyEventQueueWriteCV, NotifyWakelockCV} = {}"
      using s'(2) by (auto simp: quiet_def list_all_iff quiet_call_def)
    then show ?thesis using x(1,2) by (simp add: step_request(2) s'(1) still_joining_def)
  next
    case (step_phase ph a' r s')
    then show ?thesis using x by (auto simp: calls_made_def still_joining_def split: if_splits)
  qed (use x in auto)
qed

lemma wait_step_lost:
  assumes step: "wait_step False E CB z z'" and inv: "sys_inv E c (fst z)" and CB: "callback_documented CB"
  shows "lost_pw a z \<Longrightarrow> lost_pw a z'" "lost_wl a z \<Longrightarrow> lost_wl a z'"
proof -
  assume lost: "lost_pw a z"
  from step show "lost_pw a z'"
  proof cases
    case (wait_env x L y v)
    have "still_joining x y"
      using env_step_joining [OF wait_env(3) _ CB] inv lost wait_env(1) by (auto simp: lost_pw_def)
    with lost show ?thesis by (simp add: lost_pw_def still_joining_def wait_env(1,2) notified_def)
  next
    case (wait_wl v x s')
    with lost wl_step_frame [OF wait_wl(5)] show ?thesis by (simp add: lost_pw_def wl_frame_def)
  qed (use lost in \<open>auto simp: lost_pw_def\<close>)
next
  assume lost: "lost_wl a z"
  from step show "lost_wl a z'"
  proof cases
    case (wait_env x L y v)
    have "still_joining x y"
      using env_step_joining [OF wait_env(3) _ CB] inv lost wait_env(1) by (auto simp: lost_wl_def)
    with lost show ?thesis by (simp add: lost_wl_def still_joining_def wait_env(1,2) notified_def)
  next
    case (wait_pw v x s')
    with lost pw_step_plant [OF wait_pw(6)] pw_step_keeps_wl [OF wait_pw(6)] show ?thesis
      by (simp add: lost_wl_def same_plant_def)
  qed (use lost in \<open>auto simp: lost_wl_def\<close>)
qed

interpretation lost_pw: step_invariant "wait_step False E CB"
  "\<lambda>z. lost_pw a z \<and> sys_inv E c (fst z) \<and> callback_documented CB \<and> max_size_ok E" for E CB a c
  by unfold_locales (use wait_step_lost(1) waits.step_inv in blast)

interpretation lost_wl: step_invariant "wait_step False E CB"
  "\<lambda>z. lost_wl a z \<and> sys_inv E c (fst z) \<and> callback_documented CB \<and> max_size_ok E" for E CB a c
  by unfold_locales (use wait_step_lost(2) waits.step_inv in blast)

subsection \<open>How they are entered\<close>

text \<open>A phase that holds no lock, seen by the threads' waits.\<close>

lemma wait_phase:
  assumes "restarting x = Restarting ph a" "phase_locks ph = {}"
  shows "wait_step sp E CB (x, v)
    (x\<lparr>restarting := fst (phase_step E a ph (proxy x)), proxy := snd (phase_step E a ph (proxy x))\<rparr>,
     notified (calls_made (proxy x) (snd (phase_step E a ph (proxy x)))) v)"
proof -
  let ?y = "x\<lparr>restarting := fst (phase_step E a ph (proxy x)), proxy := snd (phase_step E a ph (proxy x))\<rparr>"
  have "env_step E CB x {} ?y"
    using env_step.step_phase [OF assms(1), of E "fst (phase_step E a ph (proxy x))" "snd (phase_step E a ph (proxy x))" CB]
    by (simp add: assms(2))
  from wait_env [OF this, of v sp] show ?thesis by simp
qed

text \<open>The call of \<open>initialize\<close> up to its signal, while a thread is about to block.\<close>

definition signalled :: "hal_env \<Rightarrow> init_args \<Rightarrow> system \<Rightarrow> system" where
  "signalled E a x = x\<lparr>restarting := Restarting PhJoinPw a,
     proxy := snd (phase_step E a PhSignal (restart_begin (proxy x)))\<rparr>"

lemma signalled_members:
  "mPendingWritesThread (proxy (signalled E a x)) = mPendingWritesThread (proxy x)"
  "mWakelockThread (proxy (signalled E a x)) = mWakelockThread (proxy x)"
  "\<not> mThreadsRun (proxy (signalled E a x))" "in_flight (signalled E a x) = in_flight x"
  "restarting (signalled E a x) = Restarting PhJoinPw a"
proof -
  obtain h where "snd (phase_step E a PhSignal (restart_begin (proxy x))) = (restart_begin (proxy x))\<lparr>hist := h\<rparr>"
    using stop_signal_calls [of E "restart_begin (proxy x)"] by auto
  then show "mPendingWritesThread (proxy (signalled E a x)) = mPendingWritesThread (proxy x)"
    "mWakelockThread (proxy (signalled E a x)) = mWakelockThread (proxy x)"
    "\<not> mThreadsRun (proxy (signalled E a x))" "in_flight (signalled E a x) = in_flight x"
    "restarting (signalled E a x) = Restarting PhJoinPw a"
    by (simp_all add: signalled_def restart_begin_def)
qed

lemma stop_signalled_run:
  assumes "restarting x = Idle r"
  shows "(wait_step sp E CB)\<^sup>*\<^sup>* (x, v) (signalled E a x,
    \<lparr>pw_cv = wake (pw_cv v), wl_cv = wake (wl_cv v)\<rparr>)"
proof -
  let ?x1 = "x\<lparr>restarting := Restarting PhSignal a, proxy := restart_begin (proxy x)\<rparr>"
  obtain h where s: "snd (phase_step E a PhSignal (proxy ?x1)) =
      (proxy ?x1)\<lparr>hist := hist (proxy ?x1) @ h @ [(NotifyWakelockCV, ANone), (NotifyEventQueueWriteCV, ANone)]\<rparr>"
    using stop_signal_calls [of E "proxy ?x1"] by auto
  have none: "notified {} v = v" by (simp add: notified_def)
  have "wait_step sp E CB (x, v) (?x1, notified (calls_made (proxy x) (proxy ?x1)) v)"
    by (rule wait_env [OF env_step.step_restart [OF assms]]) simp
  then have 1: "wait_step sp E CB (x, v) (?x1, v)" by (simp add: calls_made_def restart_begin_def none)
  have "{NotifyWakelockCV, NotifyEventQueueWriteCV}
      \<subseteq> calls_made (proxy ?x1) (snd (phase_step E a PhSignal (proxy ?x1)))"
    unfolding s by (simp add: image_Un)
  then have v: "notified (calls_made (proxy ?x1) (snd (phase_step E a PhSignal (proxy ?x1)))) v
      = \<lparr>pw_cv = wake (pw_cv v), wl_cv = wake (wl_cv v)\<rparr>" by (simp add: notified_def)
  have "wait_step sp E CB (?x1, v) (signalled E a x, \<lparr>pw_cv = wake (pw_cv v), wl_cv = wake (wl_cv v)\<rparr>)"
    using wait_phase [of ?x1 PhSignal a sp E CB v] v by (simp add: signalled_def)
  with 1 show ?thesis by (meson converse_rtranclp_into_rtranclp r_into_rtranclp)
qed

text \<open>The pending-writes thread misses the stop.\<close>

lemma pw_stop_missed:
  assumes x: "restarting x = Idle r" "in_flight x = []" "pw_waits (proxy x)" "pw_cv v = Awake"
  shows "\<exists>z. (wait_step False E CB)\<^sup>*\<^sup>* (x, v) z \<and> lost_pw a z"
proof -
  let ?x2 = "signalled E a x" and ?v2 = "\<lparr>pw_cv = Deciding, wl_cv = wake (wl_cv v)\<rparr>"
  let ?p3 = "phase_step E a PhJoinPw (proxy ?x2)"
  let ?x3 = "?x2\<lparr>restarting := fst ?p3, proxy := snd ?p3\<rparr>"
  let ?v3 = "notified (calls_made (proxy ?x2) (snd ?p3)) ?v2"
  have loop: "mPendingWritesThread (proxy ?x2) = PwLoop" using x(3) by (simp add: signalled_members pw_waits_def)
  have v3: "pw_cv ?v3 = Deciding" by (simp add: notified_def)
  have "wait_step False E CB (x, v) (x, v\<lparr>pw_cv := Deciding\<rparr>)" by (rule wait_pw_decides [OF x(4,3)])
  moreover have "(wait_step False E CB)\<^sup>*\<^sup>* (x, v\<lparr>pw_cv := Deciding\<rparr>) (?x2, ?v2)"
    using stop_signalled_run [OF x(1), of False E CB "v\<lparr>pw_cv := Deciding\<rparr>" a] by simp
  moreover have "wait_step False E CB (?x2, ?v2) (?x3, ?v3)"
    by (rule wait_phase) (simp_all add: signalled_members)
  moreover have "wait_step False E CB (?x3, ?v3) (?x3, ?v3\<lparr>pw_cv := Blocked\<rparr>)" by (rule wait_pw_blocks [OF v3])
  ultimately have "(wait_step False E CB)\<^sup>*\<^sup>* (x, v) (?x3, ?v3\<lparr>pw_cv := Blocked\<rparr>)"
    by (meson converse_rtranclp_into_rtranclp rtranclp.rtrancl_into_rtrancl)
  moreover have "lost_pw a (?x3, ?v3\<lparr>pw_cv := Blocked\<rparr>)"
    using loop x(2) by (simp add: lost_pw_def signalled_members ext_defs)
  ultimately show ?thesis by blast
qed

text \<open>The wakelock thread misses the stop, while the pending-writes thread hears it and exits.\<close>

definition wl_deciding :: waits where
  "wl_deciding = \<lparr>pw_cv = Awake, wl_cv = Deciding\<rparr>"

lemma wl_deciding_simps [simp]:
  "pw_cv wl_deciding = Awake" "wl_cv wl_deciding = Deciding" "notified C wl_deciding = wl_deciding"
  by (simp_all add: wl_deciding_def notified_def)

lemma pw_step_stopped_waits:
  assumes "\<not> mThreadsRun (proxy y)" "pw_step E (proxy y) = Some s'"
  shows "wait_step sp E CB (y, wl_deciding) (y\<lparr>proxy := s'\<rparr>, wl_deciding) \<and> \<not> mThreadsRun s'
    \<and> mWakelockThread s' = mWakelockThread (proxy y)"
proof -
  have "pw_locks E (proxy y) = {}"
    using assms(1) by (auto simp: pw_locks_def refcount_locks_def split: pw_thread.splits list.splits)
  moreover have "\<not> pw_waits (proxy y)" using assms(1) by (simp add: pw_waits_def pw_ready_def)
  ultimately show ?thesis
    using wait_pw [of wl_deciding y E s' sp CB] assms pw_step_plant [OF assms(2)] pw_step_keeps_wl [OF assms(2)]
    by (simp add: same_plant_def)
qed

lemma pw_exits:
  assumes y: "restarting y = Restarting PhJoiningPw a" "\<not> mThreadsRun (proxy y)"
    "mPendingWritesThread (proxy y) \<noteq> PwNone" "pending_inv E (proxy y)"
  shows "\<exists>z. (wait_step sp E CB)\<^sup>*\<^sup>* (y, wl_deciding) (z, wl_deciding)
    \<and> restarting z = Restarting PhJoinWl a \<and> \<not> mThreadsRun (proxy z)
    \<and> mWakelockThread (proxy z) = mWakelockThread (proxy y) \<and> in_flight z = in_flight y"
proof -
  obtain u s1 s2 where u: "mPendingWritesThread u = PwExited"
    and st: "pw_step E (proxy y) = Some s1" "pw_step E s1 = Some s2" "pw_step E s2 = Some u"
    using pw_turn_stopped [OF y(4,2,3)] by (auto simp: pw_turn_def bind_eq_Some_conv)
  note w1 = pw_step_stopped_waits [OF y(2) st(1), of sp CB]
  note w2 = pw_step_stopped_waits [of "y\<lparr>proxy := s1\<rparr>" E s2 sp CB]
  note w3 = pw_step_stopped_waits [of "y\<lparr>proxy := s2\<rparr>" E u sp CB]
  let ?z = "y\<lparr>restarting := Restarting PhJoinWl a, proxy := u\<lparr>mPendingWritesThread := PwNone\<rparr>\<rparr>"
  have "wait_step sp E CB (y\<lparr>proxy := u\<rparr>, wl_deciding) (?z, wl_deciding)"
    using wait_phase [of "y\<lparr>proxy := u\<rparr>" PhJoiningPw a sp E CB wl_deciding] y(1) u by simp
  moreover have "wait_step sp E CB (y, wl_deciding) (y\<lparr>proxy := s1\<rparr>, wl_deciding)"
    "wait_step sp E CB (y\<lparr>proxy := s1\<rparr>, wl_deciding) (y\<lparr>proxy := s2\<rparr>, wl_deciding)"
    "wait_step sp E CB (y\<lparr>proxy := s2\<rparr>, wl_deciding) (y\<lparr>proxy := u\<rparr>, wl_deciding)"
    "\<not> mThreadsRun u" "mWakelockThread u = mWakelockThread (proxy y)"
    using w1 w2 w3 st by simp_all
  ultimately have "(wait_step sp E CB)\<^sup>*\<^sup>* (y, wl_deciding) (?z, wl_deciding)"
    by (meson converse_rtranclp_into_rtranclp r_into_rtranclp)
  with \<open>\<not> mThreadsRun u\<close> \<open>mWakelockThread u = mWakelockThread (proxy y)\<close> show ?thesis
    by (intro exI [of _ ?z]) simp
qed

lemma pw_joined:
  assumes env: "callback_documented CB" "max_size_ok E" and inv: "sys_inv E c y"
    and y: "restarting y = Restarting PhJoinPw a" "\<not> mThreadsRun (proxy y)"
  shows "\<exists>z. (wait_step sp E CB)\<^sup>*\<^sup>* (y, wl_deciding) (z, wl_deciding)
    \<and> restarting z = Restarting PhJoinWl a \<and> \<not> mThreadsRun (proxy z)
    \<and> mWakelockThread (proxy z) = mWakelockThread (proxy y) \<and> in_flight z = in_flight y"
proof -
  let ?p = "phase_step E a PhJoinPw (proxy y)"
  let ?y1 = "y\<lparr>restarting := fst ?p, proxy := snd ?p\<rparr>"
  have 1: "wait_step sp E CB (y, wl_deciding) (?y1, wl_deciding)"
    using wait_phase [OF y(1), of sp E CB wl_deciding] by simp
  have same: "\<not> mThreadsRun (proxy ?y1)" "mWakelockThread (proxy ?y1) = mWakelockThread (proxy y)"
    "mPendingWritesThread (proxy ?y1) = mPendingWritesThread (proxy y)" "in_flight ?y1 = in_flight y"
    using y(2) by (simp_all add: ext_defs)
  show ?thesis
  proof (cases "mPendingWritesThread (proxy y) = PwNone")
    case True
    with 1 same show ?thesis by (intro exI [of _ ?y1]) (simp add: r_into_rtranclp)
  next
    case False
    then have r: "restarting ?y1 = Restarting PhJoiningPw a" by simp
    have "sys_inv E c ?y1" using waits.step_inv [OF 1, of c] inv env by simp
    then have "pending_inv E (proxy ?y1)" using r by (simp add: sys_inv_def pending_ok_def)
    from pw_exits [OF r same(1) _ this, of sp CB] False same obtain z where
      z: "(wait_step sp E CB)\<^sup>*\<^sup>* (?y1, wl_deciding) (z, wl_deciding)" "restarting z = Restarting PhJoinWl a"
        "\<not> mThreadsRun (proxy z)" "mWakelockThread (proxy z) = mWakelockThread (proxy y)" "in_flight z = in_flight y"
      by auto
    from converse_rtranclp_into_rtranclp [OF 1 z(1)] z(2-5) show ?thesis by blast
  qed
qed

lemma wl_stop_missed:
  assumes env: "callback_documented CB" "max_size_ok E" and inv: "sys_inv E c x"
    and x: "restarting x = Idle r" "in_flight x = []" "wl_waits (proxy x)" "wl_cv v = Awake"
  shows "\<exists>z. (wait_step False E CB)\<^sup>*\<^sup>* (x, v) z \<and> lost_wl a z"
proof -
  obtain v1 where v1: "(wait_step False E CB)\<^sup>*\<^sup>* (x, v) (x, v1)" "pw_cv v1 \<noteq> Deciding" "wl_cv v1 = Awake"
    using pw_blocked [of False E CB x v] x(4) by auto
  have v2: "\<lparr>pw_cv = wake (pw_cv v1), wl_cv = Deciding\<rparr> = wl_deciding"
    using v1(2) by (cases "pw_cv v1") (simp_all add: wl_deciding_def)
  have "(wait_step False E CB)\<^sup>*\<^sup>* (x, v1) (signalled E a x, wl_deciding)"
    using converse_rtranclp_into_rtranclp [OF wait_wl_decides [OF v1(3) x(3)]
        stop_signalled_run [OF x(1), of False E CB "v1\<lparr>wl_cv := Deciding\<rparr>" a]] by (simp add: v2)
  with v1(1) have xy: "(wait_step False E CB)\<^sup>*\<^sup>* (x, v) (signalled E a x, wl_deciding)"
    by (rule rtranclp_trans)
  have loop: "mWakelockThread (proxy (signalled E a x)) = WlLoop"
    using x(3) by (simp add: signalled_members wl_waits_def)
  have "sys_inv E c (signalled E a x)" using waits.steps_inv [OF xy, of c] inv env by simp
  from pw_joined [OF env this signalled_members(5,3), of False] loop x(2) obtain z where
    z: "(wait_step False E CB)\<^sup>*\<^sup>* (signalled E a x, wl_deciding) (z, wl_deciding)"
      "restarting z = Restarting PhJoinWl a" "\<not> mThreadsRun (proxy z)"
      "mWakelockThread (proxy z) = WlLoop" "in_flight z = []"
    by (auto simp: signalled_members)
  let ?z1 = "z\<lparr>restarting := Restarting PhJoiningWl a, proxy := do_call JoinWakelockThread (proxy z)\<rparr>"
  let ?v = "wl_deciding\<lparr>wl_cv := Blocked\<rparr>"
  have "wait_step False E CB (z, wl_deciding) (?z1, wl_deciding)"
    using wait_phase [OF z(2), of False E CB wl_deciding] z(4) by simp
  moreover have "wait_step False E CB (?z1, wl_deciding) (?z1, ?v)" by (rule wait_wl_blocks) simp
  ultimately have "(wait_step False E CB)\<^sup>*\<^sup>* (x, v) (?z1, ?v)"
    using xy z(1) by (meson rtranclp_trans rtranclp.rtrancl_into_rtrancl)
  moreover have "lost_wl a (?z1, ?v)" using z(3-5) by (simp add: lost_wl_def ext_defs)
  ultimately show ?thesis by blast
qed

subsection \<open>Properties\<close>

text \<open>
  C14: a stop can be missed, by either thread. From any reachable state in which the proxy runs,
  nothing is being posted and a thread is about to look at its condition and find it false, a call of
  \<open>initialize\<close> can get into a state in which it waits for that thread and from which it never returns,
  whatever the environment answers and whoever else calls: the thread sleeps, and the notification
  that should have woken it has passed. (The same holds of the destructor. A spurious return from the
  wait would end it; nothing in the code does.)
\<close>

theorem stop_signal_lost:
  assumes "wait_reachable sp E CB c (x, v)" and "callback_documented CB" and "max_size_ok E"
    and "restarting x = Idle r" and "in_flight x = []"
  shows "(pw_waits (proxy x) \<and> pw_cv v = Awake \<longrightarrow>
      (\<exists>z. (wait_step False E CB)\<^sup>*\<^sup>* (x, v) z
        \<and> (\<forall>z'. (wait_step False E CB)\<^sup>*\<^sup>* z z' \<longrightarrow> restarting (fst z') = Restarting PhJoiningPw a)))
    \<and> (wl_waits (proxy x) \<and> wl_cv v = Awake \<longrightarrow>
      (\<exists>z. (wait_step False E CB)\<^sup>*\<^sup>* (x, v) z
        \<and> (\<forall>z'. (wait_step False E CB)\<^sup>*\<^sup>* z z' \<longrightarrow> restarting (fst z') = Restarting PhJoiningWl a)))"
proof -
  have inv: "sys_inv E c x" using wait_reachable_inv [OF assms(1-3)] by simp
  have later: "sys_inv E c (fst z)" if "(wait_step False E CB)\<^sup>*\<^sup>* (x, v) z" for z
    using waits.steps_inv [OF that, of c] inv assms(2,3) by simp
  have pw: "\<exists>z. (wait_step False E CB)\<^sup>*\<^sup>* (x, v) z
      \<and> (\<forall>z'. (wait_step False E CB)\<^sup>*\<^sup>* z z' \<longrightarrow> restarting (fst z') = Restarting PhJoiningPw a)"
    if t: "pw_waits (proxy x)" "pw_cv v = Awake"
  proof -
    obtain z where z: "(wait_step False E CB)\<^sup>*\<^sup>* (x, v) z" "lost_pw a z"
      using pw_stop_missed [OF assms(4,5) t] by blast
    from lost_pw.steps_inv [of E CB z _ a c] later [OF z(1)] z assms(2,3) show ?thesis
      unfolding lost_pw_def by blast
  qed
  have wl: "\<exists>z. (wait_step False E CB)\<^sup>*\<^sup>* (x, v) z
      \<and> (\<forall>z'. (wait_step False E CB)\<^sup>*\<^sup>* z z' \<longrightarrow> restarting (fst z') = Restarting PhJoiningWl a)"
    if t: "wl_waits (proxy x)" "wl_cv v = Awake"
  proof -
    obtain z where z: "(wait_step False E CB)\<^sup>*\<^sup>* (x, v) z" "lost_wl a z"
      using wl_stop_missed [OF assms(2,3) inv assms(4,5) t] by blast
    from lost_wl.steps_inv [of E CB z _ a c] later [OF z(1)] z assms(2,3) show ?thesis
      unfolding lost_wl_def by blast
  qed
  from pw wl show ?thesis by blast
qed

theorem stop_signal_lost_witness:
  "\<exists>r z. (wait_step False sensors_env header_callback)\<^sup>*\<^sup>* (started_system r, both_awake) z
    \<and> (\<forall>z'. (wait_step False sensors_env header_callback)\<^sup>*\<^sup>* z z' \<longrightarrow>
         restarting (fst z') = Restarting PhJoiningWl (4, 5, 6))"
proof -
  obtain r where r: "wait_reachable False sensors_env header_callback built_proxy (started_system r, both_awake)"
    using started_waits by blast
  have "in_flight (started_system r) = []" "restarting (started_system r) = Idle (Some r)"
    "wl_waits (proxy (started_system r))"
    using started_waiting(2) by (simp_all add: started_system_def stopping_system_def start_def)
  with stop_signal_lost [OF r header_callback_documented max_size_sensors this(2,1), where a = "(4, 5, 6)"]
  show ?thesis by (metis both_awake_simps(2))
qed

end
