(* ===== verification/Hal_Races.thy ===== *)
theory Hal_Races
  imports Hal_Reachable
begin

text \<open>
  A race in \<open>initializeCommon\<close>. It empties the pending queue and resets the size counter in two
  assignments without holding \<open>mEventQueueWriteMutex\<close>. A post that passed the callback's check of
  \<open>mThreadsRun\<close> earlier may take that mutex between the two. \<open>Hal_System\<close> leaves this one interleaving
  out; here is what it does.
\<close>

subsection \<open>From the race to the end of the restart\<close>

text \<open>The queue keeps the batch, while the counter is zero as soon as the second assignment ran.\<close>

definition miscounted :: "Event list \<Rightarrow> size_t \<Rightarrow> hal_proxy \<Rightarrow> bool" where
  "miscounted out w s \<longleftrightarrow>
     mPendingWriteEventsQueue s = [(out, w)] \<and> mSizePendingWriteEventsQueue s = 0"

definition after_race :: "Event list \<Rightarrow> size_t \<Rightarrow> restart \<Rightarrow> hal_proxy \<Rightarrow> bool" where
  "after_race out w r s \<longleftrightarrow>
     (case r of
        Idle _ \<Rightarrow> miscounted out w s \<and> mThreadsRun s \<and> mPendingWritesThread s = PwLoop \<and> mEventQueue s \<noteq> None
      | Restarting ph _ \<Rightarrow>
          10 \<le> phase_rank ph \<and> miscounted out w s
          \<and> (11 \<le> phase_rank ph \<longrightarrow> mEventQueue s \<noteq> None)
          \<and> (13 \<le> phase_rank ph \<longrightarrow> mThreadsRun s \<and> mPendingWritesThread s = PwLoop))"

lemma create_event_flags_members [simp]:
  "mPendingWriteEventsQueue (snd (create_event_flags E s)) = mPendingWriteEventsQueue s"
  "mSizePendingWriteEventsQueue (snd (create_event_flags E s)) = mSizePendingWriteEventsQueue s"
  "mEventQueue (snd (create_event_flags E s)) = mEventQueue s"
proof -
  obtain h f f' where "snd (create_event_flags E s) =
      s\<lparr>hist := hist s @ h, mEventQueueFlag := f, mWakelockQueueFlag := f'\<rparr>"
    using create_event_flags_trace by blast
  then show "mPendingWriteEventsQueue (snd (create_event_flags E s)) = mPendingWriteEventsQueue s"
    "mSizePendingWriteEventsQueue (snd (create_event_flags E s)) = mSizePendingWriteEventsQueue s"
    "mEventQueue (snd (create_event_flags E s)) = mEventQueue s" by simp_all
qed

lemma after_race_phase:
  assumes "after_race out w (Restarting ph a) s"
  shows "after_race out w (fst (phase_step E a ph s)) (snd (phase_step E a ph s))"
  using assms
  by (cases ph; cases a)
     (auto simp: after_race_def miscounted_def case_prod_beta Let_def ext_defs)

lemma after_race_step:
  "restart_run E a p q \<Longrightarrow> after_race out w (fst p) (snd p) \<Longrightarrow> after_race out w (fst q) (snd q)"
proof (erule restart_run.cases)
  fix ph s x
  assume "after_race out w (fst p) (snd p)" "p = (Restarting ph a, s)" "q = x" "phase_step E a ph s = x"
  with after_race_phase [of out w ph a s E] show "after_race out w (fst q) (snd q)" by simp
qed (auto simp: after_race_def)

interpretation race: step_invariant "restart_run E a" "\<lambda>p. after_race out w (fst p) (snd p)" for E a out w
  by unfold_locales (rule after_race_step)

subsection \<open>The counter wraps\<close>

lemma miscounted_turn:
  assumes "miscounted out w t" "mThreadsRun t" "mPendingWritesThread t = PwLoop" "mEventQueue t \<noteq> None"
    and "vsize out \<le> ansSize E (hist t) EventQueueGetQuantumCount" and "vector_ok out"
  obtains t' where "pw_turn E t = Some t'" "mPendingWriteEventsQueue t' = []"
    "mSizePendingWriteEventsQueue t' = - vsize out" "mEventQueue t' \<noteq> None"
proof -
  let ?q = "ansSize E (hist t) EventQueueGetQuantumCount"
  let ?t1 = "t\<lparr>hist := hist t @ [(EventQueueGetQuantumCount, ASize ?q)],
    mPendingWritesThread := PwWriting (vsize out) ?q w\<rparr>"
  have q: "\<not> ?q < vsize out" using assms(5) by simp
  have step1: "pw_step E t = Some ?t1"
    using assms(1-5) by (auto simp: pw_step_def pw_begin_def miscounted_def ext_defs Let_def min_def)
  have "pw_write E (vsize out) ?q w ?t1 \<noteq> None"
    using assms(1) q by (auto simp: pw_write_def miscounted_def ext_defs Let_def)
  then obtain t2 where t2: "pw_write E (vsize out) ?q w ?t1 = Some t2" by blast
  have front: "mPendingWriteEventsQueue t2 = [(out, w)]" "mSizePendingWriteEventsQueue t2 = 0"
    "mPendingWritesThread t2 = PwWritten (vsize out) ?q"
    using pw_write_effect [OF t2] assms(1) by (auto simp: miscounted_def)
  have step2: "pw_step E ?t1 = Some t2" using t2 by (simp add: pw_step_def)
  then have queue: "mEventQueue t2 = mEventQueue t" using pw_step_plant [OF step2] by (simp add: same_plant_def)
  let ?t3 = "t2\<lparr>mSizePendingWriteEventsQueue := - vsize out, mPendingWriteEventsQueue := [],
      mPendingWritesThread := PwLoop\<rparr>"
  have step3: "pw_step E t2 = Some ?t3" using q front by (simp add: pw_step_def pw_end_def)
  have turn: "pw_turn E t = Some ?t3" by (simp only: pw_turn_def step1 step2 step3 Option.bind.simps)
  show thesis using assms(4) queue by (intro that [OF turn]) simp_all
qed

lemma wrapped_refuses:
  assumes "vector_ok out" "max_size_ok E" "evs \<noteq> []" "length evs < length out"
  shows "\<not> - vsize out + vsize evs \<le> kMaxSizePendingWriteEventsQueue E"
proof -
  have n: "unat (vsize out) = length out" "unat (vsize evs) = length evs"
    using assms(1,4) by (simp_all add: unat_vsize vector_ok_def)
  then have u: "uint (vsize out) = int (length out)" "uint (vsize evs) = int (length evs)"
    by (simp_all add: uint_nat)
  have "- vsize out + vsize evs = vsize evs - vsize out" by simp
  moreover have "uint (vsize evs - vsize out) = int (length evs) - int (length out) + 2 ^ 64"
    using u assms(4) by (simp add: uint_sub_if')
  moreover have "uint (kMaxSizePendingWriteEventsQueue E) < int (2 ^ 63)"
    using assms(2) unfolding max_size_ok_def uint_nat by (rule of_nat_less_iff [THEN iffD2])
  moreover have "int (length out) < 2 ^ 63" using assms(1) by (simp add: vector_ok_def)
  ultimately show ?thesis by (simp add: word_le_def)
qed

subsection \<open>Property\<close>

text \<open>
  C15: a post that gets between the two assignments: the message queue is full, the post keeps its
  events in the just emptied pending queue, and the restart then resets the counter and runs to its
  end. When the pending-writes thread has written that batch the queue is empty, but the size counter
  has wrapped below zero: later posts that must wait and are smaller than the batch are dropped,
  although nothing at all is pending.
\<close>

theorem post_while_clearing_wraps_size:
  assumes "mPendingWriteEventsQueue s = []" and "mEventQueue s \<noteq> None"
    and "ansSize E (hist s) EventQueueAvailableToWrite = 0"
    and "out \<noteq> []" and "vector_ok out" and "max_size_ok E"
    and "mSizePendingWriteEventsQueue s + vsize out \<le> kMaxSizePendingWriteEventsQueue E"
    and "postEventsToMessageQueue E out w False s = Some s1"
    and "(restart_run E a)\<^sup>*\<^sup>* (Restarting PhClearSize a, s1) (Idle r, t)"
    and "vsize out \<le> ansSize E (hist t) EventQueueGetQuantumCount"
  shows "\<exists>t'. pw_turn E t = Some t' \<and> mPendingWriteEventsQueue t' = []
    \<and> mSizePendingWriteEventsQueue t' = - vsize out
    \<and> (\<forall>evs w'. evs \<noteq> [] \<and> length evs < length out
          \<and> ansSize E (hist t') EventQueueAvailableToWrite = 0 \<longrightarrow>
        (\<exists>u. postEventsToMessageQueue E evs w' False t' = Some u
           \<and> mPendingWriteEventsQueue u = [] \<and> settled (hist u) = settled (hist t')))"
proof -
  have "vsize out > 0" using assms(4,5) unat_vsize [of out] by (auto simp: word_gt_0)
  then have s1: "mPendingWriteEventsQueue s1 = [(out, w)]"
    using assms(1-3,7,8)
    by (auto simp: postEventsToMessageQueue_def post_direct_def post_pending_def ext_defs Let_def)
  obtain q where q: "restart_run E a (Restarting PhClearSize a, s1) q" "(restart_run E a)\<^sup>*\<^sup>* q (Idle r, t)"
    using assms(9) by (auto elim: converse_rtranclpE)
  from q(1) have "q = (Restarting PhInstall a, s1\<lparr>mSizePendingWriteEventsQueue := 0\<rparr>)"
    by cases simp_all
  with s1 race.steps_inv [OF q(2), of out w]
  have t: "miscounted out w t" "mThreadsRun t" "mPendingWritesThread t = PwLoop" "mEventQueue t \<noteq> None"
    by (auto simp: after_race_def miscounted_def)
  obtain t' where t': "pw_turn E t = Some t'" "mPendingWriteEventsQueue t' = []"
    "mSizePendingWriteEventsQueue t' = - vsize out" "mEventQueue t' \<noteq> None"
    by (rule miscounted_turn [OF t assms(10,5)])
  have "\<exists>u. postEventsToMessageQueue E evs w' False t' = Some u
      \<and> mPendingWriteEventsQueue u = [] \<and> settled (hist u) = settled (hist t')"
    if "evs \<noteq> []" "length evs < length out" "ansSize E (hist t') EventQueueAvailableToWrite = 0" for evs w'
    using t'(2-4) that wrapped_refuses [OF assms(5,6) that(1,2)]
    by (simp add: postEventsToMessageQueue_def post_direct_def post_pending_def ext_defs Let_def)
  with t' show ?thesis by blast
qed

text \<open>A run: a full message queue, a post of two events after the first assignment.\<close>

definition full_env :: hal_env where
  "full_env = quiet_env\<lparr>ansSize := (\<lambda>_ c. if c = EventQueueAvailableToWrite then 0 else 4)\<rparr>"

definition clearing_proxy :: hal_proxy where
  "clearing_proxy = empty_proxy\<lparr>mThreadsRun := False, mEventQueue := Some 0\<rparr>"

lemma late_phases:
  "5 \<le> phase_rank ph \<Longrightarrow> \<exists>r t. (restart_run E a)\<^sup>*\<^sup>* (Restarting ph a, s) (Idle r, t)"
proof (induction "14 - phase_rank ph" arbitrary: ph s rule: less_induct)
  case less
  have "ph \<noteq> PhJoiningPw" "ph \<noteq> PhJoiningWl" using less.prems by auto
  with phase_advances [of ph E s a] obtain p where
    p: "(restart_run E a)\<^sup>*\<^sup>* (Restarting ph a, s) p" "past ph a (fst p)" by blast
  from p(2) consider res where "fst p = Idle (Some res)"
    | ph' where "fst p = Restarting ph' a" "phase_rank ph < phase_rank ph'"
    by (auto simp: past_def)
  then show ?case
  proof cases
    case 1
    with p(1) show ?thesis by (metis prod.collapse)
  next
    case 2
    have "phase_rank ph' \<le> 14" by (cases ph') simp_all
    with 2(2) less.prems have "14 - phase_rank ph' < 14 - phase_rank ph" "5 \<le> phase_rank ph'" by simp_all
    from less.hyps [OF this] obtain r t where
      "(restart_run E a)\<^sup>*\<^sup>* (Restarting ph' a, snd p) (Idle r, t)" by blast
    with p(1) 2(1) show ?thesis by (metis prod.collapse rtranclp_trans)
  qed
qed

theorem post_while_clearing_wraps_size_witness:
  "\<exists>s1 r t t'. postEventsToMessageQueue full_env [event_of 4 9, event_of 4 9] 0 False clearing_proxy = Some s1
    \<and> (restart_run full_env (1, 2, 3))\<^sup>*\<^sup>* (Restarting PhClearSize (1, 2, 3), s1) (Idle r, t)
    \<and> pw_turn full_env t = Some t' \<and> unat (mSizePendingWriteEventsQueue t') = 2 ^ 64 - 2"
proof -
  let ?out = "[event_of 4 9, event_of 4 9]"
  have size: "vsize ?out = 2" by (simp add: vsize_def)
  obtain s1 where s1: "postEventsToMessageQueue full_env ?out 0 False clearing_proxy = Some s1"
    by (simp add: postEventsToMessageQueue_def post_direct_def clearing_proxy_def empty_proxy_def
        full_env_def ext_defs Let_def)
  obtain r t where run: "(restart_run full_env (1, 2, 3))\<^sup>*\<^sup>* (Restarting PhClearSize (1, 2, 3), s1) (Idle r, t)"
    using late_phases [of PhClearSize full_env "(1, 2, 3)" s1] by auto
  have "max_size_ok full_env" using max_size_quiet by (simp add: full_env_def max_size_ok_def)
  then obtain t' where t': "pw_turn full_env t = Some t'" "mSizePendingWriteEventsQueue t' = - vsize ?out"
    using post_while_clearing_wraps_size [OF _ _ _ _ _ _ _ s1 run] size
    by (auto simp: clearing_proxy_def empty_proxy_def full_env_def quiet_env_def vector_ok_def)
  have "unat (- 2 :: size_t) = 2 ^ 64 - 2" by simp
  then have "unat (mSizePendingWriteEventsQueue t') = 2 ^ 64 - 2" by (simp only: t'(2) size)
  with s1 run t'(1) show ?thesis by blast
qed

end
