(* ===== verification/Lights.thy ===== *)
theory Lights
  imports Decimal
begin

text \<open>
  The lights HAL, \<open>lights/Light.cpp\<close>: \<open>setLightState\<close> turns the ARGB colour of the backlight into a
  brightness, scales it to the panel's range and writes it to the panel's file.

  The files are the state \<open>light_files\<close>: the contents of the readable files and which paths can be
  opened for writing. \<open>LightType\<close> is declared in the AIDL interface, outside the repository; the code
  uses one of its enumerators, whose number is the parameter \<open>BACKLIGHT\<close>. The value an uninitialised
  \<open>int\<close> happens to hold is the parameter \<open>indet\<close>.
\<close>

subsection \<open>Operations\<close>

record HwLightState =
  color :: int32

record HwLight =
  hl_id :: int
  hl_type :: int
  hl_ordinal :: int

record light_files =
  contents :: "string \<Rightarrow> string option"
  writable :: "string \<Rightarrow> bool"

datatype light_status = StatusOk | EX_UNSUPPORTED_OPERATION

definition LCD_LED :: string where "LCD_LED = ''/sys/class/leds/lcd-backlight/''"
definition BRIGHTNESS :: string where "BRIGHTNESS = ''brightness''"
definition MAX_BRIGHTNESS :: string where "MAX_BRIGHTNESS = ''max_brightness''"

definition set_string :: "string \<Rightarrow> string \<Rightarrow> light_files \<Rightarrow> light_files" where
  "set_string path value s =
     (if \<not> writable s path then s else s\<lparr>contents := (contents s)(path \<mapsto> value)\<rparr>)"

definition set_int :: "string \<Rightarrow> int \<Rightarrow> light_files \<Rightarrow> light_files" where
  "set_int path value s = set_string path (int_digits value) s"

definition getMaxBrightness :: "int \<Rightarrow> string \<Rightarrow> light_files \<Rightarrow> int" where
  "getMaxBrightness indet path s =
     (case contents s path of
        None \<Rightarrow> 0
      | Some text \<Rightarrow> (case istream_int text of None \<Rightarrow> indet | Some value \<Rightarrow> value))"

definition getBrightness :: "HwLightState \<Rightarrow> uint32" where
  "getBrightness state =
     (let alpha = signed_drop_bit 24 (color state) AND 0xFF;
          red = signed_drop_bit 16 (color state) AND 0xFF;
          green = signed_drop_bit 8 (color state) AND 0xFF;
          blue = color state AND 0xFF;
          red' = red * alpha div 0xFF;
          green' = green * alpha div 0xFF;
          blue' = blue * alpha div 0xFF
      in drop_bit 8 (77 * red' + 150 * green' + 29 * blue'))"

definition scaleBrightness :: "uint32 \<Rightarrow> uint32 \<Rightarrow> uint32" where
  "scaleBrightness brightness maxBrightness =
     (if brightness = 0 then 0
      else (brightness - 1) * (maxBrightness - 1) div (0xFF - 1) + 1)"

definition getScaledBrightness :: "HwLightState \<Rightarrow> uint32 \<Rightarrow> uint32" where
  "getScaledBrightness state maxBrightness = scaleBrightness (getBrightness state) maxBrightness"

definition handleBacklight :: "int \<Rightarrow> HwLightState \<Rightarrow> light_files \<Rightarrow> light_files" where
  "handleBacklight indet state s =
     (let brightness = getScaledBrightness state
            (word_of_int (getMaxBrightness indet (LCD_LED @ MAX_BRIGHTNESS) s))
      in set_int (LCD_LED @ BRIGHTNESS) (sint brightness) s)"

definition backends :: "int \<Rightarrow> int list" where
  "backends BACKLIGHT = [BACKLIGHT]"

definition setLightState ::
  "int \<Rightarrow> int \<Rightarrow> int \<Rightarrow> HwLightState \<Rightarrow> light_files \<Rightarrow> light_status \<times> light_files" where
  "setLightState BACKLIGHT indet lightId state s =
     (if lightId = BACKLIGHT then (StatusOk, handleBacklight indet state s)
      else (EX_UNSUPPORTED_OPERATION, s))"

fun getLights_loop :: "int list \<Rightarrow> int \<Rightarrow> HwLight list \<Rightarrow> HwLight list" where
  "getLights_loop [] i lights = lights"
| "getLights_loop (backend # bs) i lights =
     getLights_loop bs (i + 1)
       (lights @ [\<lparr>hl_id = backend, hl_type = backend, hl_ordinal = i\<rparr>])"

definition getLights :: "int \<Rightarrow> HwLight list \<Rightarrow> light_status \<times> HwLight list" where
  "getLights BACKLIGHT lights = (StatusOk, getLights_loop (backends BACKLIGHT) 0 lights)"

subsection \<open>The arithmetic without wrap-around\<close>

definition channel_at :: "nat \<Rightarrow> int32 \<Rightarrow> nat" where
  "channel_at i c = unat (signed_drop_bit i c AND 0xFF)"

lemma and_255: "unat (w AND 0xFF :: 32 word) = unat w mod 256"
proof -
  have "w AND 0xFF = take_bit 8 w" by (simp add: take_bit_eq_mask mask_eq_exp_minus_1)
  then show ?thesis by (simp add: take_bit_eq_mod unat_mod)
qed

lemma channel_at_less: "channel_at i c < 256"
  by (simp add: channel_at_def and_255)

lemma unat_mult_small:
  "unat a * unat b < 2 ^ LENGTH('a) \<Longrightarrow> unat (a * b :: 'a::len word) = unat a * unat b"
  by (simp add: unat_word_ariths)

lemma scaled_channel:
  assumes "unat x < 256" "unat a < 256"
  shows "unat (x * a div 0xFF :: uint32) = unat x * unat a div 255" "unat x * unat a div 255 \<le> 255"
proof -
  have p: "unat x * unat a \<le> 255 * 255" by (intro mult_le_mono) (use assms in simp_all)
  then have "unat (x * a) = unat x * unat a"
    by (simp add: unat_word_ariths)
  then show "unat (x * a div 0xFF) = unat x * unat a div 255" by (simp add: unat_div)
  show "unat x * unat a div 255 \<le> 255" using div_le_mono [OF p, of 255] by simp
qed

lemma getBrightness_nat:
  defines "mixed c i \<equiv> channel_at i c * channel_at 24 c div 255"
  shows "unat (getBrightness state) =
    (77 * mixed (color state) 16 + 150 * mixed (color state) 8 + 29 * mixed (color state) 0) div 256"
proof -
  define ch where "ch i = signed_drop_bit i (color state) AND 0xFF" for i
  let ?m = "\<lambda>i. ch i * ch 24 div 0xFF"
  have u: "unat (ch i) = channel_at i (color state)" for i by (simp add: ch_def channel_at_def)
  have small: "unat (ch i) < 256" for i by (simp add: u channel_at_less)
  have m: "unat (?m i) = mixed (color state) i" "mixed (color state) i \<le> 255" for i
    using scaled_channel [OF small small, of i 24] by (simp_all add: u mixed_def)
  have r: "unat (77 * ?m 16) = 77 * mixed (color state) 16"
    and g: "unat (150 * ?m 8) = 150 * mixed (color state) 8"
    and b: "unat (29 * ?m 0) = 29 * mixed (color state) 0"
    using m(2) [of 16] m(2) [of 8] m(2) [of 0] by (subst unat_mult_small; simp add: m(1))+
  have "unat (77 * ?m 16 + 150 * ?m 8 + 29 * ?m 0) =
      77 * mixed (color state) 16 + 150 * mixed (color state) 8 + 29 * mixed (color state) 0"
    using r g b m(2) [of 16] m(2) [of 8] m(2) [of 0] by (subst unat_add_small; simp)+
  moreover have "getBrightness state = drop_bit 8 (77 * ?m 16 + 150 * ?m 8 + 29 * ?m 0)"
    by (simp add: getBrightness_def ch_def Let_def)
  ultimately show ?thesis by (simp add: drop_bit_eq_div unat_div)
qed

lemma getBrightness_le: "unat (getBrightness state) \<le> 255"
proof -
  have "channel_at i c * channel_at 24 c div 255 \<le> 255" for i c
    using scaled_channel(2) [of "signed_drop_bit i c AND 0xFF" "signed_drop_bit 24 c AND 0xFF"]
      channel_at_less [of i c] channel_at_less [of 24 c] by (simp add: channel_at_def)
  then have "77 * (channel_at 16 c * channel_at 24 c div 255) + 150 * (channel_at 8 c * channel_at 24 c div 255)
      + 29 * (channel_at 0 c * channel_at 24 c div 255) \<le> 77 * 255 + 150 * 255 + 29 * 255" for c
    by (intro add_mono mult_le_mono) simp_all
  from div_le_mono [OF this [of "color state"], of 256] show ?thesis by (simp add: getBrightness_nat)
qed

lemma scaleBrightness_nat:
  assumes "unat b \<le> 255" "1 \<le> unat m" "254 * (unat m - 1) < 2 ^ 32 - 1"
  shows "unat (scaleBrightness b m) = (if b = 0 then 0 else (unat b - 1) * (unat m - 1) div 254 + 1)"
proof (cases "b = 0")
  case False
  then have "1 \<le> unat b" by (simp add: unat_gt_0 Suc_le_eq)
  then have u: "unat (b - 1) = unat b - 1" "unat (m - 1) = unat m - 1"
    using assms(2) by (simp_all add: unat_diff_le)
  have p: "(unat b - 1) * (unat m - 1) \<le> 254 * (unat m - 1)" using assms(1) by (intro mult_le_mono) simp_all
  then have "unat ((b - 1) * (m - 1)) = (unat b - 1) * (unat m - 1)"
    using unat_mult_small [of "b - 1" "m - 1"] order.strict_trans1 [OF p, of "2 ^ 32"] assms(3)
    unfolding u by simp
  then have d: "unat ((b - 1) * (m - 1) div (0xFF - 1)) = (unat b - 1) * (unat m - 1) div 254"
    by (simp add: unat_div)
  have "(unat b - 1) * (unat m - 1) div 254 \<le> unat m - 1"
    using div_le_mono [OF p, of 254] by simp
  then show ?thesis
    using False assms(3) d by (simp add: scaleBrightness_def unat_add_small)
qed (simp add: scaleBrightness_def)

lemma int_less_31: "n < 2 ^ 31 \<Longrightarrow> int n < 2 ^ 31" "- (2 ^ 31) \<le> int n"
  by simp_all

lemma sint_small: "unat w < 2 ^ 31 \<Longrightarrow> sint (w :: uint32) = int (unat w)"
proof -
  assume "unat w < 2 ^ 31"
  then have "int (unat w) < 2 ^ 31" by (rule int_less_31)
  then have "uint w < 2 ^ 31" by simp
  moreover have "0 \<le> uint w" by simp
  ultimately have "signed_take_bit 31 (uint w) = uint w" by (intro signed_take_bit_int_eq_self) linarith+
  then show ?thesis by (simp add: sint_uint)
qed

lemma unat_neg: "0 < unat w \<Longrightarrow> unat (- w :: uint32) = 2 ^ 32 - unat w"
proof -
  assume "0 < unat w"
  have "unat w < 2 ^ 32" using unsigned_less [of w, where ?'a = nat] by simp
  then have "of_nat (2 ^ 32 - unat w) = (of_nat (2 ^ 32) - of_nat (unat w) :: uint32)"
    by (intro of_nat_diff) simp
  then have "- w = of_nat (2 ^ 32 - unat w)" by simp
  moreover have "unat (of_nat (2 ^ 32 - unat w) :: uint32) = 2 ^ 32 - unat w"
    using \<open>0 < unat w\<close> by (intro unat_of_nat_small) simp
  ultimately show ?thesis by simp
qed

text \<open>The panel range within which no intermediate value leaves 32 bits.\<close>

definition panel_range :: "uint32 \<Rightarrow> bool" where
  "panel_range m \<longleftrightarrow> 1 \<le> unat m \<and> 254 * (unat m - 1) < 2 ^ 32 - 1"

lemma scale_bounds:
  assumes "unat b \<le> 255" "panel_range m"
  shows "unat (scaleBrightness b m) \<le> unat m"
proof (cases "b = 0")
  case False
  have "(unat b - 1) * (unat m - 1) \<le> 254 * (unat m - 1)" using assms(1) by (intro mult_le_mono) simp_all
  from div_le_mono [OF this, of 254] show ?thesis
    using assms False scaleBrightness_nat [OF assms(1), of m] by (simp add: panel_range_def) arith
qed (simp add: scaleBrightness_def)

subsection \<open>Properties\<close>

text \<open>
  \<open>getBrightness\<close> never leaves the range of a byte; an opaque grey gives exactly its grey value,
  and a fully transparent colour gives zero.
\<close>

lemma brightness_of_color:
  "unat (getBrightness state) \<le> 255
   \<and> (channel_at 24 (color state) = 255 \<and> channel_at 16 (color state) = v
        \<and> channel_at 8 (color state) = v \<and> channel_at 0 (color state) = v \<longrightarrow>
      unat (getBrightness state) = v)
   \<and> (channel_at 24 (color state) = 0 \<longrightarrow> getBrightness state = 0)"
proof -
  have "77 * v + 150 * v + 29 * v = 256 * v" by simp
  then have grey: "(77 * v + 150 * v + 29 * v) div 256 = v" by (metis div_mult_self1_is_m zero_less_numeral)
  have zero: "channel_at 24 (color state) = 0 \<Longrightarrow> getBrightness state = 0"
    using getBrightness_nat [of state] by (simp flip: unat_eq_0)
  show ?thesis
    using getBrightness_le zero grey by (auto simp: getBrightness_nat)
qed

text \<open>
  C33: scaling a byte to a panel of range \<open>m\<close>: no 32-bit operation wraps, the result is that of the
  same formula over the natural numbers; zero stays zero and nothing else becomes zero, full
  brightness becomes the panel's maximum, and the order is kept.
\<close>

theorem scaleBrightness_range:
  assumes "panel_range m" and "unat b \<le> 255" and "unat b' \<le> 255"
  shows "unat (scaleBrightness b m) = (if b = 0 then 0 else (unat b - 1) * (unat m - 1) div 254 + 1)
    \<and> (scaleBrightness b m = 0 \<longleftrightarrow> b = 0) \<and> scaleBrightness 255 m = m
    \<and> scaleBrightness b m \<le> m \<and> (b \<le> b' \<longrightarrow> scaleBrightness b m \<le> scaleBrightness b' m)"
proof -
  note nat = scaleBrightness_nat [OF _ assms(1) [unfolded panel_range_def, THEN conjunct1]
      assms(1) [unfolded panel_range_def, THEN conjunct2]]
  have "unat (scaleBrightness 255 m) = unat m"
    using nat [of 255] assms(1) by (simp add: panel_range_def)
  then have full: "scaleBrightness 255 m = m" by (simp add: word_unat_eq_iff)
  have zero: "scaleBrightness b m = 0 \<longleftrightarrow> b = 0"
    using nat [OF assms(2)] by (simp flip: unat_eq_0 split: if_splits)
  have mono: "scaleBrightness b m \<le> scaleBrightness b' m" if "b \<le> b'"
  proof -
    have "(unat b - 1) * (unat m - 1) div 254 \<le> (unat b' - 1) * (unat m - 1) div 254"
      using that by (intro div_le_mono mult_le_mono) (simp_all add: word_le_nat_alt diff_le_mono)
    moreover have "b' = 0 \<Longrightarrow> b = 0" using that by simp
    ultimately show ?thesis by (simp add: word_le_nat_alt nat [OF assms(2)] nat [OF assms(3)])
  qed
  from nat [OF assms(2)] full zero mono scale_bounds [OF assms(2,1)] show ?thesis by (simp add: word_le_nat_alt)
qed

theorem scaleBrightness_range_witness:
  "scaleBrightness 255 2047 = 2047 \<and> scaleBrightness 100 2047 \<le> 2047"
  using scaleBrightness_range [of 2047 100 255] by (simp add: panel_range_def)

text \<open>
  C32: setting the backlight on a panel whose maximum is written in its file: the brightness file then
  reads back as a level between zero and the maximum, the level of the colour, and no other file
  changes. If the file cannot be written nothing changes. Any other light is unsupported and
  nothing changes.
\<close>

theorem setLightState_writes_level:
  assumes "contents s (LCD_LED @ MAX_BRIGHTNESS) = Some (int_digits (int m) @ [CHR 0x0A])"
    and "panel_range (of_nat m)" and "m < 2 ^ 31"
  shows "(lightId \<noteq> backlight \<longrightarrow>
        setLightState backlight indet lightId state s = (EX_UNSUPPORTED_OPERATION, s))
    \<and> (\<not> writable s (LCD_LED @ BRIGHTNESS) \<longrightarrow> setLightState backlight indet backlight state s = (StatusOk, s))
    \<and> (writable s (LCD_LED @ BRIGHTNESS) \<longrightarrow>
        (\<exists>text level. setLightState backlight indet backlight state s
            = (StatusOk, s\<lparr>contents := (contents s)(LCD_LED @ BRIGHTNESS \<mapsto> text)\<rparr>)
          \<and> istream_int text = Some (int level) \<and> level \<le> m
          \<and> level = unat (scaleBrightness (getBrightness state) (of_nat m))))"
proof -
  let ?b = "scaleBrightness (getBrightness state) (of_nat m)"
  have max: "getMaxBrightness indet (LCD_LED @ MAX_BRIGHTNESS) s = int m"
    using istream_int_digits [of "int m" "[CHR 0x0A]"] assms(1,3)
    by (simp add: getMaxBrightness_def is_digit_def)
  have "unat (of_nat m :: uint32) = m" using assms(3) by (simp add: unat_of_nat_small)
  then have le: "unat ?b \<le> m" using scale_bounds [OF getBrightness_le assms(2), of state] by simp
  have "unat ?b < 2 ^ 31" using le assms(3) by simp
  then have signed: "sint ?b = int (unat ?b)" by (rule sint_small)
  note bounds = int_less_31(2) int_less_31(1) [OF \<open>unat ?b < 2 ^ 31\<close>]
  have read: "istream_int (int_digits (int (unat ?b))) = Some (int (unat ?b))"
    using istream_int_digits [OF bounds, of "[]"] by simp
  show ?thesis
    using read le
    by (auto simp: setLightState_def handleBacklight_def getScaledBrightness_def max Let_def
        set_int_def set_string_def signed)
qed

definition panel_files :: light_files where
  "panel_files = \<lparr>contents = [LCD_LED @ MAX_BRIGHTNESS \<mapsto> int_digits (int 2047) @ [CHR 0x0A]],
     writable = (\<lambda>p. p = LCD_LED @ BRIGHTNESS)\<rparr>"

theorem setLightState_writes_level_witness:
  "\<exists>text level s'. setLightState 0 9 0 \<lparr>color = 0xFFFFFFFF\<rparr> panel_files = (StatusOk, s')
     \<and> contents s' (LCD_LED @ BRIGHTNESS) = Some text \<and> istream_int text = Some (int level) \<and> level \<le> 2047"
proof -
  have pre: "contents panel_files (LCD_LED @ MAX_BRIGHTNESS) = Some (int_digits (int 2047) @ [CHR 0x0A])"
    "panel_range (of_nat 2047)" "(2047 :: nat) < 2 ^ 31" and open_ok: "writable panel_files (LCD_LED @ BRIGHTNESS)"
    by (simp_all add: panel_files_def panel_range_def)
  obtain str lvl where "setLightState 0 9 0 \<lparr>color = 0xFFFFFFFF\<rparr> panel_files =
      (StatusOk, panel_files\<lparr>contents := (contents panel_files)(LCD_LED @ BRIGHTNESS \<mapsto> str)\<rparr>)"
    "istream_int str = Some (int lvl)" "lvl \<le> 2047"
    using setLightState_writes_level [OF pre, of 0 0 9] open_ok by blast
  then show ?thesis by (intro exI [of _ str] exI [of _ lvl] exI conjI) auto
qed

text \<open>
  C39: when the panel's maximum cannot be read, \<open>getMaxBrightness\<close> answers 0, \<open>maxBrightness - 1\<close> wraps
  to \<open>2\<^sup>3\<^sup>2 - 1\<close>, and every brightness above one is scaled to more than sixteen million.
\<close>

theorem missing_max_brightness:
  assumes "contents s (LCD_LED @ MAX_BRIGHTNESS) = None" and "2 \<le> unat (getBrightness state)"
  shows "getMaxBrightness indet (LCD_LED @ MAX_BRIGHTNESS) s = 0
    \<and> 16000000 < unat (getScaledBrightness state
         (word_of_int (getMaxBrightness indet (LCD_LED @ MAX_BRIGHTNESS) s)))"
proof -
  let ?b = "getBrightness state"
  have b: "unat (?b - 1) = unat ?b - 1" using assms(2) by (simp add: unat_diff_le)
  have nz: "?b \<noteq> 0" using assms(2) by auto
  have "(?b - 1) * (0 - 1) = - (?b - 1)" by simp
  moreover have "unat (- (?b - 1)) = 2 ^ 32 - (unat ?b - 1)"
    using assms(2) b unat_neg [of "?b - 1"] by simp
  ultimately have "unat ((?b - 1) * (0 - 1)) = 2 ^ 32 - (unat ?b - 1)" by simp
  then have d: "unat ((?b - 1) * (0 - 1) div (0xFF - 1)) = (2 ^ 32 - (unat ?b - 1)) div 254"
    by (simp add: unat_div)
  have "2 ^ 32 - 254 \<le> 2 ^ 32 - (unat ?b - 1)" using getBrightness_le [of state] by simp
  from div_le_mono [OF this, of 254] have "16909318 \<le> (2 ^ 32 - (unat ?b - 1)) div 254" by simp
  moreover have "(2 ^ 32 - (unat ?b - 1)) div 254 \<le> 2 ^ 32 div 254" by (rule div_le_mono) simp
  ultimately have "16000000 < unat (scaleBrightness ?b 0)"
    using nz d by (simp add: scaleBrightness_def unat_add_small)
  with assms(1) show ?thesis by (simp add: getMaxBrightness_def getScaledBrightness_def)
qed

theorem missing_max_brightness_witness:
  "16000000 < unat (getScaledBrightness \<lparr>color = 0xFF7A7A7A\<rparr>
     (word_of_int (getMaxBrightness 0 (LCD_LED @ MAX_BRIGHTNESS) (panel_files\<lparr>contents := Map.empty\<rparr>))))"
proof -
  have "unat (getBrightness \<lparr>color = 0xFF7A7A7A\<rparr>) = 0x7A" by code_simp
  then show ?thesis
    using missing_max_brightness [of "panel_files\<lparr>contents := Map.empty\<rparr>" "\<lparr>color = 0xFF7A7A7A\<rparr>" 0,
      THEN conjunct2] by (simp only: light_files.simps) simp
qed

text \<open>
  \<open>getLights\<close> reports exactly the lights \<open>setLightState\<close> supports, each with the id it is set by.
\<close>

lemma getLights_reports_supported:
  "getLights backlight lights =
     (StatusOk, lights @ [\<lparr>hl_id = backlight, hl_type = backlight, hl_ordinal = 0\<rparr>])
   \<and> (fst (setLightState backlight indet lightId state s) = StatusOk
       \<longleftrightarrow> lightId \<in> hl_id ` set (snd (getLights backlight [])))"
  by (simp add: getLights_def backends_def setLightState_def)

end
