(* ===== verification/Libinit.thy ===== *)
theory Libinit
  imports Hal_Prelude
begin

text \<open>
  The init library, \<open>libinit/libinit_utils.cpp\<close> and \<open>libinit/init_RMX3031.cpp\<close>: overriding system
  properties, for one name or for all partitions, and the properties set when the device has booted
  into recovery.

  The property area is bionic's: the record \<open>property_area\<close> holds the three functions the code calls,
  over a state the code does not see into. \<open>area_documented\<close> is what they promise for names and values
  that fit; \<open>get\<close> is what reading a property afterwards gives.
\<close>

subsection \<open>Operations\<close>

record 'p property_area =
  system_property_find :: "string \<Rightarrow> 'p \<Rightarrow> nat option"
  system_property_update :: "nat \<Rightarrow> string \<Rightarrow> 'p \<Rightarrow> 'p"
  system_property_add :: "string \<Rightarrow> string \<Rightarrow> 'p \<Rightarrow> 'p"

text \<open>The default of \<open>add\<close> is \<open>true\<close>, that of \<open>product\<close> is \<open>false\<close>.\<close>

definition property_override ::
  "'p property_area \<Rightarrow> string \<Rightarrow> string \<Rightarrow> bool \<Rightarrow> 'p \<Rightarrow> 'p" where
  "property_override A prop value add s =
     (case system_property_find A prop s of
        Some pi \<Rightarrow> system_property_update A pi value s
      | None \<Rightarrow> if add then system_property_add A prop value s else s)"

definition ro_props_default_source_order :: "string list" where
  "ro_props_default_source_order =
     [''odm.'', ''product.'', ''system.'', ''system_ext.'', ''vendor.'', '''']"

definition build_prop_name :: "bool \<Rightarrow> string \<Rightarrow> string \<Rightarrow> string" where
  "build_prop_name product prop source =
     (if product then ''ro.product.'' @ source @ prop else ''ro.'' @ source @ ''build.'' @ prop)"

definition set_ro_build_prop ::
  "'p property_area \<Rightarrow> string \<Rightarrow> string \<Rightarrow> bool \<Rightarrow> 'p \<Rightarrow> 'p" where
  "set_ro_build_prop A prop value product s =
     fold (\<lambda>source. property_override A (build_prop_name product prop source) value True)
       ro_props_default_source_order s"

text \<open>\<open>recovery\<close>: whether \<open>/system/bin/recovery\<close> exists.\<close>

definition vendor_load_properties :: "'p property_area \<Rightarrow> bool \<Rightarrow> 'p \<Rightarrow> 'p" where
  "vendor_load_properties A recovery s =
     (if recovery then
        property_override A ''persist.sys.usb.config'' ''adb'' True
          (property_override A ''ro.adb.secure.recovery'' ''0'' True
            (property_override A ''ro.debuggable'' ''1'' True
              (property_override A ''ro.adb.secure'' ''0'' True s)))
      else s)"

subsection \<open>The property area\<close>

definition area_documented ::
  "'p property_area \<Rightarrow> (string \<Rightarrow> 'p \<Rightarrow> string option) \<Rightarrow> (string \<Rightarrow> string \<Rightarrow> bool) \<Rightarrow> bool" where
  "area_documented A get fits \<longleftrightarrow>
     (\<forall>k s. system_property_find A k s = None \<longleftrightarrow> get k s = None)
     \<and> (\<forall>k v s pi k'. fits k v \<longrightarrow> system_property_find A k s = Some pi \<longrightarrow>
          get k' (system_property_update A pi v s) = (if k' = k then Some v else get k' s))
     \<and> (\<forall>k v s k'. fits k v \<longrightarrow> system_property_find A k s = None \<longrightarrow>
          get k' (system_property_add A k v s) = (if k' = k then Some v else get k' s))"

lemma get_override:
  assumes area: "area_documented A get fits" and fits: "fits k v"
  shows "get k' (property_override A k v add s) =
    (if k' = k \<and> (add \<or> get k s \<noteq> None) then Some v else get k' s)"
proof (cases "system_property_find A k s")
  case None
  have "get k' (system_property_add A k v s) = (if k' = k then Some v else get k' s)" "get k s = None"
    using area fits None unfolding area_documented_def by blast+
  with None show ?thesis by (auto simp: property_override_def)
next
  case (Some pi)
  have "get k' (system_property_update A pi v s) = (if k' = k then Some v else get k' s)"
    using area fits Some unfolding area_documented_def by blast
  moreover have "get k s \<noteq> None" using area Some unfolding area_documented_def by (metis option.distinct(1))
  ultimately show ?thesis using Some by (simp add: property_override_def)
qed

lemma get_overrides:
  assumes "area_documented A get fits" "list_all (\<lambda>x. fits (name x) v) xs"
  shows "get k (fold (\<lambda>x. property_override A (name x) v True) xs s) =
    (if k \<in> name ` set xs then Some v else get k s)"
  using assms(2) by (induction xs arbitrary: s) (auto simp: get_override [OF assms(1)])

lemma build_prop_name_inj: "build_prop_name product prop source = build_prop_name product prop source'
    \<longleftrightarrow> source = source'"
  by (simp add: build_prop_name_def)

subsection \<open>Properties\<close>


text \<open>A property area that keeps the properties in a list, newest first; an index is a position.\<close>

definition list_area :: "(string \<times> string) list property_area" where
  "list_area = \<lparr>system_property_find = (\<lambda>k s. if map_of s k = None then None else
        Some (length (takeWhile (\<lambda>e. fst e \<noteq> k) s))),
      system_property_update = (\<lambda>i v s. s[i := (fst (s ! i), v)]),
      system_property_add = (\<lambda>k v s. (k, v) # s)\<rparr>"

lemma map_of_update_first:
  "map_of s k \<noteq> None \<Longrightarrow>
     map_of (s[length (takeWhile (\<lambda>e. fst e \<noteq> k) s) := (fst (s ! length (takeWhile (\<lambda>e. fst e \<noteq> k) s)), v)])
       = (map_of s)(k \<mapsto> v)"
  by (induction s) (auto simp: fun_eq_iff)

lemma list_area_documented: "area_documented list_area (\<lambda>k s. map_of s k) (\<lambda>_ _. True)"
  by (auto simp: area_documented_def list_area_def map_of_update_first split: if_splits)


text \<open>
  Booted into recovery, the four properties have their recovery values and every other property
  is as before; otherwise all properties are as before.
\<close>

lemma recovery_properties:
  assumes "area_documented A get fits"
    and "\<And>k v. (k, v) \<in> {(''ro.adb.secure'', ''0''), (''ro.debuggable'', ''1''),
        (''ro.adb.secure.recovery'', ''0''), (''persist.sys.usb.config'', ''adb'')} \<Longrightarrow> fits k v"
  shows "get k (vendor_load_properties A True s) =
      (if k = ''ro.adb.secure'' \<or> k = ''ro.adb.secure.recovery'' then Some ''0''
       else if k = ''ro.debuggable'' then Some ''1''
       else if k = ''persist.sys.usb.config'' then Some ''adb'' else get k s)
    \<and> vendor_load_properties A False s = s"
proof -
  have "fits ''ro.adb.secure'' ''0''" "fits ''ro.debuggable'' ''1''"
    "fits ''ro.adb.secure.recovery'' ''0''" "fits ''persist.sys.usb.config'' ''adb''"
    by (intro assms(2); simp)+
  then show ?thesis by (simp add: vendor_load_properties_def get_override [OF assms(1)])
qed

end
