(* ===== verification/Services.thy ===== *)
theory Services
  imports Hal_Prelude
begin

text \<open>
  The three service processes: \<open>sensors/service.cpp\<close>, \<open>lights/main.cpp\<close> and \<open>aidl/health/Health.cpp\<close>.
  Everything they call is outside the repository, so a run is the list of its calls, and the answers
  are the arguments of the definitions. A process ends with an exit code or, at a failed \<open>CHECK\<close>,
  by aborting. Log messages are left out.
\<close>

subsection \<open>The processes\<close>

datatype process_end = Exit int | Abort

datatype service_call =
    ConfigureRpcThreadpool nat bool
  | NewHalProxy
  | RegisterAsService
  | JoinRpcThreadpool
  | SetThreadPoolMaxThreadCount nat
  | MakeLights
  | AddService string
  | JoinThreadPool
  | InitKernelLogging
  | InitHealthdConfig
  | MakeHealth string
  | ChargerModeMain
  | MakeHealthLoop
  | StartLoop

text \<open>\<open>status\<close> is the answer of \<open>registerAsService\<close>, \<open>android_OK\<close> the code of success.\<close>

definition sensors_main :: "int \<Rightarrow> int \<Rightarrow> service_call list \<times> process_end" where
  "sensors_main android_OK status =
     (let calls = [ConfigureRpcThreadpool 1 True, NewHalProxy, RegisterAsService]
      in if status \<noteq> android_OK then (calls, Exit (-1))
         else (calls @ [JoinRpcThreadpool], Exit 1))"

text \<open>\<open>descriptor\<close> is \<open>Lights::descriptor\<close>; \<open>EXIT_FAILURE\<close> is 1.\<close>

definition lights_main :: "int \<Rightarrow> string \<Rightarrow> int \<Rightarrow> service_call list \<times> process_end" where
  "lights_main STATUS_OK descriptor status =
     (let calls = [SetThreadPoolMaxThreadCount 0, MakeLights, AddService (descriptor @ ''/default'')]
      in if status \<noteq> STATUS_OK then (calls, Abort)
         else (calls @ [JoinThreadPool], Exit 1))"

definition gInstanceName :: string where "gInstanceName = ''default''"
definition gChargerArg :: string where "gChargerArg = ''--charger''"

text \<open>\<open>recovery\<close> and \<open>noUI\<close> are the macros \<open>__ANDROID_RECOVERY__\<close> and \<open>CHARGER_FORCE_NO_UI\<close>;
  \<open>chargerResult\<close> and \<open>loopResult\<close> are the answers of \<open>ChargerModeMain\<close> and \<open>StartLoop\<close>.\<close>

definition health_main ::
  "bool \<Rightarrow> bool \<Rightarrow> string list \<Rightarrow> int \<Rightarrow> int \<Rightarrow> service_call list \<times> process_end" where
  "health_main recovery noUI argv chargerResult loopResult =
     (let start = (if recovery then [InitKernelLogging] else [])
            @ [InitHealthdConfig, MakeHealth gInstanceName]
      in if 2 \<le> length argv \<and> argv ! 1 = gChargerArg \<and> \<not> noUI
         then (start @ [ChargerModeMain], Exit chargerResult)
         else (start @ [MakeHealthLoop, StartLoop], Exit loopResult))"

definition ChargerEnableSuspend :: bool where "ChargerEnableSuspend \<longleftrightarrow> True"

subsection \<open>Properties\<close>

definition serves :: "service_call list \<Rightarrow> bool" where
  "serves calls \<longleftrightarrow> set calls \<inter> {JoinRpcThreadpool, JoinThreadPool, ChargerModeMain, StartLoop} \<noteq> {}"

text \<open>
  The sensors and the lights service serve requests exactly when their
  registration succeeded, and never exit successfully. The health service enters exactly one of its
  two modes, charger mode exactly when it has a user interface and the first argument asks for it,
  and ends with that mode's result.
\<close>

lemma services_serve_when_registered:
  "(serves (fst (sensors_main ok status)) \<longleftrightarrow> status = ok) \<and> snd (sensors_main ok status) \<noteq> Exit 0
    \<and> (serves (fst (lights_main ok desc status)) \<longleftrightarrow> status = ok) \<and> snd (lights_main ok desc status) \<noteq> Exit 0
    \<and> (ChargerModeMain \<in> set (fst (health_main recovery noUI argv c l)) \<longleftrightarrow>
        \<not> noUI \<and> (\<exists>name rest. argv = name # gChargerArg # rest))
    \<and> (StartLoop \<in> set (fst (health_main recovery noUI argv c l)) \<longleftrightarrow>
        ChargerModeMain \<notin> set (fst (health_main recovery noUI argv c l)))
    \<and> snd (health_main recovery noUI argv c l) =
        Exit (if last (fst (health_main recovery noUI argv c l)) = ChargerModeMain then c else l)"
proof -
  have "2 \<le> length argv \<and> argv ! 1 = gChargerArg \<longleftrightarrow> (\<exists>name rest. argv = name # gChargerArg # rest)"
    by (cases argv; cases "tl argv") auto
  then show ?thesis
    by (auto simp: serves_def sensors_main_def lights_main_def health_main_def Let_def)
qed

end
