(* ===== verification/Touch_Gestures.thy ===== *)
theory Touch_Gestures
  imports Hal_Prelude
begin

text \<open>
  The configuration of the touchscreen gestures, \<open>touch/include/TouchscreenGestureConfig.h\<close>: one
  constant. The function \<open>makeBitField\<close> that builds it and the numbers of the gestures are in
  \<open>TouchscreenGesture.h\<close>, which is not in the repository; they are parameters.
\<close>

record gestures =
  kGestureUpVee :: int32
  kGestureDownVee :: int32
  kGestureLeftVee :: int32
  kGestureRightVee :: int32
  kGestureCircle :: int32
  kGestureDoubleSwipe :: int32
  kGestureLeftToRight :: int32
  kGestureRightToLeft :: int32
  kGestureUpToDown :: int32
  kGestureDownToUp :: int32
  kGestureM :: int32
  kGestureW :: int32
  kGestureSingleTap :: int32

definition kSupportedGestures :: "(int32 list \<Rightarrow> int32) \<Rightarrow> gestures \<Rightarrow> int32" where
  "kSupportedGestures makeBitField G =
     makeBitField
       [kGestureUpVee G, kGestureDownVee G, kGestureLeftVee G, kGestureRightVee G, kGestureCircle G,
        kGestureDoubleSwipe G, kGestureLeftToRight G, kGestureRightToLeft G, kGestureUpToDown G,
        kGestureDownToUp G, kGestureM G, kGestureW G, kGestureSingleTap G]"

end
