(* ===== verification/Spec2Isabelle.thy ===== *)
theory Spec2Isabelle
  imports Hal_Stops Hal_Races Lights Libinit Services Touch_Gestures
begin

text \<open>
  Verification of the native code of the RMX3031 device tree: the sensors multi-HAL proxy, the
  lights HAL, the init library and the service processes.

  \<^bold>\<open>The program.\<close> \<open>sensors/HalProxy.cpp\<close> joins several vendor sensor libraries, the sub-HALs, into the one
  sensors service the framework sees. The proxy hands requests to the sub-HAL that owns a sensor, takes
  the events sub-HALs post through \<open>sensors/HalProxyCallback.cpp\<close> and passes them on through a bounded
  message queue, and keeps one kernel wake lock for all of them. Two threads of its own run beside
  the callers: one delivers events that did not fit into the message queue, the other lowers the wake
  lock's count as the framework acknowledges wake-up events, or gives it up after a time-out.
  \<open>lights/Light.cpp\<close> sets the backlight through a file, \<open>libinit\<close> overrides system properties,
  \<open>sensors/service.cpp\<close>, \<open>lights/main.cpp\<close> and \<open>aidl/health/Health.cpp\<close> are the processes, and
  \<open>touch/include/TouchscreenGestureConfig.h\<close> is a constant.

  \<^bold>\<open>The model.\<close> Each operation of the code is one definition, named as in the code, over explicit state.

  \<^item> The state of the proxy is the record \<open>hal_proxy\<close> of theory \<open>Hal_Types\<close>: one field per member of
    class \<open>HalProxy\<close>, with its name. \<open>std::map\<close> is the ordered map of \<open>Std_Map\<close>; \<open>size_t\<close>, \<open>int32_t\<close> and
    \<open>uint32_t\<close> are words of their width (\<open>Hal_Prelude\<close>); a pointer that may be null is an \<open>option\<close>.
    A result \<open>None\<close> of an operation is undefined behaviour in C++: a null pointer followed or
    \<open>front()\<close> of an empty queue. \<open>Result\<close> codes are values.
  \<^item> The code calls much that is outside the repository: sub-HALs, message queues, the kernel wake
    lock, the clock, the framework's callback, the dynamic linker. Each such call is an \<open>ext_call\<close>, and
    making it appends the call and its answer to the ghost member \<open>hist\<close>. The answers come from the
    parameter \<open>hal_env\<close>, as functions of the whole history, so that a theorem for every \<open>hal_env\<close> is a
    theorem for every behaviour of the environment. Constants of \<open>HalProxy.h\<close> are parameters as well;
    what the code's comments say of them are named predicates such as \<open>mask_documented\<close>.
  \<^item> The threads are step functions, \<open>pw_step\<close> and \<open>wl_step\<close>. A turn of a loop has three steps, cut where
    the code unlocks and locks its mutex; where a thread stands is part of the state (\<open>pw_thread\<close>,
    \<open>wl_thread\<close>). A wait on a condition is a step that changes nothing while the condition is false;
    theory \<open>Hal_Waits\<close> puts the condition variables in its place.
  \<^item> Code that holds no lock is cut where others may come in between: \<open>initializeCommon\<close> into the phases
    of \<open>phase_step\<close>, a post into the callback's work and the locked \<open>postEventsToMessageQueue\<close>.

  \<^bold>\<open>The theories.\<close>

  \<^item> \<open>Hal_Prelude\<close>, \<open>Std_Map\<close>, \<open>Hal_Types\<close>, \<open>Decimal\<close>, \<open>Step_Systems\<close>: integers, the container with the
    locale \<open>handle_table\<close> of its laws, the data, decimal numbers in streams with their round trip, and
    the locales of transition systems: invariants, simulations, determined ends.
  \<^item> \<open>Sensor_Handle\<close>: the sub-HAL index in the first byte of a handle. The locale \<open>subhal_codec\<close> states
    what the other theories need of the encoding.
  \<^item> \<open>Sensor_List\<close>: constructors, collection of the sensors, the published lists.
  \<^item> \<open>Sub_Hal_Ops\<close>: the requests, from \<open>setOperationMode\<close> to the direct channels.
  \<^item> \<open>Dynamic_Sensors\<close>: sensors that come and go.
  \<^item> \<open>Wakelock\<close>: the reference count; the locale \<open>wakelock_counter\<close> is the interface of the scoped
    wakelocks. \<open>Hal_Threads\<close>: the thread \<open>handleWakelocks\<close>.
  \<^item> \<open>Pending_Writes\<close>: \<open>postEventsToMessageQueue\<close>, the pending queue and the thread
    \<open>handlePendingWrites\<close>, with the invariant \<open>pending_inv\<close>. \<open>Pending_Delivery\<close>: what they guarantee.
  \<^item> \<open>Hal_Initialize\<close>: stopping and joining the threads, \<open>initialize\<close>, the destructor.
  \<^item> \<open>Hal_Callback\<close>: the sub-HALs' side, over the locale \<open>event_sink\<close>.
  \<^item> \<open>Hal_Config\<close>: the configuration file with the libraries it names, and the debug output.
  \<^item> \<open>Hal_Frames\<close>: the requests as one relation, and what each operation and thread step leaves alone.
  \<^item> \<open>Hal_Restart\<close>: \<open>initializeCommon\<close> in phases; uninterrupted, they are \<open>initialize\<close>.
  \<^item> \<open>Hal_System\<close>: everything together. \<open>env_step\<close> is what the callers do, with the mutexes each step
    holds, \<open>sys_step\<close> adds the steps of the two threads, all in any order, and every step keeps \<open>sys_inv\<close>.
  \<^item> \<open>Hal_Reachable\<close>: what can arise from any of the three constructors, and what holds of it.
  \<^item> \<open>Hal_Ledger\<close>: the bookings of the wake lock's count along the runs of the system.
  \<^item> \<open>Hal_Waits\<close>: the same system with the condition variables, where a thread that found its condition
    false sleeps until it is notified. \<open>Hal_Stops\<close>: stops that are missed, and what becomes of them.
  \<^item> \<open>Hal_Races\<close>: the one interleaving \<open>Hal_System\<close> leaves out, and what it does.
  \<^item> \<open>Lights\<close>, \<open>Libinit\<close>, \<open>Services\<close>, \<open>Touch_Gestures\<close>: the other programs.

  \<^bold>\<open>What is shown.\<close> For the whole proxy, in every reachable state: the size counter of the pending queue is
  exact and within its bound, the wake lock is held exactly while it is counted, the tables are ordered
  maps that keep what was collected, each entry under its handle, requests for published sensors reach
  their owners, and no thread runs into undefined behaviour. Along every run the wake lock's count is
  what its bookings make of it. The event path refines a queue that may
  lose but never reorders, duplicates or invents events. With the condition variables, no thread sleeps
  over work, and a restart can always be taken to its end unless its stop was missed. For the parts:
  round trips of the handle encoding, of connecting and disconnecting, of acquiring and releasing;
  requests reach exactly the owner and invalid ones nobody; mode changes roll back; \<open>initialize\<close> from any
  state; the pending queue drains and the wake lock is released in finitely many turns; the
  configuration file, the debug output, the brightness arithmetic and the system properties against
  reference definitions.

  Some theorems state behaviour the code does not intend: a stop can be missed, by either thread, because
  \<open>stopThreads\<close> notifies without the mutex, and then \<open>initialize\<close> never returns (\<open>stop_signal_lost\<close>); a post that
  comes between the two assignments that clear the pending queue makes its size wrap
  (\<open>post_while_clearing_wraps_size\<close>); the reset of the wake lock on a restart has no effect
  (\<open>initialize_keeps_wakelock\<close>); a batch delivered in parts that time out lowers the count too often;
  events of unknown sensors insert empty sensors; a refused post stays counted; and a missing
  \<open>max_brightness\<close> makes the scaling wrap.

  \<^bold>\<open>Bounds.\<close> Vectors have fewer than \<open>2\<^sup>6\<^sup>3\<close> elements (\<open>vector_ok\<close>), which the C++ standard guarantees on a
  64-bit target. The handle encoding serves 128 sub-HALs; more are rejected (\<open>subhal_128_unreachable\<close>).
  The wakelock counter may not wrap (\<open>increment_ok\<close>). Times are unbounded integers. All loops are total functions, so there is no
  fuel; the threads' loops are bounded by theorems that count turns.

  \<^bold>\<open>Not modelled.\<close> Log messages. Timing other than by the clock's answers; weak memory and data races
  inside a step: steps are atomic, cut where the code locks and unlocks; the unlocked \<open>debug\<close> reads its
  values in one step. Members and classes defined in \<open>HalProxy.h\<close>, \<open>ScopedWakelock\<close>, the sub-HAL
  wrappers and the HIDL types are outside the repository and appear as parameters, as do
  \<open>makeBitField\<close> and the gesture numbers of \<open>TouchscreenGesture.h\<close>.
\<close>

end
